(* ===== verification/Urp_Prelude.thy ===== *)
theory Urp_Prelude
  imports Main "HOL-Library.Word"
begin

text \<open>
  Shared vocabulary of the development: the fixed-width integer types of the
  kernel sources, the errno values its functions return, checked byte-buffer
  writes, and the generic lemmas on lists and words that the components use.
\<close>

unbundle bit_operations_syntax

section \<open>Integer types, buffers and errors\<close>

type_synonym u8 = "8 word"
type_synonym u16 = "16 word"
type_synonym u32 = "32 word"
type_synonym u64 = "64 word"

type_synonym bytes = "u8 list"

datatype errno =
    EINVAL | EEXIST | ENOBUFS | ENOMEM | ENOENT | EAGAIN | EBUSY | ERANGE
  | ENXIO | EMSGSIZE | E2BIG | EOPNOTSUPP | ENOTCONN | EPIPE | EIO | ENODEV
  | ECONNRESET | EBADMSG | ETIMEDOUT | EAFNOSUPPORT | ENAMETOOLONG | EFAULT
  | ECANCELED | ERESTARTSYS | EOTHER nat

type_synonym 'a result = "errno + 'a"

abbreviation U16_MAX :: u16 where "U16_MAX \<equiv> 65535"
abbreviation U32_MAX :: u32 where "U32_MAX \<equiv> 4294967295"
abbreviation U64_MAX :: u64 where "U64_MAX \<equiv> 18446744073709551615"

named_theorems le_simps \<open>little-endian codec rewrites\<close>
named_theorems urp_defs \<open>definitions unfolded by the component proofs\<close>

section \<open>Writing into a byte buffer\<close>

definition write_at :: "bytes \<Rightarrow> nat \<Rightarrow> bytes \<Rightarrow> bytes" where
  "write_at buf off bs = take off buf @ bs @ drop (off + length bs) buf"

lemma length_write_at [simp]:
  "off + length bs \<le> length buf \<Longrightarrow> length (write_at buf off bs) = length buf"
  by (simp add: write_at_def)

lemma nth_write_at:
  assumes "off + length bs \<le> length buf" "i < length buf"
  shows "write_at buf off bs ! i =
    (if i < off then buf ! i
     else if i < off + length bs then bs ! (i - off) else buf ! i)"
  using assms by (auto simp: write_at_def nth_append)

lemma take_drop_write_at [simp]:
  assumes "off + length bs \<le> length buf"
  shows "take (length bs) (drop off (write_at buf off bs)) = bs"
  using assms by (simp add: write_at_def)

lemma take_drop_write_at_other:
  assumes "off + length bs \<le> length buf" "i + w \<le> off \<or> off + length bs \<le> i"
  shows "take w (drop i (write_at buf off bs)) = take w (drop i buf)"
proof (rule nth_equalityI)
  fix j assume "j < length (take w (drop i (write_at buf off bs)))"
  with assms show "take w (drop i (write_at buf off bs)) ! j = take w (drop i buf) ! j"
    by (auto simp: nth_write_at)
qed (use assms in simp)

lemma take_write_at_other:
  "off + length bs \<le> length buf \<Longrightarrow> w \<le> off \<Longrightarrow> take w (write_at buf off bs) = take w buf"
  using take_drop_write_at_other[of off bs buf 0 w] by simp

lemma write_at_nil [simp]: "write_at buf off [] = buf"
  by (simp add: write_at_def)

lemma write_at_append:
  assumes "off + length as + length bs \<le> length buf"
  shows "write_at (write_at buf off as) (off + length as) bs = write_at buf off (as @ bs)"
  using assms by (simp add: write_at_def ac_simps)

section \<open>Little-endian words\<close>

primrec le_bytes :: "nat \<Rightarrow> 'a::len word \<Rightarrow> bytes" where
  "le_bytes 0 v = []"
| "le_bytes (Suc n) v = ucast v # le_bytes n (drop_bit 8 v)"

primrec le_word :: "bytes \<Rightarrow> 'a::len word" where
  "le_word [] = 0"
| "le_word (b # bs) = ucast b OR push_bit 8 (le_word bs)"

lemma length_le_bytes [simp]: "length (le_bytes n v) = n"
  by (induction n arbitrary: v) auto

lemma le_bytes_numeral [le_simps]:
  "le_bytes (numeral k) v = ucast v # le_bytes (pred_numeral k) (drop_bit 8 v)"
  by (simp add: numeral_eq_Suc)

lemma bit_le_word:
  "bit (le_word bs :: 'a::len word) n \<longleftrightarrow>
     n < LENGTH('a) \<and> n div 8 < length bs \<and> bit (bs ! (n div 8)) (n mod 8)"
proof (induction bs arbitrary: n)
  case (Cons b bs)
  show ?case
  proof (cases "n < 8")
    case True
    then show ?thesis by (auto simp: bit_simps)
  next
    case False
    then have n: "n div 8 = Suc ((n - 8) div 8)" "n mod 8 = (n - 8) mod 8"
      by (simp_all add: le_div_geq le_mod_geq)
    have b: "\<not> bit b n" using False bit_imp_le_length[of b n] by auto
    have "bit (le_word (b # bs) :: 'a word) n \<longleftrightarrow> n < LENGTH('a) \<and> bit (le_word bs :: 'a word) (n - 8)"
      using False b by (simp add: bit_simps)
    also have "\<dots> \<longleftrightarrow> n < LENGTH('a) \<and> (n - 8) div 8 < length bs \<and> bit (bs ! ((n - 8) div 8)) ((n - 8) mod 8)"
      unfolding Cons.IH by auto
    finally show ?thesis unfolding n by simp
  qed
qed simp

lemma nth_le_bytes: "i < n \<Longrightarrow> le_bytes n v ! i = ucast (drop_bit (8 * i) v)"
proof (induction n arbitrary: v i)
  case (Suc n)
  then show ?case by (cases i) (auto simp: ac_simps)
qed simp

lemma le_word_le_bytes: "le_word (le_bytes n v) = take_bit (8 * n) (v :: 'a::len word)"
proof (rule bit_word_eqI)
  fix i assume "i < LENGTH('a)"
  have "8 * (i div 8) + i mod 8 = i" "(i div 8 < n) = (i < 8 * n)" by auto
  then show "bit (le_word (le_bytes n v) :: 'a word) i = bit (take_bit (8 * n) v) i"
    by (auto simp: bit_le_word nth_le_bytes bit_simps dest: bit_imp_le_length)
qed

lemma le_bytes_le_word:
  assumes "8 * length bs \<le> LENGTH('a::len)"
  shows "le_bytes (length bs) (le_word bs :: 'a word) = bs"
proof (rule nth_equalityI)
  fix i assume i: "i < length (le_bytes (length bs) (le_word bs :: 'a word))"
  show "le_bytes (length bs) (le_word bs :: 'a word) ! i = bs ! i"
  proof (rule bit_word_eqI)
    fix n assume "n < LENGTH(8)"
    then show "bit (le_bytes (length bs) (le_word bs :: 'a word) ! i) n = bit (bs ! i) n"
      using i assms by (auto simp: nth_le_bytes bit_simps bit_le_word)
  qed
qed simp

definition get_unaligned_le16 :: "bytes \<Rightarrow> nat \<Rightarrow> u16" where
  "get_unaligned_le16 p off = le_word (take 2 (drop off p))"

definition get_unaligned_le32 :: "bytes \<Rightarrow> nat \<Rightarrow> u32" where
  "get_unaligned_le32 p off = le_word (take 4 (drop off p))"

definition get_unaligned_le64 :: "bytes \<Rightarrow> nat \<Rightarrow> u64" where
  "get_unaligned_le64 p off = le_word (take 8 (drop off p))"

definition put_unaligned_le16 :: "u16 \<Rightarrow> bytes \<Rightarrow> nat \<Rightarrow> bytes" where
  "put_unaligned_le16 v p off = write_at p off (le_bytes 2 v)"

definition put_unaligned_le32 :: "u32 \<Rightarrow> bytes \<Rightarrow> nat \<Rightarrow> bytes" where
  "put_unaligned_le32 v p off = write_at p off (le_bytes 4 v)"

definition put_unaligned_le64 :: "u64 \<Rightarrow> bytes \<Rightarrow> nat \<Rightarrow> bytes" where
  "put_unaligned_le64 v p off = write_at p off (le_bytes 8 v)"

definition put_u8 :: "u8 \<Rightarrow> bytes \<Rightarrow> nat \<Rightarrow> bytes" where
  "put_u8 v p off = write_at p off [v]"

definition get_u8 :: "bytes \<Rightarrow> nat \<Rightarrow> u8" where
  "get_u8 p off = p ! off"

text \<open>
  The contract of a fixed-width field accessor.  A client reads back what it
  wrote, and a write elsewhere in the buffer does not disturb the field.
\<close>

locale field_access =
  fixes width :: nat
    and put :: "'v \<Rightarrow> bytes \<Rightarrow> nat \<Rightarrow> bytes"
    and get :: "bytes \<Rightarrow> nat \<Rightarrow> 'v"
    and enc :: "'v \<Rightarrow> bytes"
    and dec :: "bytes \<Rightarrow> 'v"
  assumes put_write: "put v p off = write_at p off (enc v)"
    and get_read: "off + width \<le> length p \<Longrightarrow> get p off = dec (take width (drop off p))"
    and enc_length: "length (enc v) = width"
    and dec_enc: "dec (enc v) = v"
begin

lemma get_put_same:
  "off + width \<le> length p \<Longrightarrow> get (put v p off) off = v"
  using take_drop_write_at[of off "enc v" p]
  by (simp add: put_write get_read enc_length dec_enc)

lemma get_write_same:
  "off + width \<le> length p \<Longrightarrow> get (write_at p off (enc v)) off = v"
  using get_put_same by (simp add: put_write)

lemma get_write_other:
  assumes "off + length bs \<le> length p" "i + width \<le> length p"
    "i + width \<le> off \<or> off + length bs \<le> i"
  shows "get (write_at p off bs) i = get p i"
  using assms by (simp add: get_read take_drop_write_at_other)

lemma put_length:
  "off + width \<le> length p \<Longrightarrow> length (put v p off) = length p"
  by (simp add: put_write enc_length)

lemma put_other_bytes:
  assumes "off + width \<le> length p" "i < length p" "i < off \<or> off + width \<le> i"
  shows "put v p off ! i = p ! i"
  using assms by (auto simp: put_write nth_write_at enc_length)

end

interpretation le16: field_access 2 put_unaligned_le16 get_unaligned_le16 "le_bytes 2" le_word
  by unfold_locales
    (simp_all add: put_unaligned_le16_def get_unaligned_le16_def le_word_le_bytes
      take_bit_word_eq_self)

interpretation le32: field_access 4 put_unaligned_le32 get_unaligned_le32 "le_bytes 4" le_word
  by unfold_locales
    (simp_all add: put_unaligned_le32_def get_unaligned_le32_def le_word_le_bytes
      take_bit_word_eq_self)

interpretation le64: field_access 8 put_unaligned_le64 get_unaligned_le64 "le_bytes 8" le_word
  by unfold_locales
    (simp_all add: put_unaligned_le64_def get_unaligned_le64_def le_word_le_bytes
      take_bit_word_eq_self)

interpretation byte: field_access 1 put_u8 get_u8 "\<lambda>v. [v]" hd
  by unfold_locales (simp_all add: put_u8_def get_u8_def hd_drop_conv_nth)

lemmas field_puts = le16.put_write le32.put_write le64.put_write byte.put_write
lemmas field_same = le16.get_write_same le32.get_write_same le64.get_write_same
  byte.get_write_same
lemmas field_other = le16.get_write_other le32.get_write_other le64.get_write_other
  byte.get_write_other

lemmas field_simps [le_simps] = field_puts field_same field_other

section \<open>Word and buffer arithmetic\<close>

lemma unat_bound: "unat (w :: 'a::len word) < 2 ^ LENGTH('a)"
  by (rule unsigned_less)
lemma unat_ucast_small:
  assumes "unat (w :: 'a::len word) < 2 ^ LENGTH('b::len)"
  shows "unat (ucast w :: 'b word) = unat w"
  using assms by (simp add: unsigned_ucast_eq take_bit_nat_eq_self)

lemma unat_ucast_up:
  assumes "LENGTH('a::len) \<le> LENGTH('b::len)"
  shows "unat (ucast (w :: 'a word) :: 'b word) = unat w"
proof (rule unat_ucast_small)
  have "unat w < 2 ^ LENGTH('a)" by (rule unat_bound)
  also have "\<dots> \<le> (2 :: nat) ^ LENGTH('b)" using assms by simp
  finally show "unat w < 2 ^ LENGTH('b)" .
qed

lemma unat_add_small:
  fixes a b :: "'a::len word"
  shows "unat a + unat b < 2 ^ LENGTH('a) \<Longrightarrow> unat (a + b) = unat a + unat b"
  by (rule unat_add_lem[THEN iffD1])

lemma unat_mult_small:
  fixes a b :: "'a::len word"
  shows "unat a * unat b < 2 ^ LENGTH('a) \<Longrightarrow> unat (a * b) = unat a * unat b"
  by (rule unat_mult_lem[THEN iffD1])

lemma unat_pos_iff: "0 < unat w \<longleftrightarrow> w \<noteq> 0"
  by (simp add: unat_gt_0)

lemma unat_Suc_less:
  fixes i n :: "'a::len word"
  assumes "i < n"
  shows "unat (i + 1) = Suc (unat i)"
proof -
  have "Suc (unat i) < 2 ^ LENGTH('a)"
    using assms unat_bound[of n] unfolding word_less_nat_alt by (rule le_less_trans[OF Suc_leI])
  then show ?thesis
    using unat_add_small[of i 1] by simp
qed

lemma min_word_unat:
  fixes a b :: "'a::len word"
  shows "unat (if a < b then a else b) = min (unat a) (unat b)"
  by (auto simp: min_def word_less_nat_alt)

lemma write_at_concat_head:
  assumes "off + length bs \<le> length c"
  shows "write_at c off bs @ r = write_at (c @ r) off bs"
  using assms by (simp add: write_at_def)

lemma write_at_concat_split:
  assumes "length c = off + length as" "length bs \<le> length r"
  shows "write_at c off as @ write_at r 0 bs = write_at (c @ r) off (as @ bs)"
  using assms by (simp add: write_at_def)

end
