(* ===== verification/Urp_Frame.thy ===== *)
theory Urp_Frame
  imports Urp_Prelude
begin

text \<open>
  The wire format (kernel/urp_frame.h, kernel/urp_frame.c and the frame
  constants of kernel/include/uapi/linux/urp.h): the 20-byte little-endian
  frame header, the PING/PONG probe payloads, the timestamp trailer, the
  scatter/gather of a payload over separate chunks, the receive classifier, and
  the connection private-data trailer.  A buffer is a byte list; an encoder
  returns the buffer it wrote into.
\<close>

section \<open>Wire constants\<close>

definition URP_FRAME_HEADER_SIZE :: u32 where "URP_FRAME_HEADER_SIZE = 20"

definition URP_FRAME_TYPE_DATA :: u8 where "URP_FRAME_TYPE_DATA = 0"
definition URP_FRAME_TYPE_CONTROL :: u8 where "URP_FRAME_TYPE_CONTROL = 1"
definition URP_FRAME_TYPE_PROBE :: u8 where "URP_FRAME_TYPE_PROBE = 2"

definition URP_PING_PAYLOAD_SIZE :: u32 where "URP_PING_PAYLOAD_SIZE = 32"
definition URP_PONG_PAYLOAD_SIZE :: u32 where "URP_PONG_PAYLOAD_SIZE = 48"
definition URP_PROBE_FLAG_PONG :: u8 where "URP_PROBE_FLAG_PONG = 1"

definition URP_DATA_FLAG_SYN :: u8 where "URP_DATA_FLAG_SYN = 1"
definition URP_DATA_FLAG_FIN :: u8 where "URP_DATA_FLAG_FIN = 2"
definition URP_DATA_FLAG_RST :: u8 where "URP_DATA_FLAG_RST = 4"
definition URP_DATA_FLAG_TSTAMP :: u8 where "URP_DATA_FLAG_TSTAMP = 8"
definition URP_TSTAMP_TRAILER_LEN :: u32 where "URP_TSTAMP_TRAILER_LEN = 8"

definition URP_CTRL_FLAG_CREDIT :: u8 where "URP_CTRL_FLAG_CREDIT = 1"
definition URP_CTRL_FLAG_CREDIT_BYTES :: u8 where "URP_CTRL_FLAG_CREDIT_BYTES = 32"
definition URP_CREDIT_BYTES_PAYLOAD_SIZE :: u32 where "URP_CREDIT_BYTES_PAYLOAD_SIZE = 8"

definition URP_CONN_CAP_WINDOW_BYTES :: u8 where "URP_CONN_CAP_WINDOW_BYTES = 1"
definition URP_CONN_CAP_TSTAMP :: u8 where "URP_CONN_CAP_TSTAMP = 2"

definition URP_BUFFER_SIZE_MIN :: u32 where
  "URP_BUFFER_SIZE_MIN = URP_FRAME_HEADER_SIZE + URP_PONG_PAYLOAD_SIZE"
definition URP_BUFFER_SIZE_MAX :: u32 where "URP_BUFFER_SIZE_MAX = 1048576"
definition URP_MAX_PAYLOAD :: u32 where
  "URP_MAX_PAYLOAD = URP_BUFFER_SIZE_MAX - URP_FRAME_HEADER_SIZE"

lemmas frame_consts =
  URP_FRAME_HEADER_SIZE_def URP_FRAME_TYPE_DATA_def URP_FRAME_TYPE_CONTROL_def
  URP_FRAME_TYPE_PROBE_def URP_PING_PAYLOAD_SIZE_def URP_PONG_PAYLOAD_SIZE_def
  URP_PROBE_FLAG_PONG_def URP_DATA_FLAG_SYN_def URP_DATA_FLAG_FIN_def
  URP_DATA_FLAG_RST_def URP_DATA_FLAG_TSTAMP_def URP_TSTAMP_TRAILER_LEN_def
  URP_CTRL_FLAG_CREDIT_def URP_CTRL_FLAG_CREDIT_BYTES_def
  URP_CREDIT_BYTES_PAYLOAD_SIZE_def URP_CONN_CAP_WINDOW_BYTES_def
  URP_CONN_CAP_TSTAMP_def URP_BUFFER_SIZE_MIN_def URP_BUFFER_SIZE_MAX_def
  URP_MAX_PAYLOAD_def

declare frame_consts [urp_defs]

section \<open>Frame header codec\<close>

definition urp_frame_encode ::
    "bytes \<Rightarrow> u32 \<Rightarrow> u64 \<Rightarrow> u8 \<Rightarrow> u8 \<Rightarrow> u16 \<Rightarrow> u32 \<Rightarrow> bytes" where
  "urp_frame_encode buf stream_id seq frame_type flags credits payload_len =
    (let p = put_unaligned_le32 stream_id buf 0;
         p = put_unaligned_le64 seq p 4;
         p = put_u8 frame_type p 12;
         p = put_u8 flags p 13;
         p = put_unaligned_le16 credits p 14
     in put_unaligned_le32 payload_len p 16)"

definition urp_frame_decode_payload_len :: "bytes \<Rightarrow> u32" where
  "urp_frame_decode_payload_len buf = get_unaligned_le32 buf 16"

definition urp_frame_decode_stream_id :: "bytes \<Rightarrow> u32" where
  "urp_frame_decode_stream_id buf = get_unaligned_le32 buf 0"

definition urp_frame_decode_credits :: "bytes \<Rightarrow> u16" where
  "urp_frame_decode_credits buf = get_unaligned_le16 buf 14"

definition urp_frame_decode_seq :: "bytes \<Rightarrow> u64" where
  "urp_frame_decode_seq buf = get_unaligned_le64 buf 4"

definition urp_frame_decode_type :: "bytes \<Rightarrow> u8" where
  "urp_frame_decode_type buf = get_u8 buf 12"

definition urp_frame_decode_flags :: "bytes \<Rightarrow> u8" where
  "urp_frame_decode_flags buf = get_u8 buf 13"

section \<open>Probe payloads, timestamp trailer and byte grants\<close>

definition urp_ping_encode :: "bytes \<Rightarrow> u32 \<Rightarrow> u16 \<Rightarrow> u64 \<Rightarrow> u64 \<Rightarrow> bytes" where
  "urp_ping_encode buf probe_seq qp_index t_send_mono t_send_real =
    (let p = put_unaligned_le32 probe_seq buf 0;
         p = put_unaligned_le16 qp_index p 4;
         p = put_u8 0 p 6;
         p = put_u8 0 p 7;
         p = put_unaligned_le64 t_send_mono p 8;
         p = put_unaligned_le64 t_send_real p 16
     in put_unaligned_le64 0 p 24)"

definition urp_ping_decode_seq :: "bytes \<Rightarrow> u32" where
  "urp_ping_decode_seq buf = get_unaligned_le32 buf 0"

definition urp_ping_decode_qp_index :: "bytes \<Rightarrow> u16" where
  "urp_ping_decode_qp_index buf = get_unaligned_le16 buf 4"

definition urp_ping_decode_t_send_mono :: "bytes \<Rightarrow> u64" where
  "urp_ping_decode_t_send_mono buf = get_unaligned_le64 buf 8"

definition urp_ping_decode_t_send_real :: "bytes \<Rightarrow> u64" where
  "urp_ping_decode_t_send_real buf = get_unaligned_le64 buf 16"

definition urp_pong_encode :: "bytes \<Rightarrow> bytes \<Rightarrow> u64 \<Rightarrow> u64 \<Rightarrow> u64 \<Rightarrow> bytes" where
  "urp_pong_encode buf ping t_recv_real t_pong_mono t_pong_real =
    (let p = write_at buf 0 (take 24 ping);
         p = put_unaligned_le64 t_recv_real p 24;
         p = put_unaligned_le64 t_pong_mono p 32
     in put_unaligned_le64 t_pong_real p 40)"

definition urp_pong_decode_t_pong_mono :: "bytes \<Rightarrow> u64" where
  "urp_pong_decode_t_pong_mono buf = get_unaligned_le64 buf 32"

definition urp_frame_tstamp_encode :: "bytes \<Rightarrow> nat \<Rightarrow> u64 \<Rightarrow> bytes" where
  "urp_frame_tstamp_encode buf tail_off t_send_real = put_unaligned_le64 t_send_real buf tail_off"

definition urp_frame_tstamp_decode :: "bytes \<Rightarrow> nat \<Rightarrow> u64" where
  "urp_frame_tstamp_decode buf tail_off = get_unaligned_le64 buf tail_off"

definition urp_credit_bytes_encode :: "bytes \<Rightarrow> u64 \<Rightarrow> bytes" where
  "urp_credit_bytes_encode payload abs_bytes = put_unaligned_le64 abs_bytes payload 0"

definition urp_credit_bytes_decode :: "bytes option \<Rightarrow> u32 \<Rightarrow> u64 option" where
  "urp_credit_bytes_decode payload payload_len =
    (case payload of
       None \<Rightarrow> None
     | Some p \<Rightarrow>
         if payload_len < URP_CREDIT_BYTES_PAYLOAD_SIZE then None
         else Some (get_unaligned_le64 p 0))"

lemmas frame_decode_defs =
  urp_frame_decode_payload_len_def urp_frame_decode_stream_id_def
  urp_frame_decode_credits_def urp_frame_decode_seq_def urp_frame_decode_type_def
  urp_frame_decode_flags_def

lemmas ping_decode_defs =
  urp_ping_decode_seq_def urp_ping_decode_qp_index_def urp_ping_decode_t_send_mono_def
  urp_ping_decode_t_send_real_def

section \<open>Scatter and gather of a chunked frame\<close>

text \<open>
  Loop state: the bytes copied so far and the offset into the current chunk,
  both u32.  The list of chunks is the remaining part of the pointer array.
\<close>

fun scatter_loop :: "u32 \<Rightarrow> bytes list \<Rightarrow> bytes \<Rightarrow> u32 \<Rightarrow> u32 \<Rightarrow> u32 \<Rightarrow> bytes list \<times> u32" where
  "scatter_loop chunk_size [] src len copied off = ([], copied)"
| "scatter_loop chunk_size (c # cs) src len copied off =
    (if copied < len then
       let avail = chunk_size - off;
           n = (if avail < len - copied then avail else len - copied);
           c' = write_at c (unat off) (take (unat n) (drop (unat copied) src));
           (cs', total) = scatter_loop chunk_size cs src len (copied + n) 0
       in (c' # cs', total)
     else (c # cs, copied))"

definition urp_scatter_payload :: "bytes list \<Rightarrow> u32 \<Rightarrow> bytes \<Rightarrow> u32 \<Rightarrow> bytes list \<times> u32" where
  "urp_scatter_payload chunks chunk_size src len =
    scatter_loop chunk_size chunks src len 0 URP_FRAME_HEADER_SIZE"

fun gather_loop :: "u32 \<Rightarrow> bytes list \<Rightarrow> bytes \<Rightarrow> u32 \<Rightarrow> u32 \<Rightarrow> u32 \<Rightarrow> bytes \<times> u32" where
  "gather_loop chunk_size [] dst len copied off = (dst, copied)"
| "gather_loop chunk_size (c # cs) dst len copied off =
    (if copied < len then
       let avail = chunk_size - off;
           n = (if avail < len - copied then avail else len - copied);
           dst' = write_at dst (unat copied) (take (unat n) (drop (unat off) c))
       in gather_loop chunk_size cs dst' len (copied + n) 0
     else (dst, copied))"

definition urp_gather_payload :: "bytes list \<Rightarrow> u32 \<Rightarrow> bytes \<Rightarrow> u32 \<Rightarrow> bytes \<times> u32" where
  "urp_gather_payload chunks chunk_size dst len =
    gather_loop chunk_size chunks dst len 0 URP_FRAME_HEADER_SIZE"

section \<open>Receive classifier\<close>

datatype urp_rx_action =
    URP_RX_DROP_SHORT | URP_RX_DROP_OVERSIZE | URP_RX_DROP_PAYLOAD_OVERRUN
  | URP_RX_DROP_SHORT_PROBE | URP_RX_CREDIT | URP_RX_PROBE_PING | URP_RX_PROBE_PONG
  | URP_RX_DELIVER_LEGACY | URP_RX_DELIVER_STREAM

record urp_rx_decoded =
  rd_payload_len :: u32
  rd_stream_id :: u32
  rd_credits :: u16
  rd_type :: u8
  rd_flags :: u8

definition urp_rx_decoded_zero :: urp_rx_decoded where
  "urp_rx_decoded_zero =
    \<lparr> rd_payload_len = 0, rd_stream_id = 0, rd_credits = 0, rd_type = 0, rd_flags = 0 \<rparr>"

definition urp_classify_frame :: "u32 \<Rightarrow> bytes \<Rightarrow> urp_rx_action \<times> urp_rx_decoded" where
  "urp_classify_frame byte_len hdr =
    (if byte_len < URP_FRAME_HEADER_SIZE then (URP_RX_DROP_SHORT, urp_rx_decoded_zero)
     else
       let out = \<lparr> rd_payload_len = urp_frame_decode_payload_len hdr,
                   rd_stream_id = urp_frame_decode_stream_id hdr,
                   rd_credits = urp_frame_decode_credits hdr,
                   rd_type = urp_frame_decode_type hdr,
                   rd_flags = urp_frame_decode_flags hdr \<rparr>
       in if URP_MAX_PAYLOAD < rd_payload_len out then (URP_RX_DROP_OVERSIZE, out)
          else if byte_len - URP_FRAME_HEADER_SIZE < rd_payload_len out
            then (URP_RX_DROP_PAYLOAD_OVERRUN, out)
          else if rd_type out = URP_FRAME_TYPE_CONTROL then (URP_RX_CREDIT, out)
          else if rd_type out = URP_FRAME_TYPE_PROBE then
            (if byte_len < URP_FRAME_HEADER_SIZE + URP_PING_PAYLOAD_SIZE
               then (URP_RX_DROP_SHORT_PROBE, out)
             else if rd_flags out AND URP_PROBE_FLAG_PONG \<noteq> 0 then (URP_RX_PROBE_PONG, out)
             else (URP_RX_PROBE_PING, out))
          else if rd_stream_id out = 0 then (URP_RX_DELIVER_LEGACY, out)
          else (URP_RX_DELIVER_STREAM, out))"

datatype urp_fast_rx_disp =
  URP_FAST_RX_DELIVER | URP_FAST_RX_PONG | URP_FAST_RX_ABSORB | URP_FAST_RX_REJECT

fun urp_fast_rx_disposition :: "urp_rx_action \<Rightarrow> urp_fast_rx_disp" where
  "urp_fast_rx_disposition URP_RX_DELIVER_STREAM = URP_FAST_RX_DELIVER"
| "urp_fast_rx_disposition URP_RX_DELIVER_LEGACY = URP_FAST_RX_DELIVER"
| "urp_fast_rx_disposition URP_RX_PROBE_PING = URP_FAST_RX_PONG"
| "urp_fast_rx_disposition URP_RX_PROBE_PONG = URP_FAST_RX_ABSORB"
| "urp_fast_rx_disposition URP_RX_CREDIT = URP_FAST_RX_ABSORB"
| "urp_fast_rx_disposition _ = URP_FAST_RX_REJECT"

section \<open>Connection private data\<close>

definition URP_CONN_PRIV_MAGIC0 :: u8 where "URP_CONN_PRIV_MAGIC0 = 0x55"
definition URP_CONN_PRIV_MAGIC1 :: u8 where "URP_CONN_PRIV_MAGIC1 = 0x52"
definition URP_CONN_PRIV_TRAILER_LEN :: u8 where "URP_CONN_PRIV_TRAILER_LEN = 3"
definition URP_CONN_PRIV_QP_TRAILER_LEN :: u8 where "URP_CONN_PRIV_QP_TRAILER_LEN = 4"
definition URP_CONN_PRIV_CAP_TRAILER_LEN :: u8 where "URP_CONN_PRIV_CAP_TRAILER_LEN = 5"

lemmas priv_consts [urp_defs] =
  URP_CONN_PRIV_MAGIC0_def URP_CONN_PRIV_MAGIC1_def URP_CONN_PRIV_TRAILER_LEN_def
  URP_CONN_PRIV_QP_TRAILER_LEN_def URP_CONN_PRIV_CAP_TRAILER_LEN_def

definition urp_conn_priv_build :: "bytes \<Rightarrow> u8 \<Rightarrow> u8 \<Rightarrow> bytes \<times> u8" where
  "urp_conn_priv_build buf auth_len kind =
    (let p = put_u8 URP_CONN_PRIV_MAGIC0 buf (unat auth_len);
         p = put_u8 URP_CONN_PRIV_MAGIC1 p (unat auth_len + 1);
         p = put_u8 kind p (unat auth_len + 2)
     in (p, auth_len + URP_CONN_PRIV_TRAILER_LEN))"

definition urp_conn_priv_build_qp :: "bytes \<Rightarrow> u8 \<Rightarrow> u8 \<Rightarrow> u8 \<Rightarrow> bytes \<times> u8" where
  "urp_conn_priv_build_qp buf auth_len kind qp_index =
    (let p = put_u8 URP_CONN_PRIV_MAGIC0 buf (unat auth_len);
         p = put_u8 URP_CONN_PRIV_MAGIC1 p (unat auth_len + 1);
         p = put_u8 kind p (unat auth_len + 2);
         p = put_u8 qp_index p (unat auth_len + 3)
     in (p, auth_len + URP_CONN_PRIV_QP_TRAILER_LEN))"

definition urp_conn_priv_build_full :: "bytes \<Rightarrow> u8 \<Rightarrow> u8 \<Rightarrow> u8 \<Rightarrow> u8 \<Rightarrow> bytes \<times> u8" where
  "urp_conn_priv_build_full buf auth_len kind qp_index caps =
    (let p = put_u8 URP_CONN_PRIV_MAGIC0 buf (unat auth_len);
         p = put_u8 URP_CONN_PRIV_MAGIC1 p (unat auth_len + 1);
         p = put_u8 kind p (unat auth_len + 2);
         p = put_u8 qp_index p (unat auth_len + 3);
         p = put_u8 caps p (unat auth_len + 4)
     in (p, auth_len + URP_CONN_PRIV_CAP_TRAILER_LEN))"

definition urp_conn_priv_peer_kind :: "bytes option \<Rightarrow> u8 \<Rightarrow> u8 \<Rightarrow> u8 option" where
  "urp_conn_priv_peer_kind priv priv_len auth_len =
    (case priv of None \<Rightarrow> None
     | Some p \<Rightarrow>
        if priv_len < auth_len + URP_CONN_PRIV_TRAILER_LEN then None
        else if get_u8 p (unat auth_len) \<noteq> URP_CONN_PRIV_MAGIC0 \<or>
                get_u8 p (unat auth_len + 1) \<noteq> URP_CONN_PRIV_MAGIC1 then None
        else Some (get_u8 p (unat auth_len + 2)))"

definition urp_conn_priv_peer_qp_index :: "bytes option \<Rightarrow> u8 \<Rightarrow> u8 \<Rightarrow> u8 option" where
  "urp_conn_priv_peer_qp_index priv priv_len auth_len =
    (case priv of None \<Rightarrow> None
     | Some p \<Rightarrow>
        if priv_len < auth_len + URP_CONN_PRIV_QP_TRAILER_LEN then None
        else if get_u8 p (unat auth_len) \<noteq> URP_CONN_PRIV_MAGIC0 \<or>
                get_u8 p (unat auth_len + 1) \<noteq> URP_CONN_PRIV_MAGIC1 then None
        else Some (get_u8 p (unat auth_len + 3)))"

definition urp_conn_priv_peer_caps :: "bytes option \<Rightarrow> u8 \<Rightarrow> u8 \<Rightarrow> u8 option" where
  "urp_conn_priv_peer_caps priv priv_len auth_len =
    (case priv of None \<Rightarrow> None
     | Some p \<Rightarrow>
        if priv_len < auth_len + URP_CONN_PRIV_CAP_TRAILER_LEN then None
        else if get_u8 p (unat auth_len) \<noteq> URP_CONN_PRIV_MAGIC0 \<or>
                get_u8 p (unat auth_len + 1) \<noteq> URP_CONN_PRIV_MAGIC1 then None
        else Some (get_u8 p (unat auth_len + 4)))"

section \<open>Codec lemmas\<close>

definition frame_header :: "u32 \<Rightarrow> u64 \<Rightarrow> u8 \<Rightarrow> u8 \<Rightarrow> u16 \<Rightarrow> u32 \<Rightarrow> bytes" where
  "frame_header sid seq ty fl cr pl =
    le_bytes 4 sid @ le_bytes 8 seq @ [ty] @ [fl] @ le_bytes 2 cr @ le_bytes 4 pl"

lemma length_frame_header [simp]: "length (frame_header sid seq ty fl cr pl) = 20"
  by (simp add: frame_header_def)

lemma urp_frame_encode_layout:
  assumes "20 \<le> length buf"
  shows "urp_frame_encode buf sid seq ty fl cr pl = write_at buf 0 (frame_header sid seq ty fl cr pl)"
proof -
  let ?a = "le_bytes 4 sid" and ?b = "le_bytes 8 seq" and ?c = "le_bytes 2 cr"
  have "urp_frame_encode buf sid seq ty fl cr pl =
    write_at (write_at (write_at (write_at (write_at (write_at buf 0 ?a) 4 ?b) 12 [ty]) 13 [fl]) 14 ?c)
      16 (le_bytes 4 pl)"
    by (simp only: urp_frame_encode_def Let_def field_puts)
  then show ?thesis
    using assms write_at_append[of 0 ?a ?b buf] write_at_append[of 0 "?a @ ?b" "[ty]" buf]
      write_at_append[of 0 "?a @ ?b @ [ty]" "[fl]" buf]
      write_at_append[of 0 "?a @ ?b @ [ty] @ [fl]" ?c buf]
      write_at_append[of 0 "?a @ ?b @ [ty] @ [fl] @ ?c" "le_bytes 4 pl" buf]
    by (simp add: frame_header_def)
qed

lemma length_urp_frame_encode [simp]:
  "20 \<le> length buf \<Longrightarrow> length (urp_frame_encode buf sid seq ty fl cr pl) = length buf"
  by (simp add: urp_frame_encode_layout)

lemma urp_frame_encode_frame:
  "20 \<le> length buf \<Longrightarrow> drop 20 (urp_frame_encode buf sid seq ty fl cr pl) = drop 20 buf"
  by (simp add: urp_frame_encode_layout write_at_def)

lemma urp_frame_decode_encode:
  assumes "20 \<le> length buf"
  shows "urp_frame_decode_stream_id (urp_frame_encode buf sid seq ty fl cr pl) = sid"
    and "urp_frame_decode_seq (urp_frame_encode buf sid seq ty fl cr pl) = seq"
    and "urp_frame_decode_type (urp_frame_encode buf sid seq ty fl cr pl) = ty"
    and "urp_frame_decode_flags (urp_frame_encode buf sid seq ty fl cr pl) = fl"
    and "urp_frame_decode_credits (urp_frame_encode buf sid seq ty fl cr pl) = cr"
    and "urp_frame_decode_payload_len (urp_frame_encode buf sid seq ty fl cr pl) = pl"
  using assms
  by (simp_all add: urp_frame_encode_def frame_decode_defs Let_def le_simps del: le_bytes_numeral)

lemma header_fields_concat:
  assumes "20 \<le> length buf"
  shows "take 4 buf @ take 8 (drop 4 buf) @ [buf ! 12] @ [buf ! 13]
      @ take 2 (drop 14 buf) @ take 4 (drop 16 buf) @ drop 20 buf = buf"
proof -
  have "take 4 (drop 16 buf) @ drop 20 buf = drop 16 buf"
    using append_take_drop_id[of 4 "drop 16 buf"] by simp
  moreover have "take 2 (drop 14 buf) @ drop 16 buf = drop 14 buf"
    using append_take_drop_id[of 2 "drop 14 buf"] by simp
  moreover have "[buf ! 12] @ [buf ! 13] @ drop 14 buf = drop 12 buf"
    using assms Cons_nth_drop_Suc[of 12 buf] Cons_nth_drop_Suc[of 13 buf] by simp
  moreover have "take 8 (drop 4 buf) @ drop 12 buf = drop 4 buf"
    using append_take_drop_id[of 8 "drop 4 buf"] by simp
  ultimately show ?thesis by simp
qed

lemma urp_frame_encode_decode:
  assumes "20 \<le> length buf"
  shows "urp_frame_encode buf (urp_frame_decode_stream_id buf) (urp_frame_decode_seq buf)
    (urp_frame_decode_type buf) (urp_frame_decode_flags buf) (urp_frame_decode_credits buf)
    (urp_frame_decode_payload_len buf) = buf"
proof -
  have "le_bytes 4 (le_word (take 4 buf) :: u32) = take 4 buf"
    "le_bytes 8 (le_word (take 8 (drop 4 buf)) :: u64) = take 8 (drop 4 buf)"
    "le_bytes 2 (le_word (take 2 (drop 14 buf)) :: u16) = take 2 (drop 14 buf)"
    "le_bytes 4 (le_word (take 4 (drop 16 buf)) :: u32) = take 4 (drop 16 buf)"
    using le_bytes_le_word[of "take 4 buf", where 'a = 32]
      le_bytes_le_word[of "take 8 (drop 4 buf)", where 'a = 64]
      le_bytes_le_word[of "take 2 (drop 14 buf)", where 'a = 16]
      le_bytes_le_word[of "take 4 (drop 16 buf)", where 'a = 32] assms by simp_all
  then show ?thesis
    using header_fields_concat[OF assms] assms
    by (simp add: urp_frame_encode_layout write_at_def frame_header_def frame_decode_defs
        get_unaligned_le32_def get_unaligned_le64_def get_unaligned_le16_def get_u8_def)
qed

lemma urp_ping_decode_encode:
  assumes "32 \<le> length buf"
  shows "urp_ping_decode_seq (urp_ping_encode buf ps qi tm tr) = ps"
    and "urp_ping_decode_qp_index (urp_ping_encode buf ps qi tm tr) = qi"
    and "urp_ping_decode_t_send_mono (urp_ping_encode buf ps qi tm tr) = tm"
    and "urp_ping_decode_t_send_real (urp_ping_encode buf ps qi tm tr) = tr"
  using assms
  by (simp_all add: urp_ping_encode_def ping_decode_defs Let_def field_simps)

lemma length_urp_ping_encode [simp]:
  "32 \<le> length buf \<Longrightarrow> length (urp_ping_encode buf ps qi tm tr) = length buf"
  by (simp add: urp_ping_encode_def Let_def field_puts)

lemma length_urp_pong_encode [simp]:
  "48 \<le> length buf \<Longrightarrow> 24 \<le> length ping \<Longrightarrow>
    length (urp_pong_encode buf ping a b c) = length buf"
  by (simp add: urp_pong_encode_def Let_def field_puts)

lemma take_urp_pong_encode:
  assumes "48 \<le> length buf" "24 \<le> length ping"
  shows "take 24 (urp_pong_encode buf ping a b c) = take 24 ping"
  using assms by (simp add: urp_pong_encode_def Let_def field_puts take_write_at_other)
    (simp add: write_at_def)

lemma urp_pong_echoes_ping:
  assumes "48 \<le> length buf" "24 \<le> length ping"
  shows "urp_ping_decode_seq (urp_pong_encode buf ping a b c) = urp_ping_decode_seq ping"
    and "urp_ping_decode_qp_index (urp_pong_encode buf ping a b c) = urp_ping_decode_qp_index ping"
    and "urp_ping_decode_t_send_mono (urp_pong_encode buf ping a b c)
      = urp_ping_decode_t_send_mono ping"
    and "urp_pong_decode_t_pong_mono (urp_pong_encode buf ping a b c) = b"
proof -
  let ?q = "urp_pong_encode buf ping a b c"
  have take_in: "take w (drop i p) = take w (drop i (take 24 p))" if "i + w \<le> 24" for w i and p :: bytes
    using that by (simp add: drop_take min_def)
  have eq: "take w (drop i ?q) = take w (drop i ping)" if "i + w \<le> 24" for w i
    using take_in[OF that, of ?q] take_in[OF that, of ping] take_urp_pong_encode[OF assms, of a b c]
    by simp
  show "urp_ping_decode_seq ?q = urp_ping_decode_seq ping"
    "urp_ping_decode_qp_index ?q = urp_ping_decode_qp_index ping"
    "urp_ping_decode_t_send_mono ?q = urp_ping_decode_t_send_mono ping"
    using eq[of 0 4] eq[of 4 2] eq[of 8 8]
    by (simp_all add: ping_decode_defs get_unaligned_le32_def get_unaligned_le16_def
        get_unaligned_le64_def)
  show "urp_pong_decode_t_pong_mono ?q = b"
    using assms by (simp add: urp_pong_encode_def urp_pong_decode_t_pong_mono_def Let_def field_simps)
qed

section \<open>The chunked layout is a flat buffer\<close>

lemma scatter_step_arith:
  assumes "off < chunk_size" "copied < (len :: u32)"
  defines "n \<equiv> (if chunk_size - off < len - copied then chunk_size - off else len - copied)"
  shows "unat n = min (unat chunk_size - unat off) (unat len - unat copied)"
    "unat (copied + n) = unat copied + unat n" "copied + n \<le> len"
proof -
  show n: "unat n = min (unat chunk_size - unat off) (unat len - unat copied)"
    unfolding n_def min_word_unat using assms(1,2)
    by (simp add: unat_sub word_le_nat_alt word_less_nat_alt)
  have "unat copied + unat n < 2 ^ LENGTH(32)"
    using n assms(2) unat_bound[of len] by (simp add: word_less_nat_alt)
  then show add: "unat (copied + n) = unat copied + unat n"
    by (rule unat_add_lem[THEN iffD1])
  show "copied + n \<le> len"
    using n assms(2) by (simp add: word_le_nat_alt word_less_nat_alt add)
qed

lemma scatter_loop_flat:
  assumes "\<forall>c\<in>set cs. length c = unat chunk_size" "0 < chunk_size" "cs \<noteq> [] \<longrightarrow> off < chunk_size"
    "copied \<le> len" "unat len \<le> length src"
    "scatter_loop chunk_size cs src len copied off = (cs', tot)"
  shows "unat tot = min (unat len) (unat copied + (length (concat cs) - unat off)) \<and>
    map length cs' = map length cs \<and>
    concat cs' = (if cs = [] then [] else write_at (concat cs) (unat off)
      (take (unat tot - unat copied) (drop (unat copied) src)))"
  using assms
proof (induction cs arbitrary: copied off cs' tot)
  case Nil
  then show ?case by (auto simp: min_def word_le_nat_alt)
next
  case (Cons c cs)
  show ?case
  proof (cases "copied < len")
    case False
    with Cons.prems(4,6) show ?thesis by (auto simp: min_def word_le_nat_alt not_less)
  next
    case True
    define n where "n = (if chunk_size - off < len - copied then chunk_size - off else len - copied)"
    have off: "off < chunk_size" using Cons.prems by simp
    note n = scatter_step_arith[OF off True, folded n_def]
    obtain cs1 where cs1: "scatter_loop chunk_size cs src len (copied + n) 0 = (cs1, tot)"
      and cs': "cs' = write_at c (unat off) (take (unat n) (drop (unat copied) src)) # cs1"
      using Cons.prems(6) True by (auto simp: Let_def n_def[symmetric] split: prod.splits)
    have IH: "unat tot = min (unat len) (unat (copied + n) + length (concat cs))"
      "map length cs1 = map length cs"
      "concat cs1 = (if cs = [] then [] else write_at (concat cs) 0
        (take (unat tot - unat (copied + n)) (drop (unat (copied + n)) src)))"
      using Cons.IH[OF _ Cons.prems(2) _ n(3) Cons.prems(5) cs1] Cons.prems(1,2) by auto
    have c: "length c = unat chunk_size" using Cons.prems(1) by simp
    have off': "unat off < unat chunk_size" "unat copied < unat len"
      using off True by (simp_all add: word_less_nat_alt)
    have tot: "unat tot = min (unat len) (unat copied + (length (concat (c # cs)) - unat off))"
      using IH(1) n(1,2) c off' by (auto simp: min_def)
    have nle: "unat n \<le> unat tot - unat copied" using tot n(1) c off' by (auto simp: min_def)
    have split: "take (unat tot - unat copied) (drop (unat copied) src) =
      take (unat n) (drop (unat copied) src) @
      take (unat tot - unat (copied + n)) (drop (unat (copied + n)) src)"
      using take_add[of "unat n" "unat tot - unat copied - unat n" "drop (unat copied) src"]
        le_add_diff_inverse[OF nle] by (simp add: n(2) ac_simps)
    have len1: "length (take (unat n) (drop (unat copied) src)) = unat n"
      using n(1) Cons.prems(5) off' by simp
    have "concat cs' = write_at (concat (c # cs)) (unat off)
        (take (unat tot - unat copied) (drop (unat copied) src))"
    proof (cases "unat off + unat n = unat chunk_size \<and> cs \<noteq> []")
      case True
      moreover have "length (take (unat tot - unat (copied + n)) (drop (unat (copied + n)) src))
          \<le> length (concat cs)" using IH(1) by simp
      ultimately show ?thesis unfolding split cs' concat.simps
        using IH(3) c len1 by (simp only: if_False write_at_concat_split)
    next
      case other: False
      have "unat tot \<le> unat (copied + n)"
      proof (cases "cs = []")
        case False
        then have "unat off + unat n \<noteq> unat chunk_size" using other by simp
        then have "unat n = unat len - unat copied" using n(1) off' by (simp add: min_def split: if_splits)
        then show ?thesis using IH(1) n(2) off' by simp
      qed (simp add: IH(1))
      then have nil: "take (unat tot - unat (copied + n)) (drop (unat (copied + n)) src) = []"
        by simp
      moreover have "concat cs1 = concat cs"
        unfolding IH(3) nil by simp
      moreover have "unat off + unat n \<le> length c" using n(1) c off' by simp
      ultimately show ?thesis unfolding split cs' concat.simps
        using len1 by (simp only: append_Nil2 write_at_concat_head)
    qed
    moreover have "map length cs' = map length (c # cs)"
    proof -
      have "unat off + length (take (unat n) (drop (unat copied) src)) \<le> length c"
        unfolding len1 c using n(1) off' by simp
      then show ?thesis unfolding cs' list.map(2) IH(2) by (simp only: length_write_at)
    qed
    ultimately show ?thesis using tot by simp
  qed
qed

lemma gather_loop_flat:
  assumes "\<forall>c\<in>set cs. length c = unat chunk_size" "0 < chunk_size" "cs \<noteq> [] \<longrightarrow> off < chunk_size"
    "copied \<le> len" "unat len \<le> length dst"
    "gather_loop chunk_size cs dst len copied off = (dst', tot)"
  shows "unat tot = min (unat len) (unat copied + (length (concat cs) - unat off)) \<and>
    dst' = write_at dst (unat copied) (take (unat tot - unat copied) (drop (unat off) (concat cs)))"
  using assms
proof (induction cs arbitrary: copied off dst dst' tot)
  case Nil
  then show ?case by (auto simp: min_def word_le_nat_alt)
next
  case (Cons c cs)
  show ?case
  proof (cases "copied < len")
    case False
    with Cons.prems(4,6) show ?thesis by (auto simp: min_def word_le_nat_alt not_less)
  next
    case True
    define n where "n = (if chunk_size - off < len - copied then chunk_size - off else len - copied)"
    have off: "off < chunk_size" using Cons.prems by simp
    note n = scatter_step_arith[OF off True, folded n_def]
    let ?d = "write_at dst (unat copied) (take (unat n) (drop (unat off) c))"
    have g: "gather_loop chunk_size cs ?d len (copied + n) 0 = (dst', tot)"
      using Cons.prems(6) True by (simp add: Let_def n_def[symmetric])
    have c: "length c = unat chunk_size" using Cons.prems(1) by simp
    have off': "unat off < unat chunk_size" "unat copied < unat len"
      using off True by (simp_all add: word_less_nat_alt)
    have len1: "length (take (unat n) (drop (unat off) c)) = unat n" using c n(1) by simp
    have cn: "unat copied + unat n \<le> unat len" using n(2,3) by (simp add: word_le_nat_alt)
    then have d: "unat len \<le> length ?d"
      using len1 Cons.prems(5) by (subst length_write_at) auto
    have IH: "unat tot = min (unat len) (unat (copied + n) + length (concat cs))"
      "dst' = write_at ?d (unat (copied + n)) (take (unat tot - unat (copied + n)) (concat cs))"
      using Cons.IH[OF _ Cons.prems(2) _ n(3) d g] Cons.prems(1,2) by auto
    have tot: "unat tot = min (unat len) (unat copied + (length (concat (c # cs)) - unat off))"
      using IH(1) n(1,2) c off' by (auto simp: min_def)
    have bytes: "take (unat tot - unat copied) (drop (unat off) (concat (c # cs))) =
      take (unat n) (drop (unat off) c) @ take (unat tot - unat (copied + n)) (concat cs)"
    proof (cases "unat off + unat n = unat chunk_size")
      case True
      have "unat n \<le> unat tot - unat copied" using tot n(1) c off' by (auto simp: min_def)
      then obtain m where "unat tot - unat copied = unat n + m" "unat tot - unat (copied + n) = m"
        using n(2) le_add_diff_inverse by (metis diff_diff_left)
      moreover have "length (drop (unat off) c) = unat n" using True c by simp
      ultimately show ?thesis using c off' by simp
    next
      case False
      then have "unat tot = unat copied + unat n" using IH(1) n off' by auto
      then show ?thesis using c off' n by simp
    qed
    have "dst' = write_at dst (unat copied) (take (unat tot - unat copied) (drop (unat off) (concat (c # cs))))"
      unfolding IH(2) bytes n(2)
      using write_at_append[of "unat copied" "take (unat n) (drop (unat off) c)"
          "take (unat tot - unat (copied + n)) (concat cs)" dst] len1 Cons.prems(5) IH(1) n(2) cn
      by simp
    with tot show ?thesis by simp
  qed
qed

lemma urp_scatter_flat:
  assumes "chunks \<noteq> []" "\<forall>c\<in>set chunks. length c = unat chunk_size" "20 < unat chunk_size"
    "unat len \<le> length src"
  shows "concat (fst (urp_scatter_payload chunks chunk_size src len)) =
      write_at (concat chunks) 20 (take (unat (snd (urp_scatter_payload chunks chunk_size src len))) src)"
    and "unat (snd (urp_scatter_payload chunks chunk_size src len)) =
      min (unat len) (length (concat chunks) - 20)"
    and "map length (fst (urp_scatter_payload chunks chunk_size src len)) = map length chunks"
proof -
  obtain cs tot where eq: "urp_scatter_payload chunks chunk_size src len = (cs, tot)"
    by fastforce
  have "0 < chunk_size" "(20 :: u32) < chunk_size" "(0 :: u32) \<le> len"
    using assms(3) by (simp_all add: word_less_nat_alt)
  then show "concat (fst (urp_scatter_payload chunks chunk_size src len)) =
      write_at (concat chunks) 20 (take (unat (snd (urp_scatter_payload chunks chunk_size src len))) src)"
    "unat (snd (urp_scatter_payload chunks chunk_size src len)) =
      min (unat len) (length (concat chunks) - 20)"
    "map length (fst (urp_scatter_payload chunks chunk_size src len)) = map length chunks"
    using scatter_loop_flat[OF assms(2) _ _ _ assms(4), of 20 0 cs tot] eq assms(1)
    by (simp_all add: urp_scatter_payload_def frame_consts)
qed

lemma urp_gather_flat:
  assumes "\<forall>c\<in>set chunks. length c = unat chunk_size" "20 < unat chunk_size"
    "unat len \<le> length dst"
  shows "fst (urp_gather_payload chunks chunk_size dst len) =
      write_at dst 0 (take (unat (snd (urp_gather_payload chunks chunk_size dst len)))
        (drop 20 (concat chunks)))"
    and "unat (snd (urp_gather_payload chunks chunk_size dst len)) =
      min (unat len) (length (concat chunks) - 20)"
proof -
  obtain d tot where eq: "urp_gather_payload chunks chunk_size dst len = (d, tot)"
    by fastforce
  have "0 < chunk_size" "(20 :: u32) < chunk_size" "(0 :: u32) \<le> len"
    using assms(2) by (simp_all add: word_less_nat_alt)
  then show "fst (urp_gather_payload chunks chunk_size dst len) =
      write_at dst 0 (take (unat (snd (urp_gather_payload chunks chunk_size dst len)))
        (drop 20 (concat chunks)))"
    "unat (snd (urp_gather_payload chunks chunk_size dst len)) =
      min (unat len) (length (concat chunks) - 20)"
    using gather_loop_flat[OF assms(1) _ _ _ assms(3), of 20 0 d tot] eq
    by (simp_all add: urp_gather_payload_def frame_consts)
qed

section \<open>Classifier lemmas\<close>

lemma urp_classify_cases:
  assumes "urp_classify_frame byte_len hdr = (act, out)"
    and "act \<noteq> URP_RX_DROP_SHORT" "act \<noteq> URP_RX_DROP_OVERSIZE"
      "act \<noteq> URP_RX_DROP_PAYLOAD_OVERRUN"
  shows "20 + unat (rd_payload_len out) \<le> unat byte_len"
    and "unat (rd_payload_len out) \<le> 1048556"
    and "act \<in> {URP_RX_PROBE_PING, URP_RX_PROBE_PONG} \<Longrightarrow> 52 \<le> unat byte_len"
    and "act = URP_RX_DELIVER_STREAM \<Longrightarrow> rd_stream_id out \<noteq> 0"
    and "act = URP_RX_DELIVER_LEGACY \<Longrightarrow> rd_stream_id out = 0"
proof -
  have c: "\<not> byte_len < 20" "\<not> 1048556 < rd_payload_len out"
    "\<not> byte_len - 20 < rd_payload_len out"
    using assms by (auto simp: urp_classify_frame_def frame_consts Let_def split: if_splits)
  then show "20 + unat (rd_payload_len out) \<le> unat byte_len"
    "unat (rd_payload_len out) \<le> 1048556"
    by (simp_all add: word_less_nat_alt unat_sub not_less word_le_nat_alt)
  show "52 \<le> unat byte_len" if "act \<in> {URP_RX_PROBE_PING, URP_RX_PROBE_PONG}"
    using assms that
    by (auto simp: urp_classify_frame_def frame_consts Let_def word_less_nat_alt not_less
        split: if_splits)
  show "act = URP_RX_DELIVER_STREAM \<Longrightarrow> rd_stream_id out \<noteq> 0"
    "act = URP_RX_DELIVER_LEGACY \<Longrightarrow> rd_stream_id out = 0"
    using assms by (auto simp: urp_classify_frame_def Let_def split: if_splits)
qed

lemma urp_classify_decodes:
  assumes "urp_classify_frame byte_len hdr = (act, out)" "act \<noteq> URP_RX_DROP_SHORT"
  shows "rd_payload_len out = urp_frame_decode_payload_len hdr"
    "rd_stream_id out = urp_frame_decode_stream_id hdr"
    "rd_credits out = urp_frame_decode_credits hdr"
    "rd_type out = urp_frame_decode_type hdr"
    "rd_flags out = urp_frame_decode_flags hdr"
  using assms by (auto simp: urp_classify_frame_def Let_def split: if_splits)

lemma urp_classify_encoded_data:
  assumes "20 \<le> length buf" "sid \<noteq> 0" "unat pl \<le> 1048556" "20 + unat pl \<le> unat byte_len"
  shows "urp_classify_frame byte_len (urp_frame_encode buf sid seq URP_FRAME_TYPE_DATA fl cr pl) =
    (URP_RX_DELIVER_STREAM,
     \<lparr> rd_payload_len = pl, rd_stream_id = sid, rd_credits = cr, rd_type = 0, rd_flags = fl \<rparr>)"
proof -
  have "\<not> byte_len < 20" "\<not> 1048556 < pl" using assms(3,4)
    by (auto simp: word_less_nat_alt)
  moreover from this have "\<not> byte_len - 20 < pl"
    using assms(4) by (simp add: word_less_nat_alt unat_sub word_le_nat_alt not_less)
  ultimately show ?thesis
    using assms(1,2) by (simp add: urp_classify_frame_def urp_frame_decode_encode frame_consts)
qed

section \<open>Private-data trailer lemmas\<close>

lemma unat_u8_add:
  "unat a + unat b < 256 \<Longrightarrow> unat (a + b :: u8) = unat a + unat b"
  using unat_add_lem[of a b] by simp

lemma urp_conn_priv_full_read:
  assumes "unat auth_len + 5 \<le> length buf" "unat auth_len \<le> 250"
    "urp_conn_priv_build_full buf auth_len kind qp_index caps = (p, n)"
  shows "urp_conn_priv_peer_kind (Some p) n auth_len = Some kind"
    "urp_conn_priv_peer_qp_index (Some p) n auth_len = Some qp_index"
    "urp_conn_priv_peer_caps (Some p) n auth_len = Some caps"
    "take (unat auth_len) p = take (unat auth_len) buf" "unat n = unat auth_len + 5"
proof -
  have n: "\<not> n < auth_len + 3" "\<not> n < auth_len + 4" "\<not> n < auth_len + 5"
    using assms(2,3)
    by (auto simp: urp_conn_priv_build_full_def Let_def priv_consts word_less_nat_alt unat_u8_add)
  show "unat n = unat auth_len + 5"
    using assms(2,3) by (auto simp: urp_conn_priv_build_full_def Let_def priv_consts unat_u8_add)
  have p: "p = write_at (write_at (write_at (write_at (write_at buf (unat auth_len) [0x55])
      (unat auth_len + 1) [0x52]) (unat auth_len + 2) [kind]) (unat auth_len + 3) [qp_index])
      (unat auth_len + 4) [caps]"
    using assms(3) by (simp add: urp_conn_priv_build_full_def Let_def field_puts priv_consts)
  show "urp_conn_priv_peer_kind (Some p) n auth_len = Some kind"
    "urp_conn_priv_peer_qp_index (Some p) n auth_len = Some qp_index"
    "urp_conn_priv_peer_caps (Some p) n auth_len = Some caps"
    using n assms(1)
    by (simp_all add: p urp_conn_priv_peer_kind_def urp_conn_priv_peer_qp_index_def
        urp_conn_priv_peer_caps_def priv_consts get_u8_def nth_write_at)
  show "take (unat auth_len) p = take (unat auth_len) buf"
    using assms(1) by (simp add: p take_write_at_other)
qed

lemma urp_conn_priv_short_read:
  assumes "unat auth_len + 3 \<le> length buf" "unat auth_len \<le> 250"
    "urp_conn_priv_build buf auth_len kind = (p, n)"
  shows "urp_conn_priv_peer_kind (Some p) n auth_len = Some kind"
    "urp_conn_priv_peer_qp_index (Some p) n auth_len = None"
    "urp_conn_priv_peer_caps (Some p) n auth_len = None"
proof -
  have n: "\<not> n < auth_len + 3" "n < auth_len + 4" "n < auth_len + 5"
    using assms(2,3)
    by (auto simp: urp_conn_priv_build_def Let_def priv_consts word_less_nat_alt unat_u8_add)
  have p: "p = write_at (write_at (write_at buf (unat auth_len) [0x55])
      (unat auth_len + 1) [0x52]) (unat auth_len + 2) [kind]"
    using assms(3) by (simp add: urp_conn_priv_build_def Let_def field_puts priv_consts)
  show "urp_conn_priv_peer_kind (Some p) n auth_len = Some kind"
    "urp_conn_priv_peer_qp_index (Some p) n auth_len = None"
    "urp_conn_priv_peer_caps (Some p) n auth_len = None"
    using n assms(1)
    by (simp_all add: p urp_conn_priv_peer_kind_def urp_conn_priv_peer_qp_index_def
        urp_conn_priv_peer_caps_def priv_consts get_u8_def nth_write_at)
qed

lemma urp_conn_priv_reads_in_bounds:
  assumes "unat auth_len \<le> 250"
  shows "unat n < unat auth_len + 3 \<Longrightarrow> urp_conn_priv_peer_kind p n auth_len = None"
    "unat n < unat auth_len + 4 \<Longrightarrow> urp_conn_priv_peer_qp_index p n auth_len = None"
    "unat n < unat auth_len + 5 \<Longrightarrow> urp_conn_priv_peer_caps p n auth_len = None"
  using assms
  by (auto simp: urp_conn_priv_peer_kind_def urp_conn_priv_peer_qp_index_def urp_conn_priv_peer_caps_def
      priv_consts word_less_nat_alt unat_u8_add split: option.split)

section \<open>Properties\<close>

text \<open>C4: The frame header codec is a bijection on the first 20 bytes of any buffer:
  decoding what was encoded returns every field, encoding leaves the bytes after the header
  alone, and re-encoding the decoded fields of any buffer gives that buffer back.\<close>

theorem frame_codec_bijective:
  assumes "20 \<le> length buf"
  shows "urp_frame_decode_stream_id (urp_frame_encode buf sid seq ty fl cr pl) = sid \<and>
    urp_frame_decode_seq (urp_frame_encode buf sid seq ty fl cr pl) = seq \<and>
    urp_frame_decode_type (urp_frame_encode buf sid seq ty fl cr pl) = ty \<and>
    urp_frame_decode_flags (urp_frame_encode buf sid seq ty fl cr pl) = fl \<and>
    urp_frame_decode_credits (urp_frame_encode buf sid seq ty fl cr pl) = cr \<and>
    urp_frame_decode_payload_len (urp_frame_encode buf sid seq ty fl cr pl) = pl \<and>
    drop 20 (urp_frame_encode buf sid seq ty fl cr pl) = drop 20 buf \<and>
    urp_frame_encode buf (urp_frame_decode_stream_id buf) (urp_frame_decode_seq buf)
      (urp_frame_decode_type buf) (urp_frame_decode_flags buf) (urp_frame_decode_credits buf)
      (urp_frame_decode_payload_len buf) = buf"
  using urp_frame_decode_encode[OF assms] urp_frame_encode_frame[OF assms]
    urp_frame_encode_decode[OF assms] by simp

theorem frame_codec_bijective_witness:
  "20 \<le> length (replicate 24 (7 :: u8)) \<and>
   urp_frame_decode_seq (urp_frame_encode (replicate 24 7) 5 0x123456789A 0 1 0 4) = 0x123456789A"
  using frame_codec_bijective[of "replicate 24 7" 5 "0x123456789A" 0 1 0 4] by simp

text \<open>C5: The receive classifier never lets a frame through whose declared payload exceeds
  what was received or the largest payload: every action that is not one of the three length
  drops has the header and the payload inside the received bytes, a probe has a whole ping
  payload, a stream delivery has a nonzero stream id, and the decoded fields are the header's.\<close>

theorem classify_never_overreads:
  assumes "urp_classify_frame byte_len hdr = (act, out)"
    and "act \<notin> {URP_RX_DROP_SHORT, URP_RX_DROP_OVERSIZE, URP_RX_DROP_PAYLOAD_OVERRUN}"
  shows "20 + unat (rd_payload_len out) \<le> unat byte_len \<and>
    rd_payload_len out \<le> URP_MAX_PAYLOAD \<and>
    (act \<in> {URP_RX_PROBE_PING, URP_RX_PROBE_PONG} \<longrightarrow> 20 + 32 \<le> unat byte_len) \<and>
    (act = URP_RX_DELIVER_STREAM \<longrightarrow> rd_stream_id out \<noteq> 0) \<and>
    rd_payload_len out = urp_frame_decode_payload_len hdr \<and>
    rd_stream_id out = urp_frame_decode_stream_id hdr"
  using urp_classify_cases[OF assms(1)] urp_classify_decodes[OF assms(1)] assms(2)
  by (auto simp: frame_consts word_le_nat_alt)

theorem classify_never_overreads_witness:
  "urp_classify_frame 30 (urp_frame_encode (replicate 20 0) 3 0 0 1 0 10) =
     (URP_RX_DELIVER_STREAM, \<lparr> rd_payload_len = 10, rd_stream_id = 3, rd_credits = 0,
        rd_type = 0, rd_flags = 1 \<rparr>) \<and> 20 + unat (10 :: u32) \<le> unat (30 :: u32)"
proof -
  have "urp_classify_frame 30 (urp_frame_encode (replicate 20 0) 3 0 0 1 0 10) =
     (URP_RX_DELIVER_STREAM, \<lparr> rd_payload_len = 10, rd_stream_id = 3, rd_credits = 0,
        rd_type = 0, rd_flags = 1 \<rparr>)" by code_simp
  from this classify_never_overreads[OF this] show ?thesis by simp
qed

text \<open>C6: A frame scattered over separate chunks is the flat frame: scattering a payload writes
  the concatenation of the chunks exactly as one copy at offset 20 would (the header bytes are
  untouched), gathering reads what one copy from offset 20 would, both report the smaller of the
  length and the capacity, and gathering a scattered payload returns it.\<close>

theorem chunked_frame_is_flat:
  assumes "chunks \<noteq> []" "\<forall>c\<in>set chunks. length c = unat chunk_size" "20 < unat chunk_size"
    and "unat len \<le> length src" "unat len \<le> length dst"
    and "urp_scatter_payload chunks chunk_size src len = (chunks', n)"
    and "urp_gather_payload chunks' chunk_size dst len = (dst', n')"
  shows "concat chunks' = write_at (concat chunks) 20 (take (unat n) src) \<and>
    unat n = min (unat len) (length (concat chunks) - 20) \<and>
    n' = n \<and> dst' = write_at dst 0 (take (unat n) src)"
proof -
  note sc = urp_scatter_flat[OF assms(1-4), unfolded assms(6), simplified]
  have len': "\<forall>c\<in>set chunks'. length c = unat chunk_size"
    using sc(3) assms(2) by (metis (no_types, lifting) image_eqI image_iff set_map)
  note ga = urp_gather_flat[OF len' assms(3,5), unfolded assms(7), simplified]
  have eq: "length (concat chunks') = length (concat chunks)"
    using sc(3) by (simp add: length_concat)
  have n': "n' = n" using ga(2) sc(2) eq by (simp add: length_concat word_unat_eq_iff)
  have cap: "20 \<le> length (concat chunks)"
    using assms(1-3) by (cases chunks) auto
  have ln: "length (take (unat n) src) = unat n" using sc(2) assms(4) by (simp add: length_concat)
  have "take (unat n) (drop 20 (concat chunks')) = take (unat n) src"
    using take_drop_write_at[of 20 "take (unat n) src" "concat chunks"] sc(1,2) cap ln
    by (simp add: length_concat)
  then show ?thesis using sc ga(1) n' by (simp add: length_concat)
qed

theorem chunked_frame_is_flat_witness:
  "urp_scatter_payload [replicate 25 0, replicate 25 0] 25 [1, 2, 3, 4, 5, 6, 7, 8, 9] 9 =
     ([replicate 20 0 @ [1, 2, 3, 4, 5], [6, 7, 8, 9] @ replicate 21 0], 9) \<and>
   [1, 2, 3, 4, 5, 6, 7, 8, 9] = write_at (replicate 9 0) 0 (take (unat (9 :: u32))
     [1, 2, 3, 4, 5, 6, 7, 8, 9])"
proof -
  have sc: "urp_scatter_payload [replicate 25 0, replicate 25 0] 25 [1, 2, 3, 4, 5, 6, 7, 8, 9] 9 =
      ([replicate 20 0 @ [1, 2, 3, 4, 5], [6, 7, 8, 9] @ replicate 21 0], 9)"
    by code_simp
  have ga: "urp_gather_payload [replicate 20 0 @ [1, 2, 3, 4, 5], [6, 7, 8, 9] @ replicate 21 0]
      25 (replicate 9 0) 9 = ([1, 2, 3, 4, 5, 6, 7, 8, 9], 9)"
    by code_simp
  from chunked_frame_is_flat[OF _ _ _ _ _ sc ga] sc show ?thesis by simp
qed

text \<open>C7: The private-data trailer interoperates across versions: the full trailer is read by
  the kind, queue-pair and capability readers alike and keeps the authentication prefix, a
  kind-only trailer is read by the kind reader and reports neither queue pair nor capabilities,
  and on any data each of the three readers fails when the byte it wants lies past the received
  length.  All of it for an authentication prefix of at most 250 bytes, beyond which the u8 sums of
  the length checks wrap.\<close>

theorem conn_priv_interop:
  assumes "unat auth_len + 5 \<le> length buf" "unat auth_len \<le> 250"
    and "urp_conn_priv_build_full buf auth_len kind qp_index caps = (p, n)"
    and "urp_conn_priv_build buf auth_len kind = (p3, n3)"
  shows "urp_conn_priv_peer_kind (Some p) n auth_len = Some kind \<and>
    urp_conn_priv_peer_qp_index (Some p) n auth_len = Some qp_index \<and>
    urp_conn_priv_peer_caps (Some p) n auth_len = Some caps \<and>
    take (unat auth_len) p = take (unat auth_len) buf \<and>
    urp_conn_priv_peer_kind (Some p3) n3 auth_len = Some kind \<and>
    urp_conn_priv_peer_qp_index (Some p3) n3 auth_len = None \<and>
    urp_conn_priv_peer_caps (Some p3) n3 auth_len = None \<and>
    (\<forall>q m. (unat m < unat auth_len + 3 \<longrightarrow> urp_conn_priv_peer_kind q m auth_len = None) \<and>
      (unat m < unat auth_len + 4 \<longrightarrow> urp_conn_priv_peer_qp_index q m auth_len = None) \<and>
      (unat m < unat auth_len + 5 \<longrightarrow> urp_conn_priv_peer_caps q m auth_len = None))"
  using urp_conn_priv_full_read[OF assms(1-3)] urp_conn_priv_short_read[OF _ assms(2,4)]
    urp_conn_priv_reads_in_bounds[OF assms(2)] assms(1) by auto

theorem conn_priv_interop_witness:
  "urp_conn_priv_peer_caps (Some [9, 9, 0x55, 0x52, 1, 2, 3]) 7 2 = Some 3 \<and>
   urp_conn_priv_peer_qp_index (Some [9, 9, 0x55, 0x52, 1, 2, 3]) 5 2 = None"
proof -
  have "urp_conn_priv_build_full [9, 9, 0, 0, 0, 0, 0] 2 1 2 3 = ([9, 9, 0x55, 0x52, 1, 2, 3], 7)"
    "urp_conn_priv_build [9, 9, 0, 0, 0, 0, 0] 2 1 = ([9, 9, 0x55, 0x52, 1, 0, 0], 5)"
    by code_simp+
  then show ?thesis using conn_priv_interop[of 2 "[9, 9, 0, 0, 0, 0, 0]" 1 2 3] by simp
qed

end
