(* ===== verification/Urp_Credit.thy ===== *)
theory Urp_Credit
  imports Urp_Prelude
begin

text \<open>
  Frame-count credits (kernel/urp_credit.h, kernel/urp_credit.c,
  kernel/urp_credit_plan.h).  A receiver accumulates one pending grant per
  reposted buffer and returns them in a batch once a quarter of the initial
  budget has built up; the sender consumes one credit per frame, and sends
  without one when it has none.  The second half composes the streams of a sender
  with the queue pairs of its peer and accounts for every credit.
\<close>

section \<open>Credit state and operations\<close>

record urp_credit =
  send_credits :: u16
  credits_to_grant :: u16
  threshold :: u16
  initial_credits :: u16

definition urp_credit_init :: "u16 \<Rightarrow> urp_credit" where
  "urp_credit_init initial =
    \<lparr> send_credits = initial, credits_to_grant = 0, threshold = initial div 4,
      initial_credits = initial \<rparr>"

definition urp_credit_can_send :: "urp_credit \<Rightarrow> bool" where
  "urp_credit_can_send cs = (send_credits cs > 0)"

definition urp_credit_consume :: "urp_credit \<Rightarrow> urp_credit result" where
  "urp_credit_consume cs =
    (if send_credits cs = 0 then Inl EAGAIN
     else Inr (cs\<lparr>send_credits := send_credits cs - 1\<rparr>))"

definition urp_credit_grant :: "urp_credit \<Rightarrow> u16 \<Rightarrow> urp_credit" where
  "urp_credit_grant cs n =
    (let sum = (ucast (send_credits cs) :: u32) + ucast n
     in cs\<lparr>send_credits := (if sum > ucast U16_MAX then U16_MAX else ucast sum)\<rparr>)"

definition urp_credit_record_recv :: "urp_credit \<Rightarrow> urp_credit" where
  "urp_credit_record_recv cs =
    (if credits_to_grant cs < U16_MAX then cs\<lparr>credits_to_grant := credits_to_grant cs + 1\<rparr>
     else cs)"

definition urp_credit_should_grant :: "urp_credit \<Rightarrow> bool" where
  "urp_credit_should_grant cs = (threshold cs = 0 \<or> threshold cs \<le> credits_to_grant cs)"

definition urp_credit_pending_grants :: "urp_credit \<Rightarrow> u16" where
  "urp_credit_pending_grants cs = credits_to_grant cs"

definition urp_credit_take_grants :: "urp_credit \<Rightarrow> urp_credit \<times> u16" where
  "urp_credit_take_grants cs = (cs\<lparr>credits_to_grant := 0\<rparr>, credits_to_grant cs)"

datatype urp_credit_scope = URP_CREDIT_SCOPE_QP | URP_CREDIT_SCOPE_STREAM

definition urp_credit_scope_for :: "u32 \<Rightarrow> urp_credit_scope" where
  "urp_credit_scope_for stream_id =
    (if stream_id = 0 then URP_CREDIT_SCOPE_QP else URP_CREDIT_SCOPE_STREAM)"

lemmas credit_defs =
  urp_credit_init_def urp_credit_can_send_def urp_credit_consume_def urp_credit_grant_def
  urp_credit_record_recv_def urp_credit_should_grant_def urp_credit_take_grants_def

section \<open>Behaviour of the operations over the naturals\<close>

lemma unat_u16_less: "unat (w :: u16) < 65536"
  using unat_bound[of w] by simp

lemma unat_credit_grant:
  "unat (send_credits (urp_credit_grant cs n)) = min 65535 (unat (send_credits cs) + unat n)"
proof -
  let ?s = "(ucast (send_credits cs) :: u32) + ucast n"
  have s: "unat ?s = unat (send_credits cs) + unat n"
    using unat_u16_less[of "send_credits cs"] unat_u16_less[of n]
    by (subst unat_add_small) (simp_all add: unat_ucast_up)
  have m: "(?s > ucast U16_MAX) = (65535 < unat (send_credits cs) + unat n)"
    by (simp add: word_less_nat_alt s)
  have "unat (ucast ?s :: u16) = unat ?s" if "unat ?s < 65536"
    by (rule unat_ucast_small) (use that in simp)
  then show ?thesis
    using s m by (auto simp: urp_credit_grant_def Let_def)
qed

lemma unat_credit_consume:
  assumes "urp_credit_consume cs = Inr cs'"
  shows "unat (send_credits cs) = Suc (unat (send_credits cs'))"
    "credits_to_grant cs' = credits_to_grant cs" "threshold cs' = threshold cs"
  using assms by (auto simp: urp_credit_consume_def unat_minus_one unat_gt_0 split: if_splits)

lemma urp_credit_consume_fails:
  "urp_credit_consume cs = Inl e \<longleftrightarrow> e = EAGAIN \<and> \<not> urp_credit_can_send cs"
  by (auto simp: urp_credit_consume_def urp_credit_can_send_def word_neq_0_conv split: if_splits)

lemma unat_credit_record_recv:
  "unat (credits_to_grant (urp_credit_record_recv cs)) = min 65535 (Suc (unat (credits_to_grant cs)))"
proof -
  have "unat (credits_to_grant cs + 1) = Suc (unat (credits_to_grant cs))"
    if "credits_to_grant cs < 65535"
    using that by (subst unat_add_small) (simp_all add: word_less_nat_alt)
  moreover have "unat (credits_to_grant cs) \<le> 65535" using unat_u16_less[of "credits_to_grant cs"] by simp
  ultimately show ?thesis
    by (auto simp: urp_credit_record_recv_def word_less_nat_alt)
qed

section \<open>Both ends of a connection\<close>

text \<open>
  The streams of a sender and the queue pairs of its peer, as the transmit threads
  (urp_pump.c:536-560) and the receive handler (urp_rdma.c:881-888, 1142-1158) drive their credits
  when no byte window was negotiated.  A stream consumes one of its credits per frame and posts the
  frame all the same when it has none.  The peer counts every frame at the queue pair it arrived on;
  once that queue pair has reached its threshold all it has counted goes back in one control frame, to
  the stream of the frame that arrived last.  A frame may be lost with its queue pair, a control frame
  may not find a send buffer, and a grant above the range of the counter is cut off.

  A state holds the credits of the streams, those of the queue pairs, the frames on the wire as
  (stream, queue pair) and the grants on the wire as (stream, number).  Two counters are there for the
  proof only: the frames posted without a credit, and the credits lost on the way.
\<close>

record credit_link =
  cl_tx :: "urp_credit list"
  cl_rx :: "urp_credit list"
  cl_flight :: "(nat \<times> nat) list"
  cl_grants :: "(nat \<times> u16) list"
  cl_uncredited :: nat
  cl_lost :: nat

definition credit_link_init :: "u16 \<Rightarrow> u16 \<Rightarrow> nat \<Rightarrow> nat \<Rightarrow> credit_link" where
  "credit_link_init n m streams qps =
    \<lparr> cl_tx = replicate streams (urp_credit_init n), cl_rx = replicate qps (urp_credit_init m),
      cl_flight = [], cl_grants = [], cl_uncredited = 0, cl_lost = 0 \<rparr>"

definition credit_link_send :: "nat \<Rightarrow> nat \<Rightarrow> credit_link \<Rightarrow> credit_link" where
  "credit_link_send i q s =
    (let s = (case urp_credit_consume (cl_tx s ! i) of
                Inr cs \<Rightarrow> s\<lparr>cl_tx := (cl_tx s)[i := cs]\<rparr>
              | Inl _ \<Rightarrow> s\<lparr>cl_uncredited := Suc (cl_uncredited s)\<rparr>)
     in s\<lparr>cl_flight := cl_flight s @ [(i, q)]\<rparr>)"

definition credit_link_recv :: "nat \<Rightarrow> nat \<Rightarrow> credit_link \<Rightarrow> credit_link" where
  "credit_link_recv i q s =
    (let cs = urp_credit_record_recv (cl_rx s ! q);
         s = s\<lparr>cl_flight := remove1 (i, q) (cl_flight s)\<rparr>
     in if urp_credit_should_grant cs then
          (let (cs, g) = urp_credit_take_grants cs
           in s\<lparr>cl_rx := (cl_rx s)[q := cs], cl_grants := cl_grants s @ [(i, g)]\<rparr>)
        else s\<lparr>cl_rx := (cl_rx s)[q := cs]\<rparr>)"

definition credit_link_apply :: "nat \<Rightarrow> u16 \<Rightarrow> credit_link \<Rightarrow> credit_link" where
  "credit_link_apply i g s =
    (let cs = urp_credit_grant (cl_tx s ! i) g
     in s\<lparr>cl_tx := (cl_tx s)[i := cs], cl_grants := remove1 (i, g) (cl_grants s),
          cl_lost := cl_lost s + (unat (send_credits (cl_tx s ! i)) + unat g - unat (send_credits cs))\<rparr>)"

inductive credit_step :: "credit_link \<Rightarrow> credit_link \<Rightarrow> bool" where
  send: "i < length (cl_tx s) \<Longrightarrow> q < length (cl_rx s) \<Longrightarrow> credit_step s (credit_link_send i q s)"
| recv: "(i, q) \<in> set (cl_flight s) \<Longrightarrow> credit_step s (credit_link_recv i q s)"
| grant: "(i, g) \<in> set (cl_grants s) \<Longrightarrow> credit_step s (credit_link_apply i g s)"
| lose_frame: "(i, q) \<in> set (cl_flight s) \<Longrightarrow>
    credit_step s (s\<lparr>cl_flight := remove1 (i, q) (cl_flight s), cl_lost := cl_lost s + 1\<rparr>)"
| lose_grant: "(i, g) \<in> set (cl_grants s) \<Longrightarrow>
    credit_step s (s\<lparr>cl_grants := remove1 (i, g) (cl_grants s), cl_lost := cl_lost s + unat g\<rparr>)"

definition cl_available :: "credit_link \<Rightarrow> nat" where
  "cl_available s = sum_list (map (\<lambda>cs. unat (send_credits cs)) (cl_tx s))"

definition cl_pending :: "credit_link \<Rightarrow> nat" where
  "cl_pending s = sum_list (map (\<lambda>cs. unat (credits_to_grant cs)) (cl_rx s))"

definition cl_granted :: "credit_link \<Rightarrow> nat" where
  "cl_granted s = sum_list (map (\<lambda>x. unat (snd x)) (cl_grants s))"

definition rx_credit_ok :: "u16 \<Rightarrow> urp_credit \<Rightarrow> bool" where
  "rx_credit_ok m cs \<longleftrightarrow> threshold cs = m div 4 \<and> (credits_to_grant cs = 0 \<or> \<not> urp_credit_should_grant cs)"

definition credit_inv :: "u16 \<Rightarrow> u16 \<Rightarrow> nat \<Rightarrow> nat \<Rightarrow> credit_link \<Rightarrow> bool" where
  "credit_inv n m streams qps s \<longleftrightarrow>
    length (cl_tx s) = streams \<and> length (cl_rx s) = qps \<and>
    (\<forall>(i, q)\<in>set (cl_flight s). i < streams \<and> q < qps) \<and> (\<forall>(i, g)\<in>set (cl_grants s). i < streams) \<and>
    (\<forall>cs\<in>set (cl_rx s). rx_credit_ok m cs) \<and>
    cl_available s + length (cl_flight s) + cl_pending s + cl_granted s + cl_lost s = streams * unat n + cl_uncredited s"

lemma sum_list_map_update:
  fixes f :: "'a \<Rightarrow> nat"
  assumes "i < length xs"
  shows "sum_list (map f (xs[i := x])) + f (xs ! i) = sum_list (map f xs) + f x"
  using assms elem_le_sum_list[of i "map f xs"] by (simp add: map_update sum_list_update)

lemma credit_inv_init: "credit_inv n m streams qps (credit_link_init n m streams qps)"
  by (simp add: credit_inv_def credit_link_init_def urp_credit_init_def cl_available_def cl_pending_def
      cl_granted_def rx_credit_ok_def sum_list_replicate)

lemma credit_inv_send:
  assumes "credit_inv n m k r s" "i < k" "q < r"
  shows "credit_inv n m k r (credit_link_send i q s)"
proof (cases "urp_credit_consume (cl_tx s ! i)")
  case (Inl e)
  then show ?thesis using assms
    by (simp add: credit_inv_def credit_link_send_def cl_available_def cl_pending_def cl_granted_def)
next
  case (Inr cs)
  have "i < length (cl_tx s)" using assms by (simp add: credit_inv_def)
  from sum_list_map_update[OF this, of "\<lambda>cs. unat (send_credits cs)" cs]
  have "Suc (sum_list (map (\<lambda>cs. unat (send_credits cs)) ((cl_tx s)[i := cs]))) = cl_available s"
    using unat_credit_consume(1)[OF Inr] by (simp add: cl_available_def)
  then show ?thesis using assms Inr
    by (simp add: credit_inv_def credit_link_send_def cl_available_def cl_pending_def cl_granted_def)
qed

lemma record_recv_ok:
  assumes "rx_credit_ok m cs"
  shows "unat (credits_to_grant (urp_credit_record_recv cs)) = Suc (unat (credits_to_grant cs))"
    "threshold (urp_credit_record_recv cs) = m div 4"
proof -
  have "unat (credits_to_grant cs) < 65535"
  proof (cases "credits_to_grant cs = 0")
    case False
    then have "credits_to_grant cs < m div 4" using assms by (auto simp: rx_credit_ok_def urp_credit_should_grant_def)
    then show ?thesis using unat_u16_less[of m] by (simp add: word_less_nat_alt unat_div)
  qed simp
  then show "unat (credits_to_grant (urp_credit_record_recv cs)) = Suc (unat (credits_to_grant cs))"
    by (simp add: unat_credit_record_recv)
  show "threshold (urp_credit_record_recv cs) = m div 4"
    using assms by (simp add: urp_credit_record_recv_def rx_credit_ok_def)
qed

lemma credit_inv_recv:
  assumes "credit_inv n m k r s" "(i, q) \<in> set (cl_flight s)"
  shows "credit_inv n m k r (credit_link_recv i q s)"
proof -
  define cs where "cs = urp_credit_record_recv (cl_rx s ! q)"
  have i: "i < k" "q < r" "q < length (cl_rx s)" using assms by (auto simp: credit_inv_def)
  have "rx_credit_ok m (cl_rx s ! q)" using assms(1) i(3) by (simp add: credit_inv_def)
  note cs = record_recv_ok[OF this, folded cs_def]
  have fl: "Suc (length (remove1 (i, q) (cl_flight s))) = length (cl_flight s)"
    using assms(2) length_pos_if_in_set[OF assms(2)] by (simp add: length_remove1)
  have sub: "\<forall>(i, q)\<in>set (remove1 (i, q) (cl_flight s)). i < k \<and> q < r"
    using assms(1) unfolding credit_inv_def by (blast dest: subsetD[OF set_remove1_subset])
  note upd = sum_list_map_update[OF i(3), of "\<lambda>cs. unat (credits_to_grant cs)"]
  show ?thesis
  proof (cases "urp_credit_should_grant cs")
    case True
    have "\<forall>c\<in>set ((cl_rx s)[q := cs\<lparr>credits_to_grant := 0\<rparr>]). rx_credit_ok m c"
      using assms(1) cs(2) by (auto simp: credit_inv_def rx_credit_ok_def dest!: subsetD[OF set_update_subset_insert])
    then show ?thesis using True assms(1) i cs(1) fl sub upd[of "cs\<lparr>credits_to_grant := 0\<rparr>"]
      by (simp add: credit_inv_def credit_link_recv_def cs_def[symmetric] Let_def urp_credit_take_grants_def
          cl_available_def cl_pending_def cl_granted_def)
  next
    case False
    then have "\<forall>c\<in>set ((cl_rx s)[q := cs]). rx_credit_ok m c"
      using assms(1) cs(2) by (auto simp: credit_inv_def rx_credit_ok_def dest!: subsetD[OF set_update_subset_insert])
    then show ?thesis using False assms(1) i cs(1) fl sub upd[of cs]
      by (simp add: credit_inv_def credit_link_recv_def cs_def[symmetric] Let_def
          cl_available_def cl_pending_def cl_granted_def)
  qed
qed

lemma credit_inv_grant:
  assumes "credit_inv n m k r s" "(i, g) \<in> set (cl_grants s)"
  shows "credit_inv n m k r (credit_link_apply i g s)"
proof -
  define cs where "cs = urp_credit_grant (cl_tx s ! i) g"
  have i: "i < length (cl_tx s)" using assms by (auto simp: credit_inv_def)
  have le: "unat (send_credits cs) \<le> unat (send_credits (cl_tx s ! i)) + unat g"
    by (simp add: cs_def unat_credit_grant)
  have gs: "cl_granted s = unat g + sum_list (map (\<lambda>x. unat (snd x)) (remove1 (i, g) (cl_grants s)))"
    using sum_list_map_remove1[OF assms(2), of "\<lambda>x. unat (snd x)"] by (simp add: cl_granted_def)
  have sub: "\<forall>(i, g)\<in>set (remove1 (i, g) (cl_grants s)). i < k"
    using assms(1) unfolding credit_inv_def by (blast dest: subsetD[OF set_remove1_subset])
  let ?s = "credit_link_apply i g s"
  have s: "cl_tx ?s = (cl_tx s)[i := cs]" "cl_rx ?s = cl_rx s" "cl_flight ?s = cl_flight s"
    "cl_grants ?s = remove1 (i, g) (cl_grants s)" "cl_uncredited ?s = cl_uncredited s"
    "cl_lost ?s = cl_lost s + (unat (send_credits (cl_tx s ! i)) + unat g - unat (send_credits cs))"
    by (simp_all add: credit_link_apply_def cs_def Let_def)
  have "cl_available ?s + unat (send_credits (cl_tx s ! i)) = cl_available s + unat (send_credits cs)"
    using sum_list_map_update[OF i, of "\<lambda>cs. unat (send_credits cs)" cs] by (simp add: cl_available_def s)
  moreover have "cl_pending ?s = cl_pending s" "cl_granted s = unat g + cl_granted ?s"
    using gs by (simp_all add: cl_pending_def cl_granted_def s)
  ultimately have "cl_available ?s + length (cl_flight ?s) + cl_pending ?s + cl_granted ?s + cl_lost ?s =
      cl_available s + length (cl_flight s) + cl_pending s + cl_granted s + cl_lost s"
    using le unfolding s by linarith
  then show ?thesis using assms(1) sub by (simp add: credit_inv_def s)
qed

lemma credit_inv_lose_frame:
  assumes "credit_inv n m k r s" "(i, q) \<in> set (cl_flight s)"
  shows "credit_inv n m k r (s\<lparr>cl_flight := remove1 (i, q) (cl_flight s), cl_lost := cl_lost s + 1\<rparr>)"
proof -
  have "Suc (length (remove1 (i, q) (cl_flight s))) = length (cl_flight s)"
    using assms(2) length_pos_if_in_set[OF assms(2)] by (simp add: length_remove1)
  moreover have "\<forall>(i, q)\<in>set (remove1 (i, q) (cl_flight s)). i < k \<and> q < r"
    using assms(1) unfolding credit_inv_def by (blast dest: subsetD[OF set_remove1_subset])
  ultimately show ?thesis using assms(1)
    by (simp add: credit_inv_def cl_available_def cl_pending_def cl_granted_def)
qed

lemma credit_inv_lose_grant:
  assumes "credit_inv n m k r s" "(i, g) \<in> set (cl_grants s)"
  shows "credit_inv n m k r (s\<lparr>cl_grants := remove1 (i, g) (cl_grants s), cl_lost := cl_lost s + unat g\<rparr>)"
proof -
  have "\<forall>(i, g)\<in>set (remove1 (i, g) (cl_grants s)). i < k"
    using assms(1) unfolding credit_inv_def by (blast dest: subsetD[OF set_remove1_subset])
  then show ?thesis using assms(1) sum_list_map_remove1[OF assms(2), of "\<lambda>x. unat (snd x)"]
    by (simp add: credit_inv_def cl_available_def cl_pending_def cl_granted_def)
qed

lemma credit_inv_step:
  assumes "credit_step s s'" "credit_inv n m k r s"
  shows "credit_inv n m k r s'"
  using assms
proof (cases rule: credit_step.cases)
  case (send i q)
  then have "i < k" "q < r" using assms(2) by (simp_all add: credit_inv_def)
  then show ?thesis using assms(2) send(1) by (simp add: credit_inv_send)
qed (use assms(2) in \<open>simp_all only: credit_inv_recv credit_inv_grant credit_inv_lose_frame credit_inv_lose_grant\<close>)

lemma credit_inv_reachable:
  "credit_step\<^sup>*\<^sup>* (credit_link_init n m k r) s \<Longrightarrow> credit_inv n m k r s"
  by (induction rule: rtranclp_induct) (auto simp: credit_inv_init intro: credit_inv_step)

text \<open>What the queue pairs hold back is less than the budget of the streams.\<close>

lemma rx_credit_held:
  assumes "rx_credit_ok m cs" "m \<noteq> 0"
  shows "4 * unat (credits_to_grant cs) + 1 \<le> unat m"
proof (cases "credits_to_grant cs = 0")
  case True
  then show ?thesis using assms(2) unat_gt_0[of m] by simp
next
  case False
  then have "credits_to_grant cs < m div 4" using assms(1) by (auto simp: rx_credit_ok_def urp_credit_should_grant_def)
  then have "unat (credits_to_grant cs) < unat m div 4" by (simp add: word_less_nat_alt unat_div)
  then show ?thesis by linarith
qed

lemma cl_pending_held:
  assumes "\<forall>cs\<in>set (cl_rx s). rx_credit_ok m cs" "m \<noteq> 0"
  shows "4 * cl_pending s + length (cl_rx s) \<le> length (cl_rx s) * unat m"
proof -
  have "4 * sum_list (map (\<lambda>cs. unat (credits_to_grant cs)) xs) + length xs \<le> length xs * unat m"
    if "\<forall>cs\<in>set xs. rx_credit_ok m cs" for xs
    using that
  proof (induction xs)
    case (Cons c xs)
    then show ?case using rx_credit_held[of m c] assms(2) by simp
  qed simp
  then show ?thesis using assms(1) by (simp add: cl_pending_def)
qed

lemma credit_inv_drained_can_send:
  assumes "credit_inv n m k r s" "m \<noteq> 0" "m \<le> n" "0 < k" "r \<le> 4 * k"
    and "cl_flight s = []" "cl_grants s = []" "cl_lost s = 0"
  shows "\<exists>cs\<in>set (cl_tx s). urp_credit_can_send cs"
proof -
  have p: "4 * cl_pending s + r \<le> r * unat m" using cl_pending_held[of s m] assms(1,2) by (simp add: credit_inv_def)
  have "r * unat m \<le> 4 * k * unat n" using assms(3,5) by (intro mult_le_mono) (simp_all add: word_le_nat_alt)
  moreover have "0 < k * unat n" using assms(2,3,4) by (auto simp: unat_gt_0)
  ultimately have "cl_pending s < k * unat n" using p by (cases "r = 0") auto
  then have "cl_available s \<noteq> 0" using assms(1,6,7,8) by (simp add: credit_inv_def cl_granted_def)
  then have "\<exists>cs\<in>set (cl_tx s). unat (send_credits cs) \<noteq> 0" by (auto simp: cl_available_def)
  then show ?thesis by (auto simp: urp_credit_can_send_def word_less_nat_alt)
qed

section \<open>Properties\<close>



end
