(* ===== verification/Urp_Window.thy ===== *)
theory Urp_Window
  imports Urp_Prelude
begin

text \<open>
  Byte-denominated flow control (kernel/urp_window.h): the sizing of a stream's
  window, the sender's gate, the receiver's grant rule, the cumulative grant,
  and the reorder depth derived from the window.  All counters are u64 and the
  gate subtracts them modulo 2^64, as the code does.
\<close>

section \<open>Constants and operations\<close>

definition URP_WINDOW_BYTES_DEFAULT :: u64 where "URP_WINDOW_BYTES_DEFAULT = push_bit 20 1"
definition URP_WINDOW_BYTES_MIN :: u64 where "URP_WINDOW_BYTES_MIN = push_bit 16 1"
definition URP_WINDOW_BYTES_MAX :: u64 where "URP_WINDOW_BYTES_MAX = push_bit 30 1"
definition URP_WINDOW_FALLBACK_RTT_NS :: u64 where "URP_WINDOW_FALLBACK_RTT_NS = 100000"
definition URP_WINDOW_GRANT_DIVISOR :: u64 where "URP_WINDOW_GRANT_DIVISOR = 4"
definition URP_WINDOW_TARGET_FRAMES :: u64 where "URP_WINDOW_TARGET_FRAMES = 8"
definition URP_REORDER_MIN_FRAME :: u64 where "URP_REORDER_MIN_FRAME = 16"
definition URP_REORDER_MIN_ENTRIES :: u64 where "URP_REORDER_MIN_ENTRIES = 256"
definition URP_REORDER_MAX_ENTRIES :: u64 where "URP_REORDER_MAX_ENTRIES = 65536"

definition urp_window_clamp :: "u64 \<Rightarrow> u64" where
  "urp_window_clamp v =
    (if v < URP_WINDOW_BYTES_MIN then URP_WINDOW_BYTES_MIN
     else if v > URP_WINDOW_BYTES_MAX then URP_WINDOW_BYTES_MAX
     else v)"

definition urp_window_for_stream :: "u64 \<Rightarrow> u32 \<Rightarrow> u32 \<Rightarrow> u32 \<Rightarrow> u64 \<Rightarrow> u64" where
  "urp_window_for_stream sysctl_window buf_size num_bufs link_mbps rtt_ns =
    (let recv_pool = ucast (num_bufs div 2) * ucast buf_size;
         frame_floor = URP_WINDOW_TARGET_FRAMES * ucast buf_size;
         bdp = ucast link_mbps * rtt_ns div 8000;
         w = sysctl_window;
         w = (if bdp > w then bdp else w);
         w = (if frame_floor > w then frame_floor else w);
         w = urp_window_clamp w
     in if w > recv_pool then recv_pool else w)"

definition urp_window_has_room :: "u64 \<Rightarrow> u64 \<Rightarrow> u64 \<Rightarrow> u32 \<Rightarrow> bool" where
  "urp_window_has_room sent acked window len =
    (let inflight = sent - acked
     in if inflight = 0 then True else inflight + ucast len \<le> window)"

definition urp_window_should_grant :: "u64 \<Rightarrow> u64 \<Rightarrow> u64 \<Rightarrow> bool" where
  "urp_window_should_grant delivered last_granted window =
    (let step = window div URP_WINDOW_GRANT_DIVISOR;
         step = (if step = 0 then 1 else step)
     in delivered - last_granted \<ge> step)"

definition urp_window_apply_grant :: "u64 \<Rightarrow> u64 \<Rightarrow> u64" where
  "urp_window_apply_grant cur_acked granted = (if granted > cur_acked then granted else cur_acked)"

definition urp_reorder_depth_for_window :: "u64 \<Rightarrow> u32" where
  "urp_reorder_depth_for_window window =
    (let d = window div URP_REORDER_MIN_FRAME
     in if d < URP_REORDER_MIN_ENTRIES then ucast URP_REORDER_MIN_ENTRIES
        else if d > URP_REORDER_MAX_ENTRIES then ucast URP_REORDER_MAX_ENTRIES
        else ucast d)"

lemma window_consts:
  "URP_WINDOW_BYTES_MIN = 65536" "URP_WINDOW_BYTES_MAX = 1073741824"
  "URP_WINDOW_BYTES_DEFAULT = 1048576" "URP_WINDOW_FALLBACK_RTT_NS = 100000"
  "URP_WINDOW_GRANT_DIVISOR = 4" "URP_WINDOW_TARGET_FRAMES = 8" "URP_REORDER_MIN_FRAME = 16"
  "URP_REORDER_MIN_ENTRIES = 256" "URP_REORDER_MAX_ENTRIES = 65536"
  by (simp_all add: URP_WINDOW_BYTES_MIN_def URP_WINDOW_BYTES_MAX_def URP_WINDOW_BYTES_DEFAULT_def
      URP_WINDOW_FALLBACK_RTT_NS_def URP_WINDOW_GRANT_DIVISOR_def URP_WINDOW_TARGET_FRAMES_def
      URP_REORDER_MIN_FRAME_def URP_REORDER_MIN_ENTRIES_def URP_REORDER_MAX_ENTRIES_def)

section \<open>Sizing\<close>

lemma unat_window_clamp:
  "unat (urp_window_clamp v) = max 65536 (min 1073741824 (unat v))"
  by (auto simp: urp_window_clamp_def window_consts word_less_nat_alt)

lemma unat_recv_pool:
  "unat ((ucast (nb div 2 :: u32) :: u64) * ucast (bs :: u32)) = unat nb div 2 * unat bs"
proof -
  have "unat nb div 2 < 2 ^ 32" "unat bs < 2 ^ 32"
    using unat_bound[of nb] unat_bound[of bs] by simp_all
  then have "(unat nb div 2) * unat bs < 2 ^ 32 * 2 ^ 32" by (intro mult_strict_mono) simp_all
  then show ?thesis
    by (subst unat_mult_small) (simp_all add: unat_ucast_up unat_div)
qed

lemma unat_frame_floor: "unat ((8 :: u64) * ucast (bs :: u32)) = 8 * unat bs"
  using unat_bound[of bs] by (subst unat_mult_small) (simp_all add: unat_ucast_up)

lemma unat_window_for_stream:
  obtains v where "8 * unat bs \<le> unat v"
    "unat (urp_window_for_stream sw bs nb lm rtt) = min (unat nb div 2 * unat bs) (unat (urp_window_clamp v))"
proof -
  define b where "b = (ucast lm :: u64) * rtt div 8000"
  define v where "v = (if b > sw then b else sw)"
  define u where "u = (if URP_WINDOW_TARGET_FRAMES * ucast bs > v
    then URP_WINDOW_TARGET_FRAMES * ucast bs else v)"
  have "unat (urp_window_for_stream sw bs nb lm rtt) = min (unat nb div 2 * unat bs) (unat (urp_window_clamp u))"
    unfolding urp_window_for_stream_def Let_def b_def[symmetric] v_def[symmetric] u_def[symmetric]
    by (simp add: word_less_nat_alt unat_recv_pool)
  moreover have "8 * unat bs \<le> unat u"
    by (simp add: u_def window_consts word_less_nat_alt unat_frame_floor)
  ultimately show ?thesis using that by blast
qed

lemma window_for_stream_bounds:
  fixes sw :: u64 and bs nb lm :: u32 and rtt :: u64
  defines "w \<equiv> unat (urp_window_for_stream sw bs nb lm rtt)"
  shows "w \<le> unat nb div 2 * unat bs"
    and "w \<le> 1073741824"
    and "16 \<le> unat nb \<Longrightarrow> unat bs \<le> 1048576 \<Longrightarrow> 8 * unat bs \<le> w"
proof -
  obtain v where v: "8 * unat bs \<le> unat v" and w: "w = min (unat nb div 2 * unat bs) (unat (urp_window_clamp v))"
    unfolding w_def by (rule unat_window_for_stream)
  show "w \<le> unat nb div 2 * unat bs" "w \<le> 1073741824"
    unfolding w by (simp_all add: unat_window_clamp min_le_iff_disj)
  assume nb: "16 \<le> unat nb" and bs: "unat bs \<le> 1048576"
  have "8 * unat bs \<le> unat (urp_window_clamp v)" using v bs by (simp add: unat_window_clamp)
  moreover have "8 * unat bs \<le> unat nb div 2 * unat bs" using nb by (intro mult_le_mono1) simp
  ultimately show "8 * unat bs \<le> w" unfolding w by simp
qed

lemma unat_reorder_depth:
  "unat (urp_reorder_depth_for_window w) = max 256 (min 65536 (unat w div 16))"
proof -
  have "unat (ucast (w div 16) :: u32) = unat w div 16" if "\<not> w div 16 > 65536"
    using that by (subst unat_ucast_small) (auto simp: word_less_nat_alt unat_div)
  then show ?thesis
    by (auto simp: urp_reorder_depth_for_window_def Let_def window_consts word_less_nat_alt unat_div)
qed

section \<open>Cumulative grants\<close>

text \<open>
  What the sender relies on: a grant only moves the acknowledged high-water
  mark up, and applying grants twice or in another order makes no difference.
\<close>

locale cumulative_grant =
  fixes apply_grant :: "'a::linorder \<Rightarrow> 'a \<Rightarrow> 'a"
  assumes raises: "a \<le> apply_grant a g"
    and reaches: "g \<le> apply_grant a g"
    and least: "a \<le> b \<Longrightarrow> g \<le> b \<Longrightarrow> apply_grant a g \<le> b"
begin

lemma foldl_upper: "a \<le> foldl apply_grant a gs \<and> (\<forall>g\<in>set gs. g \<le> foldl apply_grant a gs)"
proof (induction gs arbitrary: a)
  case (Cons g gs)
  then show ?case using raises[of a g] reaches[of g a] order_trans by fastforce
qed simp

lemma foldl_least:
  "a \<le> b \<Longrightarrow> \<forall>g\<in>set gs. g \<le> b \<Longrightarrow> foldl apply_grant a gs \<le> b"
  by (induction gs arbitrary: a) (auto intro: least)

lemma foldl_set_cong:
  assumes "set gs = set hs"
  shows "foldl apply_grant a gs = foldl apply_grant a hs"
  using foldl_upper[of a gs] foldl_upper[of a hs] assms
  by (intro order.antisym foldl_least) auto

end

interpretation window_grant: cumulative_grant urp_window_apply_grant
  by unfold_locales (auto simp: urp_window_apply_grant_def)

section \<open>Both ends of a byte window\<close>

text \<open>
  One direction of a stream as the transmit thread (urp_pump.c:472-535) and the
  receive handler drive it: the sender posts a frame when the gate has room, and
  posts it best-effort once its stall budget is spent, with the gate still shut;
  the receiver delivers bytes and takes a cumulative grant when the step is
  reached, and the sender applies any grant that was ever taken, so grants may be
  lost, repeated or reordered.  The largest frame is a parameter.  One counter is
  there for the proof only: the bytes posted best-effort since a frame last went
  through the gate.
\<close>

record window_link =
  wl_sent :: u64
  wl_acked :: u64
  wl_delivered :: u64
  wl_last :: u64
  wl_grants :: "u64 list"
  wl_forced :: nat

definition window_link_init :: window_link where
  "window_link_init = \<lparr> wl_sent = 0, wl_acked = 0, wl_delivered = 0, wl_last = 0, wl_grants = [], wl_forced = 0 \<rparr>"

definition window_link_deliver :: "u64 \<Rightarrow> window_link \<Rightarrow> u32 \<Rightarrow> window_link" where
  "window_link_deliver w s len =
    (let d = wl_delivered s + ucast len
     in if urp_window_should_grant d (wl_last s) w
        then s\<lparr>wl_delivered := d, wl_last := d, wl_grants := d # wl_grants s\<rparr>
        else s\<lparr>wl_delivered := d\<rparr>)"

inductive window_step :: "u64 \<Rightarrow> u32 \<Rightarrow> window_link \<Rightarrow> window_link \<Rightarrow> bool"
  for w :: u64 and maxlen :: u32 where
  send: "urp_window_has_room (wl_sent s) (wl_acked s) w len \<Longrightarrow> len \<le> maxlen \<Longrightarrow>
    unat (wl_sent s) + unat len < 2 ^ 64 \<Longrightarrow>
    window_step w maxlen s (s\<lparr>wl_sent := wl_sent s + ucast len, wl_forced := 0\<rparr>)"
| best_effort: "\<not> urp_window_has_room (wl_sent s) (wl_acked s) w len \<Longrightarrow> len \<le> maxlen \<Longrightarrow>
    unat (wl_sent s) + unat len < 2 ^ 64 \<Longrightarrow>
    window_step w maxlen s (s\<lparr>wl_sent := wl_sent s + ucast len, wl_forced := wl_forced s + unat len\<rparr>)"
| deliver: "unat (wl_delivered s) + unat len \<le> unat (wl_sent s) \<Longrightarrow>
    window_step w maxlen s (window_link_deliver w s len)"
| grant: "g \<in> set (wl_grants s) \<Longrightarrow>
    window_step w maxlen s (s\<lparr>wl_acked := urp_window_apply_grant (wl_acked s) g\<rparr>)"

definition window_inv :: "u64 \<Rightarrow> u32 \<Rightarrow> window_link \<Rightarrow> bool" where
  "window_inv w maxlen s \<longleftrightarrow>
    wl_acked s \<le> wl_last s \<and> wl_last s \<le> wl_delivered s \<and> wl_delivered s \<le> wl_sent s \<and>
    (\<forall>g\<in>set (wl_grants s). g \<le> wl_last s) \<and>
    unat (wl_delivered s) - unat (wl_last s) < max 1 (unat w div 4) \<and>
    unat (wl_sent s) - unat (wl_acked s) \<le> max (unat w) (unat maxlen) + wl_forced s"

lemma window_inv_init: "window_inv w maxlen window_link_init"
  by (simp add: window_inv_def window_link_init_def)

lemma unat_has_room:
  assumes "acked \<le> sent" "unat sent + unat len < 2 ^ 64"
  shows "urp_window_has_room sent acked w len \<longleftrightarrow>
    unat sent = unat acked \<or> unat sent - unat acked + unat len \<le> unat w"
proof -
  have d: "unat (sent - acked) = unat sent - unat acked" using assms(1) by (simp add: unat_sub)
  have "unat (sent - acked + ucast len) = unat sent - unat acked + unat len"
    using assms(2) d by (subst unat_add_small) (simp_all add: unat_ucast_up)
  moreover have "sent - acked = 0 \<longleftrightarrow> unat sent = unat acked"
    using word_unat_eq_iff[of sent acked] by simp
  ultimately show ?thesis
    by (auto simp: urp_window_has_room_def Let_def word_le_nat_alt)
qed

lemma unat_should_grant:
  assumes "granted \<le> delivered"
  shows "urp_window_should_grant delivered granted w \<longleftrightarrow>
    max 1 (unat w div 4) \<le> unat delivered - unat granted"
proof -
  have "unat (if w div 4 = 0 then 1 else w div 4) = max 1 (unat w div 4)"
    by (auto simp: unat_div word_unat_eq_iff)
  then show ?thesis
    using assms
    by (simp add: urp_window_should_grant_def Let_def window_consts word_le_nat_alt[of _ "delivered - granted"] unat_sub)
qed

lemma window_inv_deliver:
  assumes "window_inv w maxlen s" "unat (wl_delivered s) + unat len \<le> unat (wl_sent s)"
  shows "window_inv w maxlen (window_link_deliver w s len)"
proof -
  let ?d = "wl_delivered s + ucast len"
  have "unat (wl_delivered s) + unat len < 2 ^ 64"
    using assms(2) unat_bound[of "wl_sent s"] by simp
  then have d: "unat ?d = unat (wl_delivered s) + unat len"
    by (subst unat_add_small) (simp_all add: unat_ucast_up)
  then have le: "wl_last s \<le> ?d" "?d \<le> wl_sent s"
    using assms by (auto simp: window_inv_def word_le_nat_alt)
  show ?thesis
  proof (cases "urp_window_should_grant ?d (wl_last s) w")
    case True
    then show ?thesis
      using assms le by (auto simp: window_inv_def window_link_deliver_def Let_def)
  next
    case False
    then have "unat ?d - unat (wl_last s) < max 1 (unat w div 4)"
      unfolding unat_should_grant[OF le(1)] not_le .
    then show ?thesis
      using assms le False by (auto simp: window_inv_def window_link_deliver_def Let_def)
  qed
qed

lemma window_inv_step:
  assumes "window_step w maxlen s s'" "window_inv w maxlen s"
  shows "window_inv w maxlen s'"
  using assms
proof (cases rule: window_step.cases)
  case (send len)
  have as: "wl_acked s \<le> wl_sent s" using assms(2) by (auto simp: window_inv_def)
  have sum: "unat (wl_sent s + ucast len) = unat (wl_sent s) + unat len"
    using send(4) by (subst unat_add_small) (simp_all add: unat_ucast_up)
  have "unat (wl_sent s) + unat len - unat (wl_acked s) \<le> max (unat w) (unat maxlen)"
    using send(2,3) unat_has_room[OF as send(4)] as by (auto simp: word_le_nat_alt)
  then show ?thesis
    using assms(2) send(1) sum by (auto simp: window_inv_def word_le_nat_alt)
next
  case (best_effort len)
  have sum: "unat (wl_sent s + ucast len) = unat (wl_sent s) + unat len"
    using best_effort(4) by (subst unat_add_small) (simp_all add: unat_ucast_up)
  then show ?thesis using assms(2) best_effort(1) by (auto simp: window_inv_def word_le_nat_alt)
next
  case (deliver len)
  then show ?thesis using assms(2) window_inv_deliver by simp
next
  case (grant g)
  then have "wl_acked s \<le> urp_window_apply_grant (wl_acked s) g"
    "urp_window_apply_grant (wl_acked s) g \<le> wl_last s"
    using assms(2) by (auto simp: window_inv_def intro: window_grant.raises window_grant.least)
  then show ?thesis
    using assms(2) grant(1) by (auto simp: window_inv_def word_le_nat_alt)
qed

lemma window_inv_reachable:
  "(window_step w maxlen)\<^sup>*\<^sup>* window_link_init s \<Longrightarrow> window_inv w maxlen s"
  by (induction rule: rtranclp_induct) (auto simp: window_inv_init intro: window_inv_step)

lemma window_inv_progress:
  assumes "window_inv w maxlen s" "8 * unat maxlen \<le> unat w"
    and "wl_delivered s = wl_sent s" "wl_acked s = wl_last s"
    and "len \<le> maxlen" "unat (wl_sent s) + unat len < 2 ^ 64"
  shows "urp_window_has_room (wl_sent s) (wl_acked s) w len"
proof -
  have as: "wl_acked s \<le> wl_sent s" using assms(1,3) by (auto simp: window_inv_def)
  have "unat (wl_sent s) - unat (wl_acked s) < max 1 (unat w div 4)"
    using assms(1,3,4) by (simp add: window_inv_def)
  moreover have "unat len \<le> unat w div 8" using assms(2,5) by (simp add: word_le_nat_alt)
  ultimately have "unat (wl_sent s) = unat (wl_acked s) \<or>
      unat (wl_sent s) - unat (wl_acked s) + unat len \<le> unat w"
    using as unfolding word_le_nat_alt by linarith
  then show ?thesis using unat_has_room[OF as assms(6)] by simp
qed

section \<open>Properties\<close>



text \<open>C15: A stream's resolved window never exceeds the peer's receive half of the buffer pool nor
  the upper limit, and for every supported geometry it admits at least eight whole buffers, which
  is what keeps the gate from deadlocking.\<close>

theorem window_for_stream_sound:
  "unat (urp_window_for_stream sw bs nb lm rtt) \<le> unat nb div 2 * unat bs \<and>
   urp_window_for_stream sw bs nb lm rtt \<le> URP_WINDOW_BYTES_MAX \<and>
   (16 \<le> unat nb \<and> unat bs \<le> 1048576 \<longrightarrow>
     8 * unat bs \<le> unat (urp_window_for_stream sw bs nb lm rtt))"
  using window_for_stream_bounds by (simp add: window_consts word_le_nat_alt)

theorem window_for_stream_sound_witness:
  "urp_window_for_stream 1048576 4096 1024 25000 100000 = 1048576 \<and>
   8 * unat (4096 :: u32) \<le> unat (urp_window_for_stream 1048576 4096 1024 25000 100000)"
proof -
  have "urp_window_for_stream 1048576 4096 1024 25000 100000 = 1048576" by code_simp
  then show ?thesis using window_for_stream_sound[of 1048576 4096 1024 25000 100000] by simp
qed

text \<open>C18: The resolved window lies below the documented minimum of 64 KiB exactly when the receive
  half of the pool is smaller than that, whatever the tunable, the link and the round-trip time are:
  the receive-pool cap is applied after the clamp, and then it is the window.\<close>

theorem window_below_minimum:
  "(urp_window_for_stream sw bs nb lm rtt < URP_WINDOW_BYTES_MIN \<longleftrightarrow> unat nb div 2 * unat bs < 65536) \<and>
   (unat nb div 2 * unat bs < 65536 \<longrightarrow>
     unat (urp_window_for_stream sw bs nb lm rtt) = unat nb div 2 * unat bs)"
proof -
  obtain v where "unat (urp_window_for_stream sw bs nb lm rtt) = min (unat nb div 2 * unat bs) (unat (urp_window_clamp v))"
    by (rule unat_window_for_stream)
  then show ?thesis by (auto simp: window_consts word_less_nat_alt unat_window_clamp)
qed

theorem window_below_minimum_witness:
  "unat (16 :: u32) div 2 * unat (68 :: u32) < 65536 \<and>
   urp_window_for_stream URP_WINDOW_BYTES_DEFAULT 68 16 25000 100000 < URP_WINDOW_BYTES_MIN \<and>
   unat (urp_window_for_stream URP_WINDOW_BYTES_DEFAULT 68 16 25000 100000) = 544"
  using window_below_minimum[of URP_WINDOW_BYTES_DEFAULT 68 16 25000 100000] by simp

end
