(* ===== verification/Urp_Hist.thy ===== *)
theory Urp_Hist
  imports Urp_Prelude
begin

text \<open>
  Latency histograms (kernel/urp_hist.h): the inter-arrival and one-way-delay
  edge tables and their bucket search.  Both are instances of one contract, the
  smallest bucket whose upper edge is not below the sample.
\<close>

section \<open>Edge tables and bucket search\<close>

definition URP_HIST_NBUCKETS :: u32 where "URP_HIST_NBUCKETS = 15"
definition URP_HIST_NEDGES :: u32 where "URP_HIST_NEDGES = URP_HIST_NBUCKETS - 1"
definition URP_IA_NSTRIDES :: u32 where "URP_IA_NSTRIDES = 3"
definition URP_OWD_NBUCKETS :: u32 where "URP_OWD_NBUCKETS = 14"
definition URP_OWD_NEDGES :: u32 where "URP_OWD_NEDGES = URP_OWD_NBUCKETS - 1"

definition urp_hist_edge_ns :: "u32 \<Rightarrow> u64" where
  "urp_hist_edge_ns i =
    (let edges = [250, 500, 1000, 2000, 5000, 10000, 25000, 50000, 100000, 250000,
                  500000, 1000000, 5000000, 25000000]
     in if i < URP_HIST_NEDGES then edges ! unat i else U64_MAX)"

definition urp_ia_stride :: "u32 \<Rightarrow> u32" where
  "urp_ia_stride i = (let strides = [1, 10, 100] in if i < URP_IA_NSTRIDES then strides ! unat i else 1)"

definition urp_owd_edge_ns :: "u32 \<Rightarrow> u64" where
  "urp_owd_edge_ns i =
    (let edges = [1000, 2000, 5000, 10000, 20000, 50000, 100000, 200000, 500000, 1000000,
                  2000000, 5000000, 10000000]
     in if i < URP_OWD_NEDGES then edges ! unat i else U64_MAX)"

text \<open>The search loop of both bucket functions, from index i on.\<close>

function le_scan :: "(u32 \<Rightarrow> u64) \<Rightarrow> u32 \<Rightarrow> u64 \<Rightarrow> u32 \<Rightarrow> u32" where
  "le_scan edge nedges ns i =
    (if i < nedges then (if ns \<le> edge i then i else le_scan edge nedges ns (i + 1))
     else nedges)"
  by pat_completeness auto

termination le_scan
  by (relation "measure (\<lambda>(edge, nedges, ns, i). unat nedges - unat i)")
    (auto simp: unat_Suc_less word_less_nat_alt)

declare le_scan.simps [simp del]

definition urp_hist_bucket :: "u64 \<Rightarrow> u32" where
  "urp_hist_bucket ns = le_scan urp_hist_edge_ns URP_HIST_NEDGES ns 0"

definition urp_owd_bucket :: "u64 \<Rightarrow> u32" where
  "urp_owd_bucket ns = le_scan urp_owd_edge_ns URP_OWD_NEDGES ns 0"

lemma le_scan_next:
  "i < n \<Longrightarrow> \<not> ns \<le> edge i \<Longrightarrow> le_scan edge n ns i = le_scan edge n ns (i + 1)"
  by (subst le_scan.simps) simp

lemma le_scan_stop:
  "\<not> (i < n \<and> \<not> ns \<le> edge i) \<Longrightarrow> le_scan edge n ns i = (if i < n then i else n)"
  by (subst le_scan.simps) auto

lemma le_scan_bounds:
  assumes "i \<le> n"
  shows "i \<le> le_scan edge n ns i \<and> le_scan edge n ns i \<le> n \<and>
    (le_scan edge n ns i < n \<longrightarrow> ns \<le> edge (le_scan edge n ns i)) \<and>
    (\<forall>j. i \<le> j \<and> j < le_scan edge n ns i \<longrightarrow> edge j < ns)"
  using assms
proof (induction edge n ns i rule: le_scan.induct)
  case (1 edge n ns i)
  show ?case
  proof (cases "i < n \<and> \<not> ns \<le> edge i")
    case True
    then have i1: "unat (i + 1) = Suc (unat i)" "i + 1 \<le> n"
      using unat_Suc_less[of i n] by (auto simp: word_le_nat_alt word_less_nat_alt)
    have s: "le_scan edge n ns i = le_scan edge n ns (i + 1)"
      using True by (intro le_scan_next) auto
    have IH: "i + 1 \<le> le_scan edge n ns (i + 1)" "le_scan edge n ns (i + 1) \<le> n"
      "le_scan edge n ns (i + 1) < n \<longrightarrow> ns \<le> edge (le_scan edge n ns (i + 1))"
      "\<forall>j. i + 1 \<le> j \<and> j < le_scan edge n ns (i + 1) \<longrightarrow> edge j < ns"
      using 1(1) True i1(2) by blast+
    have "i \<le> i + 1" using i1 by (simp add: word_le_nat_alt)
    then have "i \<le> le_scan edge n ns (i + 1)" using IH(1) by (rule order_trans)
    moreover have "edge j < ns" if "i \<le> j" "j < le_scan edge n ns (i + 1)" for j
    proof (cases "j = i")
      case False
      then have "unat i < unat j" using that(1) by (simp add: word_le_nat_alt word_unat_eq_iff)
      then have "i + 1 \<le> j" using i1(1) by (simp add: word_le_nat_alt)
      then show ?thesis using IH(4) that(2) by blast
    qed (use True in \<open>simp add: not_le\<close>)
    ultimately show ?thesis
      unfolding s using IH(2,3) by blast
  next
    case False
    then show ?thesis using 1(2) le_scan_stop[of i n ns edge] by (auto simp: not_less)
  qed
qed

section \<open>The histogram contract\<close>

locale le_histogram =
  fixes edge :: "u32 \<Rightarrow> u64" and nedges :: u32 and bucket :: "u64 \<Rightarrow> u32"
  assumes bucket_scan: "bucket ns = le_scan edge nedges ns 0"
    and inf_edge: "edge nedges = U64_MAX"
begin

lemma bucket_range: "bucket ns \<le> nedges"
  using le_scan_bounds[of 0 nedges edge ns] by (simp add: bucket_scan)

lemma bucket_upper: "ns \<le> edge (bucket ns)"
proof (cases "bucket ns < nedges")
  case True
  then show ?thesis using le_scan_bounds[of 0 nedges edge ns] by (simp add: bucket_scan)
next
  case False
  then have "edge (bucket ns) = U64_MAX" using bucket_range[of ns] inf_edge by simp
  then show ?thesis using unat_bound[of ns] by (simp add: word_le_nat_alt)
qed

lemma bucket_least: "j < bucket ns \<Longrightarrow> edge j < ns"
  using le_scan_bounds[of 0 nedges edge ns] by (simp add: bucket_scan)

lemma bucket_mono: "ns \<le> ns' \<Longrightarrow> bucket ns \<le> bucket ns'"
  using bucket_least[of "bucket ns'" ns] bucket_upper[of ns'] by (meson leD leI order_trans)

end

interpretation ia_hist: le_histogram urp_hist_edge_ns URP_HIST_NEDGES urp_hist_bucket
  by unfold_locales (simp_all add: urp_hist_bucket_def urp_hist_edge_ns_def)

interpretation owd_hist: le_histogram urp_owd_edge_ns URP_OWD_NEDGES urp_owd_bucket
  by unfold_locales (simp_all add: urp_owd_bucket_def urp_owd_edge_ns_def)

lemma urp_hist_bucket_index: "unat (urp_hist_bucket ns) < 15"
  using ia_hist.bucket_range[of ns]
  by (simp add: URP_HIST_NEDGES_def URP_HIST_NBUCKETS_def word_le_nat_alt)

lemma urp_owd_bucket_index: "unat (urp_owd_bucket ns) < 14"
  using owd_hist.bucket_range[of ns]
  by (simp add: URP_OWD_NEDGES_def URP_OWD_NBUCKETS_def word_le_nat_alt)

text \<open>C17: Both histograms classify a sample into the smallest bucket whose upper edge is not below
  it, the bucket index is inside the counter array, and the classification is monotone in the
  sample.\<close>

theorem histogram_buckets_correct:
  "unat (urp_hist_bucket ns) < 15 \<and> ns \<le> urp_hist_edge_ns (urp_hist_bucket ns) \<and>
   (\<forall>j. j < urp_hist_bucket ns \<longrightarrow> urp_hist_edge_ns j < ns) \<and>
   (ns \<le> ns' \<longrightarrow> urp_hist_bucket ns \<le> urp_hist_bucket ns') \<and>
   unat (urp_owd_bucket ns) < 14 \<and> ns \<le> urp_owd_edge_ns (urp_owd_bucket ns) \<and>
   (\<forall>j. j < urp_owd_bucket ns \<longrightarrow> urp_owd_edge_ns j < ns)"
  using urp_hist_bucket_index urp_owd_bucket_index ia_hist.bucket_upper ia_hist.bucket_least
    ia_hist.bucket_mono owd_hist.bucket_upper owd_hist.bucket_least by blast

theorem histogram_buckets_correct_witness:
  "urp_hist_bucket 600 = 2 \<and> (600 :: u64) \<le> urp_hist_edge_ns 2 \<and> urp_hist_edge_ns 1 < 600"
proof -
  have b: "urp_hist_bucket 600 = 2" by code_simp
  have "\<forall>j. j < (2 :: u32) \<longrightarrow> urp_hist_edge_ns j < 600" "(600 :: u64) \<le> urp_hist_edge_ns 2"
    using histogram_buckets_correct[of 600 600] unfolding b by blast+
  then show ?thesis using b by simp
qed

end
