(* ===== verification/Urp_Plan.thy ===== *)
theory Urp_Plan
  imports Urp_Prelude
begin

text \<open>
  The pure decisions the connection code consults (kernel/urp_conn_plan.h,
  kernel/urp_retry_plan.h, kernel/urp_lazy_plan.h) and the endpoint
  enumerations of kernel/include/uapi/linux/urp.h they are stated over.
\<close>

section \<open>Endpoint and queue-pair enumerations\<close>

datatype urp_ep_mode = URP_EP_MODE_MULTISTREAM | URP_EP_MODE_K0

datatype urp_ep_kind = URP_EP_KIND_UDS | URP_EP_KIND_FAST

datatype urp_endpoint_state =
  URP_STATE_CREATING | URP_STATE_ACTIVE | URP_STATE_DRAINING | URP_STATE_STOPPED

datatype urp_qp_state =
  URP_QP_STATE_QUALIFYING | URP_QP_STATE_ACTIVE | URP_QP_STATE_DRAINING | URP_QP_STATE_REMOVED

section \<open>Decisions\<close>

definition urp_should_start_lazy_connect :: "bool \<Rightarrow> bool \<Rightarrow> bool" where
  "urp_should_start_lazy_connect is_initiator already_started \<longleftrightarrow> is_initiator \<and> \<not> already_started"

definition urp_should_retry_connect :: "bool \<Rightarrow> u32 \<Rightarrow> u32 \<Rightarrow> bool" where
  "urp_should_retry_connect is_initiator attempts max_attempts \<longleftrightarrow>
    is_initiator \<and> attempts < max_attempts"

definition urp_connect_backoff_ms :: "u32 \<Rightarrow> u32 \<Rightarrow> u32 \<Rightarrow> u32" where
  "urp_connect_backoff_ms attempt base_ms ceil_ms =
    (let shift = (if attempt < 20 then attempt else 20);
         ms = push_bit (unat shift) (ucast base_ms :: u64)
     in if ms > ucast ceil_ms then ceil_ms else ucast ms)"

definition urp_should_emit_probes :: "bool \<Rightarrow> u32 \<Rightarrow> bool" where
  "urp_should_emit_probes is_initiator num_qps \<longleftrightarrow> num_qps > 1 \<or> is_initiator"

definition urp_silent_drop_should_reconnect :: "bool \<Rightarrow> bool \<Rightarrow> bool" where
  "urp_silent_drop_should_reconnect is_initiator was_established \<longleftrightarrow>
    is_initiator \<and> was_established"

definition urp_acceptor_should_eager_connect :: "urp_ep_mode \<Rightarrow> bool \<Rightarrow> bool" where
  "urp_acceptor_should_eager_connect mode have_connect_path \<longleftrightarrow>
    have_connect_path \<and> mode = URP_EP_MODE_K0"

definition urp_acceptor_should_release_slot :: "bool \<Rightarrow> bool \<Rightarrow> bool" where
  "urp_acceptor_should_release_slot is_initiator slot_held \<longleftrightarrow> \<not> is_initiator \<and> slot_held"

definition urp_should_unlink_listen_path :: "bool \<Rightarrow> bool \<Rightarrow> bool" where
  "urp_should_unlink_listen_path is_initiator listen_path_set \<longleftrightarrow> is_initiator \<and> listen_path_set"

datatype urp_slot_decision = URP_SLOT_REJECT | URP_SLOT_FRESH | URP_SLOT_REUSE

text \<open>The second component is the value of out_index, None when it is not written.\<close>

definition urp_acceptor_slot_decide ::
    "bool \<Rightarrow> u32 \<Rightarrow> u32 \<Rightarrow> u32 \<Rightarrow> bool \<Rightarrow> urp_slot_decision \<times> u32 option" where
  "urp_acceptor_slot_decide have_peer_index peer_qp_index counter_index num_qps slot_occupied =
    (let idx = (if have_peer_index then peer_qp_index else counter_index)
     in if num_qps \<le> idx then (URP_SLOT_REJECT, None)
        else (if slot_occupied then URP_SLOT_REUSE else URP_SLOT_FRESH, Some idx))"

definition urp_window_negotiate :: "bool \<Rightarrow> bool \<Rightarrow> bool" where
  "urp_window_negotiate local_advertise peer_advertise \<longleftrightarrow> local_advertise \<and> peer_advertise"

definition urp_tstamp_negotiate :: "bool \<Rightarrow> bool \<Rightarrow> bool" where
  "urp_tstamp_negotiate local_sample peer_advertise \<longleftrightarrow> local_sample \<and> peer_advertise"

section \<open>Backoff\<close>

lemma unat_connect_backoff:
  "unat (urp_connect_backoff_ms attempt base_ms ceil_ms) =
    min (unat ceil_ms) (unat base_ms * 2 ^ min 20 (unat attempt))"
proof -
  define sh where "sh = (if attempt < 20 then attempt else 20)"
  have sh: "unat sh = min 20 (unat attempt)"
    by (auto simp: sh_def word_less_nat_alt)
  have "unat base_ms * 2 ^ unat sh < 2 ^ 32 * 2 ^ 20"
  proof (rule mult_less_le_imp_less)
    show "unat base_ms < 2 ^ 32" using unat_bound[of base_ms] by simp
    show "(2 :: nat) ^ unat sh \<le> 2 ^ 20" unfolding sh by (intro power_increasing) simp_all
  qed simp_all
  then have lt: "unat base_ms * 2 ^ unat sh < 2 ^ 64" by simp
  have ms: "unat (push_bit (unat sh) (ucast base_ms) :: u64) = unat base_ms * 2 ^ unat sh"
    using lt by (simp add: unsigned_push_bit_eq push_bit_eq_mult[where ?'a = nat] unat_ucast_up
        take_bit_nat_eq_self)
  have "unat (ucast (push_bit (unat sh) (ucast base_ms) :: u64) :: u32) = unat base_ms * 2 ^ unat sh"
    if "unat base_ms * 2 ^ unat sh \<le> unat ceil_ms"
    using that unat_bound[of ceil_ms] ms by (subst unat_ucast_small) simp_all
  then show ?thesis
    unfolding urp_connect_backoff_ms_def Let_def sh_def[symmetric] sh[symmetric]
    by (auto simp: word_less_nat_alt ms unat_ucast_up not_less)
qed

lemma backoff_mono:
  assumes "unat a \<le> unat a'"
  shows "urp_connect_backoff_ms a b c \<le> urp_connect_backoff_ms a' b c"
proof -
  have "min 20 (unat a) \<le> min 20 (unat a')" using assms by simp
  then have "unat b * 2 ^ min 20 (unat a) \<le> unat b * 2 ^ min 20 (unat a')"
    by (intro mult_le_mono2 power_increasing) simp_all
  then show ?thesis unfolding word_le_nat_alt unat_connect_backoff by linarith
qed

text \<open>The retry backoff is a capped exponential for every attempt count: it is the base
  doubled per attempt up to twenty doublings, clamped to the ceiling without overflow, it never
  decreases with the attempt, and an endpoint that exhausts its attempts stops retrying.\<close>

theorem connect_backoff_capped_exponential:
  "unat (urp_connect_backoff_ms attempt base_ms ceil_ms) =
     min (unat ceil_ms) (unat base_ms * 2 ^ min 20 (unat attempt)) \<and>
   urp_connect_backoff_ms attempt base_ms ceil_ms \<le> ceil_ms \<and>
   (unat attempt \<le> unat attempt' \<longrightarrow>
     urp_connect_backoff_ms attempt base_ms ceil_ms \<le> urp_connect_backoff_ms attempt' base_ms ceil_ms) \<and>
   (max_attempts \<le> attempt \<longrightarrow> \<not> urp_should_retry_connect ini attempt max_attempts)"
proof (intro conjI impI)
  show "urp_connect_backoff_ms attempt base_ms ceil_ms \<le> ceil_ms"
    unfolding word_le_nat_alt unat_connect_backoff by simp
qed (simp_all add: unat_connect_backoff backoff_mono urp_should_retry_connect_def not_less)

theorem connect_backoff_capped_exponential_witness:
  "unat (urp_connect_backoff_ms 3 250 30000) = 2000 \<and>
   urp_connect_backoff_ms 3 250 30000 \<le> urp_connect_backoff_ms 9 250 30000 \<and>
   \<not> urp_should_retry_connect True 3 3"
  using connect_backoff_capped_exponential[of 3 250 30000 9 3 True] by simp

end
