(* ===== verification/Urp_Stream_SM.thy ===== *)
theory Urp_Stream_SM
  imports Urp_Prelude
begin

text \<open>
  The stream state machine (kernel/urp_stream_sm.h, kernel/urp_stream_sm.c and
  the stream states of kernel/include/uapi/linux/urp.h): a pure transition
  function that returns the next state, the socket actions the caller must
  apply, and whether the event was accepted.
\<close>

section \<open>States, events, transition\<close>

datatype urp_stream_state =
    URP_STREAM_STATE_SYN_SENT | URP_STREAM_STATE_SYN_RECEIVED | URP_STREAM_STATE_ESTABLISHED
  | URP_STREAM_STATE_FIN_WAIT | URP_STREAM_STATE_CLOSE_WAIT | URP_STREAM_STATE_CLOSED

datatype urp_stream_event =
    URP_STREAM_EV_RX_SYN | URP_STREAM_EV_RX_FIN | URP_STREAM_EV_RX_RST
  | URP_STREAM_EV_TX_FIN | URP_STREAM_EV_TX_RST

definition URP_STREAM_ACT_SHUTDOWN_WR :: u32 where "URP_STREAM_ACT_SHUTDOWN_WR = 1"
definition URP_STREAM_ACT_SHUTDOWN_RDWR :: u32 where "URP_STREAM_ACT_SHUTDOWN_RDWR = 2"
definition URP_STREAM_ACT_DESTROY :: u32 where "URP_STREAM_ACT_DESTROY = 4"

record urp_stream_transition =
  tr_next :: urp_stream_state
  tr_actions :: u32
  tr_accepted :: bool

definition urp_stream_next_state ::
    "urp_stream_state \<Rightarrow> urp_stream_event \<Rightarrow> urp_stream_transition" where
  "urp_stream_next_state cur ev =
    (let t = \<lparr> tr_next = cur, tr_actions = 0, tr_accepted = True \<rparr>
     in case ev of
          URP_STREAM_EV_RX_SYN \<Rightarrow>
            if cur = URP_STREAM_STATE_SYN_SENT \<or> cur = URP_STREAM_STATE_SYN_RECEIVED \<or>
               cur = URP_STREAM_STATE_ESTABLISHED
            then t\<lparr>tr_next := URP_STREAM_STATE_ESTABLISHED\<rparr>
            else t\<lparr>tr_accepted := False\<rparr>
        | URP_STREAM_EV_RX_FIN \<Rightarrow>
            (let t = t\<lparr>tr_actions := URP_STREAM_ACT_SHUTDOWN_WR\<rparr>
             in if cur = URP_STREAM_STATE_ESTABLISHED
                  then t\<lparr>tr_next := URP_STREAM_STATE_CLOSE_WAIT\<rparr>
                else if cur = URP_STREAM_STATE_FIN_WAIT
                  then t\<lparr>tr_next := URP_STREAM_STATE_CLOSED\<rparr>
                else t)
        | URP_STREAM_EV_RX_RST \<Rightarrow>
            t\<lparr>tr_next := URP_STREAM_STATE_CLOSED,
              tr_actions := URP_STREAM_ACT_SHUTDOWN_RDWR OR URP_STREAM_ACT_DESTROY\<rparr>
        | URP_STREAM_EV_TX_FIN \<Rightarrow>
            if cur = URP_STREAM_STATE_ESTABLISHED
              then t\<lparr>tr_next := URP_STREAM_STATE_FIN_WAIT\<rparr>
            else if cur = URP_STREAM_STATE_CLOSE_WAIT
              then t\<lparr>tr_next := URP_STREAM_STATE_CLOSED\<rparr>
            else t
        | URP_STREAM_EV_TX_RST \<Rightarrow>
            t\<lparr>tr_next := URP_STREAM_STATE_CLOSED,
              tr_actions := URP_STREAM_ACT_SHUTDOWN_RDWR\<rparr>)"

lemmas sm_defs = urp_stream_next_state_def URP_STREAM_ACT_SHUTDOWN_WR_def
  URP_STREAM_ACT_SHUTDOWN_RDWR_def URP_STREAM_ACT_DESTROY_def

definition run_events :: "urp_stream_state \<Rightarrow> urp_stream_event list \<Rightarrow> urp_stream_state" where
  "run_events = foldl (\<lambda>s e. tr_next (urp_stream_next_state s e))"

section \<open>Runs of the machine\<close>

primrec sm_rank :: "urp_stream_state \<Rightarrow> nat" where
  "sm_rank URP_STREAM_STATE_SYN_SENT = 0"
| "sm_rank URP_STREAM_STATE_SYN_RECEIVED = 0"
| "sm_rank URP_STREAM_STATE_ESTABLISHED = 1"
| "sm_rank URP_STREAM_STATE_FIN_WAIT = 2"
| "sm_rank URP_STREAM_STATE_CLOSE_WAIT = 2"
| "sm_rank URP_STREAM_STATE_CLOSED = 3"

lemma sm_step_rank: "sm_rank s \<le> sm_rank (tr_next (urp_stream_next_state s e))"
  by (cases s; cases e; simp add: sm_defs)

lemma run_events_Nil [simp]: "run_events s [] = s"
  by (simp add: run_events_def)

lemma run_events_Cons [simp]:
  "run_events s (e # es) = run_events (tr_next (urp_stream_next_state s e)) es"
  by (simp add: run_events_def)

lemma sm_run_rank: "sm_rank s \<le> sm_rank (run_events s es)"
  by (induction es arbitrary: s) (auto intro: order_trans[OF sm_step_rank])

lemma sm_run_closed: "run_events URP_STREAM_STATE_CLOSED es = URP_STREAM_STATE_CLOSED"
  using sm_run_rank[of URP_STREAM_STATE_CLOSED es]
  by (cases "run_events URP_STREAM_STATE_CLOSED es") simp_all

lemma sm_rst_closes:
  "e = URP_STREAM_EV_RX_RST \<or> e = URP_STREAM_EV_TX_RST \<Longrightarrow>
    tr_next (urp_stream_next_state s e) = URP_STREAM_STATE_CLOSED"
  by (auto simp: sm_defs)

lemma sm_run_rst:
  "URP_STREAM_EV_RX_RST \<in> set es \<or> URP_STREAM_EV_TX_RST \<in> set es \<Longrightarrow>
    run_events s es = URP_STREAM_STATE_CLOSED"
proof (induction es arbitrary: s)
  case (Cons e es)
  then show ?case using sm_rst_closes[of e s] sm_run_closed by auto
qed simp

text \<open>C14: The stream state machine only moves forward: over any sequence of events the
  handshake/open/half-closed/closed rank never decreases, closed is final, a reset of either side
  closes the stream whatever else happened, both directions finishing in either order closes an
  established stream, a late handshake is rejected exactly in the closing states, and only a peer
  reset asks for the stream to be destroyed.\<close>

theorem stream_machine_monotone:
  "sm_rank s \<le> sm_rank (run_events s es) \<and>
   run_events URP_STREAM_STATE_CLOSED es = URP_STREAM_STATE_CLOSED \<and>
   (URP_STREAM_EV_RX_RST \<in> set es \<or> URP_STREAM_EV_TX_RST \<in> set es \<longrightarrow>
     run_events s es = URP_STREAM_STATE_CLOSED) \<and>
   run_events URP_STREAM_STATE_ESTABLISHED [URP_STREAM_EV_RX_FIN, URP_STREAM_EV_TX_FIN] =
     URP_STREAM_STATE_CLOSED \<and>
   run_events URP_STREAM_STATE_ESTABLISHED [URP_STREAM_EV_TX_FIN, URP_STREAM_EV_RX_FIN] =
     URP_STREAM_STATE_CLOSED \<and>
   (tr_accepted (urp_stream_next_state s e) \<longleftrightarrow> e \<noteq> URP_STREAM_EV_RX_SYN \<or> sm_rank s < 2) \<and>
   (tr_actions (urp_stream_next_state s e) AND URP_STREAM_ACT_DESTROY \<noteq> 0 \<longleftrightarrow>
     e = URP_STREAM_EV_RX_RST)"
proof -
  have "tr_accepted (urp_stream_next_state s e) \<longleftrightarrow> e \<noteq> URP_STREAM_EV_RX_SYN \<or> sm_rank s < 2"
    by (cases s; cases e; simp add: sm_defs)
  moreover have "tr_actions (urp_stream_next_state s e) AND URP_STREAM_ACT_DESTROY \<noteq> 0 \<longleftrightarrow>
     e = URP_STREAM_EV_RX_RST"
    by (cases s; cases e; simp add: sm_defs)
  ultimately show ?thesis
    using sm_run_rank sm_run_closed sm_run_rst by (simp add: sm_defs)
qed

theorem stream_machine_monotone_witness:
  "run_events URP_STREAM_STATE_SYN_SENT [URP_STREAM_EV_RX_SYN, URP_STREAM_EV_RX_RST,
     URP_STREAM_EV_TX_FIN] = URP_STREAM_STATE_CLOSED"
  using stream_machine_monotone[of URP_STREAM_STATE_SYN_SENT
      "[URP_STREAM_EV_RX_SYN, URP_STREAM_EV_RX_RST, URP_STREAM_EV_TX_FIN]" URP_STREAM_EV_RX_SYN]
  by simp

end
