(* ===== verification/Urp_Reorder.thy ===== *)
theory Urp_Reorder
  imports Urp_Prelude "HOL-Library.RBT_Impl"
begin

text \<open>
  The per-stream reorder buffer (kernel/urp_reorder.c).  The pending tree of
  the kernel's rbtree library is a red-black tree of HOL-Library; the drained
  list is a list in queue order.  A kmalloc is a parameter: a predicate on the
  state in which the allocation is attempted.  The second half gives the buffer
  its contract, that frames come out in sequence order exactly once, as a
  locale, and shows that this implementation meets it.
\<close>

section \<open>State and operations\<close>

record urp_reorder =
  ro_pending :: "(u64, bytes) rbt"
  ro_drained :: "(u64 \<times> bytes) list"
  ro_next_expected :: u64
  ro_pending_count :: u32
  ro_drain_count :: u32
  ro_max_buffered :: u32

type_synonym kmalloc_ok = "urp_reorder \<Rightarrow> bool"

definition urp_reorder_alloc :: "bool \<Rightarrow> u64 \<Rightarrow> u32 \<Rightarrow> urp_reorder option" where
  "urp_reorder_alloc kzalloc_ok initial_expected max_buffered =
    (if max_buffered = 0 then None
     else if \<not> kzalloc_ok then None
     else Some \<lparr> ro_pending = RBT_Impl.Empty, ro_drained = [], ro_next_expected = initial_expected,
                 ro_pending_count = 0, ro_drain_count = 0, ro_max_buffered = max_buffered \<rparr>)"

definition urp_reorder_clear :: "urp_reorder \<Rightarrow> urp_reorder" where
  "urp_reorder_clear rb =
    rb\<lparr>ro_pending := RBT_Impl.Empty, ro_pending_count := 0, ro_drained := [], ro_drain_count := 0\<rparr>"

fun urp_reorder_lookup :: "(u64, bytes) rbt \<Rightarrow> u64 \<Rightarrow> bytes option" where
  "urp_reorder_lookup RBT_Impl.Empty seq = None"
| "urp_reorder_lookup (Branch _ l nseq nd r) seq =
    (if seq < nseq then urp_reorder_lookup l seq
     else if nseq < seq then urp_reorder_lookup r seq
     else Some nd)"

fun rb_first :: "(u64, bytes) rbt \<Rightarrow> (u64 \<times> bytes) option" where
  "rb_first RBT_Impl.Empty = None"
| "rb_first (Branch _ RBT_Impl.Empty k v _) = Some (k, v)"
| "rb_first (Branch _ l _ _ _) = rb_first l"

text \<open>One iteration of the drain loop; None when the loop ends.\<close>

definition drain_iter :: "kmalloc_ok \<Rightarrow> urp_reorder \<Rightarrow> urp_reorder option" where
  "drain_iter kmalloc rb =
    (case rb_first (ro_pending rb) of
       None \<Rightarrow> None
     | Some (seq, d) \<Rightarrow>
         if seq \<noteq> ro_next_expected rb then None
         else if \<not> kmalloc rb then None
         else Some (rb\<lparr>ro_drained := ro_drained rb @ [(seq, d)],
                       ro_drain_count := ro_drain_count rb + 1,
                       ro_pending := rbt_delete seq (ro_pending rb),
                       ro_pending_count := ro_pending_count rb - 1,
                       ro_next_expected :=
                         (if ro_next_expected rb \<noteq> U64_MAX then ro_next_expected rb + 1
                          else ro_next_expected rb)\<rparr>))"

primrec drain_loop :: "kmalloc_ok \<Rightarrow> nat \<Rightarrow> urp_reorder \<Rightarrow> urp_reorder" where
  "drain_loop kmalloc 0 rb = rb"
| "drain_loop kmalloc (Suc n) rb =
    (case drain_iter kmalloc rb of None \<Rightarrow> rb | Some rb' \<Rightarrow> drain_loop kmalloc n rb')"

text \<open>Every iteration erases a node, so the number of nodes bounds the loop.\<close>

definition urp_reorder_drain_prefix :: "kmalloc_ok \<Rightarrow> urp_reorder \<Rightarrow> urp_reorder" where
  "urp_reorder_drain_prefix kmalloc rb =
    drain_loop kmalloc (length (RBT_Impl.entries (ro_pending rb))) rb"

definition urp_reorder_insert ::
    "kmalloc_ok \<Rightarrow> urp_reorder option \<Rightarrow> u64 \<Rightarrow> bytes option \<Rightarrow> nat \<Rightarrow> urp_reorder result" where
  "urp_reorder_insert kmalloc rb seq data data_len =
    (case rb of None \<Rightarrow> Inl EINVAL
     | Some rb \<Rightarrow>
        if data_len \<noteq> 0 \<and> data = None then Inl EINVAL
        else if seq < ro_next_expected rb then Inl EEXIST
        else if urp_reorder_lookup (ro_pending rb) seq \<noteq> None then Inl EEXIST
        else if ro_max_buffered rb \<le> ro_pending_count rb \<and> seq \<noteq> ro_next_expected rb
          then Inl ENOBUFS
        else if \<not> kmalloc rb then Inl ENOMEM
        else
          let payload = (case data of None \<Rightarrow> [] | Some p \<Rightarrow> take data_len p);
              rb = rb\<lparr>ro_pending := rbt_insert seq payload (ro_pending rb),
                      ro_pending_count := ro_pending_count rb + 1\<rparr>
          in Inr (urp_reorder_drain_prefix kmalloc rb))"

definition urp_reorder_advance :: "kmalloc_ok \<Rightarrow> urp_reorder option \<Rightarrow> urp_reorder option" where
  "urp_reorder_advance kmalloc rb =
    map_option (\<lambda>rb. urp_reorder_drain_prefix kmalloc
      (if ro_next_expected rb \<noteq> U64_MAX
       then rb\<lparr>ro_next_expected := ro_next_expected rb + 1\<rparr> else rb)) rb"

text \<open>On failure the second component is the length the caller reads back.\<close>

definition urp_reorder_drain_next ::
    "urp_reorder option \<Rightarrow> nat \<Rightarrow> (errno \<times> nat) + (urp_reorder \<times> u64 \<times> bytes)" where
  "urp_reorder_drain_next rb inout_len =
    (case rb of None \<Rightarrow> Inl (EINVAL, inout_len)
     | Some rb \<Rightarrow>
        (case ro_drained rb of
           [] \<Rightarrow> Inl (ENOENT, inout_len)
         | (seq, d) # ds \<Rightarrow>
             if inout_len < length d then Inl (ENOBUFS, length d)
             else Inr (rb\<lparr>ro_drained := ds, ro_drain_count := ro_drain_count rb - 1\<rparr>, seq, d)))"

definition urp_reorder_next_expected :: "urp_reorder option \<Rightarrow> u64" where
  "urp_reorder_next_expected rb = (case rb of None \<Rightarrow> 0 | Some rb \<Rightarrow> ro_next_expected rb)"

definition urp_reorder_gap_count :: "urp_reorder option \<Rightarrow> u32" where
  "urp_reorder_gap_count rb = (case rb of None \<Rightarrow> 0 | Some rb \<Rightarrow> ro_pending_count rb)"

definition urp_reorder_drain_pending :: "urp_reorder option \<Rightarrow> u32" where
  "urp_reorder_drain_pending rb = (case rb of None \<Rightarrow> 0 | Some rb \<Rightarrow> ro_drain_count rb)"

section \<open>The tree as a finite map\<close>

lemma urp_reorder_lookup_rbt: "urp_reorder_lookup t = rbt_lookup t"
proof
  fix seq show "urp_reorder_lookup t seq = rbt_lookup t seq"
    by (induction t) auto
qed

lemma rb_first_hd:
  "rb_first t = (if t = RBT_Impl.Empty then None else Some (hd (RBT_Impl.entries t)))"
  by (induction t rule: rb_first.induct) (auto simp: hd_append)

lemma rb_first_entries:
  "rb_first t = (case RBT_Impl.entries t of [] \<Rightarrow> None | e # _ \<Rightarrow> Some e)"
  by (cases t) (auto simp: rb_first_hd split: list.splits)

lemma rb_first_None:
  assumes "is_rbt t"
  shows "rb_first t = None \<longleftrightarrow> rbt_lookup t = Map.empty"
proof -
  have "rb_first t = None \<longleftrightarrow> RBT_Impl.entries t = []"
    by (simp add: rb_first_entries split: list.splits)
  then show ?thesis
    using map_of_entries[of t] assms by (metis empty_eq_map_of_iff is_rbt_rbt_sorted)
qed

lemma rb_first_Some:
  assumes "is_rbt t" "rb_first t = Some (k, v)"
  shows "rbt_lookup t k = Some v" "\<And>k' v'. rbt_lookup t k' = Some v' \<Longrightarrow> k \<le> k'"
proof -
  obtain es where es: "RBT_Impl.entries t = (k, v) # es"
    using assms(2) by (auto simp: rb_first_entries split: list.splits)
  have s: "rbt_sorted t" using assms(1) by simp
  show "rbt_lookup t k = Some v" using rbt_lookup_in_tree[OF s, of k v] es by simp
  fix k' v' assume "rbt_lookup t k' = Some v'"
  then have "(k', v') \<in> set ((k, v) # es)" using rbt_lookup_in_tree[OF s, of k' v'] es by simp
  moreover have "sorted (map fst ((k, v) # es))" using rbt_sorted_entries[OF s] es by simp
  ultimately show "k \<le> k'" by force
qed

lemma length_entries:
  assumes "is_rbt t"
  shows "length (RBT_Impl.entries t) = card (dom (rbt_lookup t))"
proof -
  have "distinct (map fst (RBT_Impl.entries t))"
    using assms distinct_entries is_rbt_rbt_sorted by blast
  then have "card (set (map fst (RBT_Impl.entries t))) = length (map fst (RBT_Impl.entries t))"
    by (rule distinct_card)
  then show ?thesis
    using map_of_entries[of t] assms
    by (metis dom_map_of_conv_image_fst is_rbt_rbt_sorted length_map set_map)
qed

section \<open>Invariant of the buffer\<close>

text \<open>
  The buffer is consistent with a stream whose frame number i carries D i: the
  tree holds only such frames, the drained list is the run of frames that ends
  just below next_expected, and the counters count.
\<close>

definition stream_run :: "(u64 \<Rightarrow> bytes) \<Rightarrow> nat \<Rightarrow> nat \<Rightarrow> (u64 \<times> bytes) list" where
  "stream_run D i j = map (\<lambda>n. (of_nat n, D (of_nat n))) [i..<j]"

definition ro_cursor :: "urp_reorder \<Rightarrow> nat" where
  "ro_cursor rb = unat (ro_next_expected rb) - length (ro_drained rb)"

definition ro_ok :: "(u64 \<Rightarrow> bytes) \<Rightarrow> urp_reorder \<Rightarrow> bool" where
  "ro_ok D rb \<longleftrightarrow>
    is_rbt (ro_pending rb) \<and>
    (\<forall>s d. rbt_lookup (ro_pending rb) s = Some d \<longrightarrow> d = D s \<and> s \<noteq> U64_MAX) \<and>
    length (ro_drained rb) \<le> unat (ro_next_expected rb) \<and>
    ro_drained rb = stream_run D (ro_cursor rb) (unat (ro_next_expected rb)) \<and>
    ro_pending_count rb = of_nat (card (dom (rbt_lookup (ro_pending rb)))) \<and>
    ro_drain_count rb = of_nat (length (ro_drained rb))"

lemma length_stream_run [simp]: "length (stream_run D i j) = j - i"
  by (simp add: stream_run_def)

lemma stream_run_snoc: "i \<le> j \<Longrightarrow> stream_run D i (Suc j) = stream_run D i j @ [(of_nat j, D (of_nat j))]"
  by (simp add: stream_run_def)

lemma stream_run_Cons: "i < j \<Longrightarrow> stream_run D i j = (of_nat i, D (of_nat i)) # stream_run D (Suc i) j"
  by (simp add: stream_run_def upt_conv_Cons)

lemma stream_run_append: "i \<le> j \<Longrightarrow> j \<le> k \<Longrightarrow> stream_run D i j @ stream_run D j k = stream_run D i k"
  using upt_add_eq_append[of i j "k - j"] by (simp add: stream_run_def)

lemma stream_run_empty [simp]: "stream_run D i i = []"
  by (simp add: stream_run_def)

lemma of_nat_card_diff:
  fixes c :: u32
  assumes "finite A" "x \<in> A"
  shows "of_nat (card (A - {x})) = (of_nat (card A) - 1 :: u32)"
proof -
  have "card A = Suc (card (A - {x}))" by (rule card_Suc_Diff1[OF assms, symmetric])
  then show ?thesis by simp
qed

lemma drain_iter_ok:
  assumes "ro_ok D rb" "drain_iter kmalloc rb = Some rb'"
  shows "ro_ok D rb'" "ro_cursor rb' = ro_cursor rb"
    "unat (ro_next_expected rb') = Suc (unat (ro_next_expected rb))"
    "ro_max_buffered rb' = ro_max_buffered rb"
    "rbt_lookup (ro_pending rb) (ro_next_expected rb) \<noteq> None"
    "rbt_lookup (ro_pending rb') = (rbt_lookup (ro_pending rb))(ro_next_expected rb := None)"
proof -
  let ?n = "ro_next_expected rb"
  obtain d where f: "rb_first (ro_pending rb) = Some (?n, d)"
    and rb': "rb' = rb\<lparr>ro_drained := ro_drained rb @ [(?n, d)],
       ro_drain_count := ro_drain_count rb + 1, ro_pending := rbt_delete ?n (ro_pending rb),
       ro_pending_count := ro_pending_count rb - 1,
       ro_next_expected := (if ?n \<noteq> U64_MAX then ?n + 1 else ?n)\<rparr>"
    using assms(2) by (auto simp: drain_iter_def split: option.splits prod.splits if_splits)
  have t: "is_rbt (ro_pending rb)" using assms(1) by (simp add: ro_ok_def)
  have look: "rbt_lookup (ro_pending rb) ?n = Some d" by (rule rb_first_Some(1)[OF t f])
  then have d: "d = D ?n" "?n \<noteq> U64_MAX" using assms(1) by (auto simp: ro_ok_def)
  have lt: "?n < U64_MAX"
    using d(2) unat_bound[of ?n] by (simp add: word_less_nat_alt word_unat_eq_iff)
  then show nx: "unat (ro_next_expected rb') = Suc (unat ?n)"
    using unat_Suc_less[of ?n U64_MAX] d(2) by (simp add: rb')
  show cur: "ro_cursor rb' = ro_cursor rb" using nx by (simp add: ro_cursor_def rb')
  show "ro_max_buffered rb' = ro_max_buffered rb" by (simp add: rb')
  show del: "rbt_lookup (ro_pending rb') = (rbt_lookup (ro_pending rb))(?n := None)"
    using rbt_lookup_rbt_delete[OF t, of ?n] by (auto simp: rb' restrict_map_def fun_eq_iff)
  show "rbt_lookup (ro_pending rb) ?n \<noteq> None" using look by simp
  have ok: "\<forall>s d. rbt_lookup (ro_pending rb) s = Some d \<longrightarrow> d = D s \<and> s \<noteq> U64_MAX"
    "length (ro_drained rb) \<le> unat ?n" "ro_drained rb = stream_run D (ro_cursor rb) (unat ?n)"
    "ro_pending_count rb = of_nat (card (dom (rbt_lookup (ro_pending rb))))"
    "ro_drain_count rb = of_nat (length (ro_drained rb))"
    using assms(1) unfolding ro_ok_def by blast+
  have le: "ro_cursor rb \<le> unat ?n" by (simp add: ro_cursor_def)
  show "ro_ok D rb'"
    unfolding ro_ok_def
  proof (intro conjI)
    show "is_rbt (ro_pending rb')" using t by (simp add: rb')
    show "\<forall>s d. rbt_lookup (ro_pending rb') s = Some d \<longrightarrow> d = D s \<and> s \<noteq> U64_MAX"
      using ok(1) unfolding del by (simp split: if_splits)
    show "length (ro_drained rb') \<le> unat (ro_next_expected rb')"
      unfolding nx using ok(2) by (simp add: rb')
    show "ro_drained rb' = stream_run D (ro_cursor rb') (unat (ro_next_expected rb'))"
      unfolding nx cur stream_run_snoc[OF le] using ok(3) d(1) by (simp add: rb')
    have "?n \<in> dom (rbt_lookup (ro_pending rb))" using look by blast
    note cd = of_nat_card_diff[OF finite_dom_rbt_lookup this]
    have dom: "dom (rbt_lookup (ro_pending rb')) = dom (rbt_lookup (ro_pending rb)) - {?n}"
      unfolding del by auto
    have "ro_pending_count rb' = ro_pending_count rb - 1" by (simp add: rb')
    then show "ro_pending_count rb' = of_nat (card (dom (rbt_lookup (ro_pending rb'))))"
      unfolding dom cd ok(4) .
    show "ro_drain_count rb' = of_nat (length (ro_drained rb'))"
      using ok(5) by (simp add: rb')
  qed
qed

definition ro_between :: "urp_reorder \<Rightarrow> urp_reorder \<Rightarrow> u64 \<Rightarrow> bool" where
  "ro_between rb rb' s \<longleftrightarrow> ro_next_expected rb \<le> s \<and> s < ro_next_expected rb'"

text \<open>What a run of the drain loop did: it moved exactly the frames between the old and the new
  next_expected from the tree to the drained list.\<close>

definition drained_to :: "(u64 \<Rightarrow> bytes) \<Rightarrow> urp_reorder \<Rightarrow> urp_reorder \<Rightarrow> bool" where
  "drained_to D rb rb' \<longleftrightarrow>
    ro_ok D rb' \<and> ro_cursor rb' = ro_cursor rb \<and> ro_max_buffered rb' = ro_max_buffered rb \<and>
    ro_next_expected rb \<le> ro_next_expected rb' \<and>
    (\<forall>s. ro_between rb rb' s \<longrightarrow> rbt_lookup (ro_pending rb) s \<noteq> None) \<and>
    (\<forall>s. rbt_lookup (ro_pending rb') s =
      (if ro_between rb rb' s then None else rbt_lookup (ro_pending rb) s))"

lemma drained_to_refl: "ro_ok D rb \<Longrightarrow> drained_to D rb rb"
  by (auto simp: drained_to_def ro_between_def)

lemma drained_to_step:
  assumes "ro_ok D rb" "drain_iter kmalloc rb = Some rb1" "drained_to D rb1 rb2"
  shows "drained_to D rb rb2"
proof -
  note ok = drain_iter_ok[OF assms(1,2)]
  have iff: "ro_between rb rb2 s \<longleftrightarrow> s = ro_next_expected rb \<or> ro_between rb1 rb2 s" for s
    using assms(3) ok(3)
    by (auto simp: ro_between_def drained_to_def word_le_nat_alt word_less_nat_alt word_unat_eq_iff)
  have "ro_next_expected rb \<le> ro_next_expected rb2"
    using assms(3) ok(3) by (auto simp: drained_to_def word_le_nat_alt)
  moreover have "rbt_lookup (ro_pending rb) s \<noteq> None" if "ro_between rb rb2 s" for s
  proof (cases "s = ro_next_expected rb")
    case False
    then have "ro_between rb1 rb2 s" using that iff by simp
    then have "rbt_lookup (ro_pending rb1) s \<noteq> None" using assms(3) by (simp add: drained_to_def)
    then show ?thesis using False ok(6) by simp
  qed (use ok(5) in simp)
  moreover have "rbt_lookup (ro_pending rb2) s =
      (if ro_between rb rb2 s then None else rbt_lookup (ro_pending rb) s)" for s
    using assms(3) ok(6) unfolding iff by (simp add: drained_to_def)
  ultimately show ?thesis
    using assms(3) ok(2,4) unfolding drained_to_def by simp
qed

lemma drain_loop_ok: "ro_ok D rb \<Longrightarrow> drained_to D rb (drain_loop kmalloc n rb)"
proof (induction n arbitrary: rb)
  case (Suc n)
  show ?case
  proof (cases "drain_iter kmalloc rb")
    case (Some rb1)
    then show ?thesis
      using drained_to_step[OF Suc.prems Some] Suc.IH[OF drain_iter_ok(1)[OF Suc.prems Some]] by simp
  qed (use drained_to_refl[OF Suc.prems] in simp)
qed (simp add: drained_to_refl)

lemma drain_loop_stops:
  assumes "ro_ok D rb" "card (dom (rbt_lookup (ro_pending rb))) \<le> n"
  shows "drain_iter kmalloc (drain_loop kmalloc n rb) = None"
  using assms
proof (induction n arbitrary: rb)
  case 0
  then have "rbt_lookup (ro_pending rb) = Map.empty" by simp
  then have "rb_first (ro_pending rb) = None"
    using 0(1) rb_first_None by (auto simp: ro_ok_def)
  then show ?case by (simp add: drain_iter_def)
next
  case (Suc n)
  show ?case
  proof (cases "drain_iter kmalloc rb")
    case (Some rb1)
    note ok = drain_iter_ok[OF Suc.prems(1) Some]
    have "dom (rbt_lookup (ro_pending rb1)) = dom (rbt_lookup (ro_pending rb)) - {ro_next_expected rb}"
      unfolding ok(6) by auto
    then have "card (dom (rbt_lookup (ro_pending rb1))) \<le> n"
      using Suc.prems(2) ok(5) by (simp add: card_Diff_singleton domIff)
    then show ?thesis using Suc.IH[OF ok(1)] Some by simp
  qed simp
qed

lemma drain_prefix_ok:
  assumes "ro_ok D rb"
  shows "drained_to D rb (urp_reorder_drain_prefix kmalloc rb)"
    "drain_iter kmalloc (urp_reorder_drain_prefix kmalloc rb) = None"
proof -
  have "is_rbt (ro_pending rb)" using assms by (simp add: ro_ok_def)
  then show "drained_to D rb (urp_reorder_drain_prefix kmalloc rb)"
    "drain_iter kmalloc (urp_reorder_drain_prefix kmalloc rb) = None"
    unfolding urp_reorder_drain_prefix_def
    by (simp_all add: drain_loop_ok[OF assms] drain_loop_stops[OF assms] length_entries)
qed

section \<open>The contract of an in-order buffer and its client\<close>

text \<open>
  The client is the receive path: a frame that is the next expected is
  delivered at once and the buffer is advanced past it, any other frame is
  inserted, and in both cases everything that became contiguous is drained.
  It is stated over the operations it calls.
\<close>

primrec drain_all ::
    "('rb \<Rightarrow> ((u64 \<times> bytes) \<times> 'rb) option) \<Rightarrow> nat \<Rightarrow> 'rb \<Rightarrow> (u64 \<times> bytes) list \<times> 'rb" where
  "drain_all pop 0 b = ([], b)"
| "drain_all pop (Suc n) b =
    (case pop b of
       None \<Rightarrow> ([], b)
     | Some (f, b') \<Rightarrow> (let (fs, b'') = drain_all pop n b' in (f # fs, b'')))"

definition rx_frame ::
    "('rb \<Rightarrow> u64) \<Rightarrow> ('rb \<Rightarrow> u64 \<Rightarrow> bytes \<Rightarrow> errno + 'rb) \<Rightarrow> ('rb \<Rightarrow> 'rb) \<Rightarrow>
     ('rb \<Rightarrow> ((u64 \<times> bytes) \<times> 'rb) option) \<Rightarrow> ('rb \<Rightarrow> nat) \<Rightarrow> 'rb \<Rightarrow> u64 \<times> bytes \<Rightarrow>
     (u64 \<times> bytes) list \<times> 'rb" where
  "rx_frame nxt ins skip pop avail b f =
    (if fst f = nxt b then
       let b1 = skip b; (out, b2) = drain_all pop (avail b1) b1 in (f # out, b2)
     else
       let b1 = (case ins b (fst f) (snd f) of Inl _ \<Rightarrow> b | Inr b1 \<Rightarrow> b1)
       in drain_all pop (avail b1) b1)"

primrec rx_frames ::
    "('rb \<Rightarrow> u64) \<Rightarrow> ('rb \<Rightarrow> u64 \<Rightarrow> bytes \<Rightarrow> errno + 'rb) \<Rightarrow> ('rb \<Rightarrow> 'rb) \<Rightarrow>
     ('rb \<Rightarrow> ((u64 \<times> bytes) \<times> 'rb) option) \<Rightarrow> ('rb \<Rightarrow> nat) \<Rightarrow> 'rb \<Rightarrow> (u64 \<times> bytes) list \<Rightarrow>
     (u64 \<times> bytes) list \<times> 'rb" where
  "rx_frames nxt ins skip pop avail b [] = ([], b)"
| "rx_frames nxt ins skip pop avail b (f # fs) =
    (let (out, b1) = rx_frame nxt ins skip pop avail b f;
         (outs, b2) = rx_frames nxt ins skip pop avail b1 fs
     in (out @ outs, b2))"

locale in_order_buffer =
  fixes D :: "u64 \<Rightarrow> bytes"
    and invar :: "'rb \<Rightarrow> bool"
    and cursor :: "'rb \<Rightarrow> nat"
    and avail :: "'rb \<Rightarrow> nat"
    and nxt :: "'rb \<Rightarrow> u64"
    and ins :: "'rb \<Rightarrow> u64 \<Rightarrow> bytes \<Rightarrow> errno + 'rb"
    and skip :: "'rb \<Rightarrow> 'rb"
    and pop :: "'rb \<Rightarrow> ((u64 \<times> bytes) \<times> 'rb) option"
  assumes nxt_cursor: "invar b \<Longrightarrow> unat (nxt b) = cursor b + avail b"
    and ins_ok: "invar b \<Longrightarrow> s \<noteq> U64_MAX \<Longrightarrow> ins b s (D s) = Inr b' \<Longrightarrow>
      invar b' \<and> cursor b' = cursor b"
    and skip_ok: "invar b \<Longrightarrow> avail b = 0 \<Longrightarrow> nxt b \<noteq> U64_MAX \<Longrightarrow>
      invar (skip b) \<and> cursor (skip b) = Suc (cursor b)"
    and pop_ok: "invar b \<Longrightarrow> 0 < avail b \<Longrightarrow>
      \<exists>b'. pop b = Some ((of_nat (cursor b), D (of_nat (cursor b))), b') \<and> invar b' \<and>
        cursor b' = Suc (cursor b) \<and> avail b = Suc (avail b')"
begin

lemma drain_all_run:
  "invar b \<Longrightarrow> \<exists>b'. drain_all pop (avail b) b = (stream_run D (cursor b) (cursor b + avail b), b') \<and>
    invar b' \<and> avail b' = 0 \<and> cursor b' = cursor b + avail b"
proof (induction "avail b" arbitrary: b)
  case 0
  then show ?case by (metis add.right_neutral drain_all.simps(1) stream_run_empty)
next
  case (Suc n)
  then obtain b1 where b1: "pop b = Some ((of_nat (cursor b), D (of_nat (cursor b))), b1)"
    "invar b1" "cursor b1 = Suc (cursor b)" "avail b = Suc (avail b1)"
    using pop_ok[of b] by auto
  then obtain b' where "drain_all pop (avail b1) b1 =
      (stream_run D (cursor b1) (cursor b1 + avail b1), b')"
    "invar b'" "avail b' = 0" "cursor b' = cursor b1 + avail b1"
    using Suc(1)[of b1] Suc(2) by auto
  then show ?case
    using b1 by (intro exI[of _ b']) (simp add: stream_run_Cons)
qed

lemma rx_frame_run:
  assumes "invar b" "avail b = 0" "s \<noteq> U64_MAX"
  shows "\<exists>b'. rx_frame nxt ins skip pop avail b (s, D s) =
      (stream_run D (cursor b) (cursor b'), b') \<and>
    invar b' \<and> avail b' = 0 \<and> cursor b \<le> cursor b'"
proof (cases "s = nxt b")
  case True
  then have s: "s = of_nat (cursor b)" using nxt_cursor[OF assms(1)] assms(2) by (metis add.right_neutral of_nat_unat ucast_id)
  have sk: "invar (skip b)" "cursor (skip b) = Suc (cursor b)"
    using skip_ok[OF assms(1,2)] True assms(3) by auto
  obtain b' where "drain_all pop (avail (skip b)) (skip b) =
      (stream_run D (Suc (cursor b)) (cursor b'), b')" "invar b'" "avail b' = 0"
    "cursor b' = Suc (cursor b) + avail (skip b)"
    using drain_all_run[OF sk(1)] sk(2) by auto
  then show ?thesis
    using True s by (intro exI[of _ b']) (simp add: rx_frame_def stream_run_Cons)
next
  case False
  define b1 where "b1 = (case ins b s (D s) of Inl _ \<Rightarrow> b | Inr b1 \<Rightarrow> b1)"
  have "invar b1 \<and> cursor b1 = cursor b"
    using assms ins_ok[OF assms(1,3)] by (auto simp: b1_def split: sum.splits)
  then show ?thesis
    using drain_all_run[of b1] False by (auto simp: rx_frame_def b1_def[symmetric])
qed

lemma rx_frames_run:
  assumes "invar b" "avail b = 0" "\<forall>(s, d)\<in>set fs. s \<noteq> U64_MAX \<and> d = D s"
  shows "\<exists>b'. rx_frames nxt ins skip pop avail b fs =
      (stream_run D (cursor b) (cursor b'), b') \<and>
    invar b' \<and> avail b' = 0 \<and> cursor b \<le> cursor b'"
  using assms
proof (induction fs arbitrary: b)
  case (Cons f fs)
  obtain s where f: "f = (s, D s)" "s \<noteq> U64_MAX" using Cons.prems(3) by (cases f) auto
  obtain b1 where b1: "rx_frame nxt ins skip pop avail b f =
      (stream_run D (cursor b) (cursor b1), b1)" "invar b1" "avail b1 = 0" "cursor b \<le> cursor b1"
    using rx_frame_run[OF Cons.prems(1,2) f(2)] f(1) by auto
  obtain b2 where b2: "rx_frames nxt ins skip pop avail b1 fs =
      (stream_run D (cursor b1) (cursor b2), b2)" "invar b2" "avail b2 = 0" "cursor b1 \<le> cursor b2"
    using Cons.IH[OF b1(2,3)] Cons.prems(3) by auto
  then show ?case
    using b1 by (intro exI[of _ b2]) (simp add: stream_run_append)
qed simp

end

locale in_order_buffer_complete = in_order_buffer +
  fixes held :: "'a \<Rightarrow> u64 set"
    and cap :: "'a \<Rightarrow> nat"
  assumes held_above: "invar b \<Longrightarrow> s \<in> held b \<Longrightarrow> nxt b < s"
    and held_finite: "invar b \<Longrightarrow> finite (held b)"
    and ins_accepts: "invar b \<Longrightarrow> s \<notin> held b \<Longrightarrow> nxt b < s \<Longrightarrow> s \<noteq> U64_MAX \<Longrightarrow>
      card (held b) < cap b \<Longrightarrow>
      \<exists>b'. ins b s (D s) = Inr b' \<and> held b' = insert s (held b) \<and> cap b' = cap b \<and>
        avail b' = avail b"
    and skip_moves: "invar b \<Longrightarrow> avail b = 0 \<Longrightarrow> nxt b \<noteq> U64_MAX \<Longrightarrow>
      held b = held (skip b) \<union> of_nat ` {cursor (skip b)..<cursor (skip b) + avail (skip b)} \<and>
      cap (skip b) = cap b"
    and pop_keeps: "invar b \<Longrightarrow> pop b = Some (f, b') \<Longrightarrow> held b' = held b \<and> cap b' = cap b"
begin

lemma drain_all_keeps:
  "invar b \<Longrightarrow> drain_all pop (avail b) b = (out, b') \<Longrightarrow> held b' = held b \<and> cap b' = cap b"
proof (induction "avail b" arbitrary: b out)
  case (Suc n)
  then obtain f b1 where b1: "pop b = Some (f, b1)" "invar b1" "avail b = Suc (avail b1)"
    using pop_ok[of b] by auto
  then obtain out1 where "drain_all pop (avail b1) b1 = (out1, b')"
    using Suc.prems(2) by (auto split: prod.splits)
  then show ?case
    using Suc(1)[of b1 out1] Suc(2) b1 pop_keeps[OF Suc.prems(1) b1(1)] by simp
qed simp

lemma rx_frame_complete:
  assumes "invar b" "avail b = 0" "s \<noteq> U64_MAX" "s \<notin> held b" "nxt b \<le> s" "card (held b) < cap b"
    and "rx_frame nxt ins skip pop avail b (s, D s) = (out, b')"
  shows "held b' \<union> of_nat ` {cursor b..<cursor b'} = insert s (held b)" "cap b' = cap b"
proof -
  have u: "unat (nxt b) = cursor b" using nxt_cursor[OF assms(1)] assms(2) by simp
  have "held b' \<union> of_nat ` {cursor b..<cursor b'} = insert s (held b) \<and> cap b' = cap b"
  proof (cases "s = nxt b")
    case True
    have s: "s = of_nat (cursor b)" using True u by (metis of_nat_unat ucast_id)
    have sk: "invar (skip b)" "cursor (skip b) = Suc (cursor b)"
      using skip_ok[OF assms(1,2)] True assms(3) by auto
    obtain out1 where d: "drain_all pop (avail (skip b)) (skip b) = (out1, b')"
      using assms(7) True by (auto simp: rx_frame_def Let_def split: prod.splits)
    have c: "cursor b' = Suc (cursor b) + avail (skip b)"
      using drain_all_run[OF sk(1)] d sk(2) by auto
    have "{cursor b..<cursor b'} = insert (cursor b) {Suc (cursor b)..<cursor b'}"
      unfolding c by auto
    then show ?thesis
      using drain_all_keeps[OF sk(1) d] skip_moves[OF assms(1,2)] True assms(3) s c sk(2) by auto
  next
    case False
    then have lt: "nxt b < s" using assms(5) by simp
    obtain b1 where b1: "ins b s (D s) = Inr b1" "held b1 = insert s (held b)" "cap b1 = cap b"
      "avail b1 = 0"
      using ins_accepts[OF assms(1,4) lt assms(3,6)] assms(2) by auto
    have i1: "cursor b1 = cursor b" using ins_ok[OF assms(1,3) b1(1)] by simp
    have "b' = b1" using assms(7) False b1 by (simp add: rx_frame_def)
    then show ?thesis using b1 i1 by simp
  qed
  then show "held b' \<union> of_nat ` {cursor b..<cursor b'} = insert s (held b)" "cap b' = cap b"
    by simp_all
qed

lemma rx_frames_complete:
  assumes "invar b" "avail b = 0" "distinct (map fst fs)"
    and "\<forall>(s, d)\<in>set fs. s \<noteq> U64_MAX \<and> d = D s \<and> s \<notin> held b \<and> nxt b \<le> s"
    and "card (held b) + length fs \<le> cap b"
    and "rx_frames nxt ins skip pop avail b fs = (out, b')"
  shows "held b' \<union> of_nat ` {cursor b..<cursor b'} = held b \<union> fst ` set fs"
  using assms
proof (induction fs arbitrary: b out)
  case (Cons f fs)
  obtain s where f: "f = (s, D s)" "s \<noteq> U64_MAX" "s \<notin> held b" "nxt b \<le> s"
    using Cons.prems(4) by (cases f) auto
  obtain b1 where b1: "rx_frame nxt ins skip pop avail b (s, D s) =
      (stream_run D (cursor b) (cursor b1), b1)" "invar b1" "avail b1 = 0" "cursor b \<le> cursor b1"
    using rx_frame_run[OF Cons.prems(1,2) f(2)] by auto
  have "card (held b) < cap b" using Cons.prems(5) by simp
  note h1 = rx_frame_complete[OF Cons.prems(1,2) f(2-4) this b1(1)]
  obtain out1 where r: "rx_frames nxt ins skip pop avail b1 fs = (out1, b')"
    using Cons.prems(6) b1(1) f(1) by (auto split: prod.splits)
  have "held b1 \<subseteq> insert s (held b)" using h1(1) by auto
  then have "card (held b1) \<le> Suc (card (held b))"
    using card_mono[of "insert s (held b)" "held b1"] held_finite[OF Cons.prems(1)] f(3) by simp
  then have room: "card (held b1) + length fs \<le> cap b1" using Cons.prems(5) h1(2) by simp
  have u: "unat (nxt b) = cursor b" "unat (nxt b1) = cursor b1"
    using nxt_cursor[OF Cons.prems(1)] nxt_cursor[OF b1(2)] Cons.prems(2) b1(3) by auto
  have later: "t \<notin> held b1 \<and> nxt b1 \<le> t" if "(t, d) \<in> set fs" for t d
  proof -
    have t: "t \<notin> insert s (held b)" "nxt b \<le> t"
      using that Cons.prems(3,4) f(1) by (auto simp: rev_image_eqI)
    then have "t \<notin> held b1" "t \<notin> of_nat ` {cursor b..<cursor b1}" using h1(1) by auto
    moreover from this(2) have "\<not> unat t < cursor b1"
      using t(2) u(1) image_eqI[of t of_nat "unat t" "{cursor b..<cursor b1}"]
      by (auto simp: word_le_nat_alt)
    ultimately show ?thesis using u(2) by (simp add: word_le_nat_alt)
  qed
  have "\<forall>(s, d)\<in>set fs. s \<noteq> U64_MAX \<and> d = D s" using Cons.prems(4) by auto
  note run = rx_frames_run[OF b1(2,3) this] and data = this
  have "\<forall>(s, d)\<in>set fs. s \<noteq> U64_MAX \<and> d = D s \<and> s \<notin> held b1 \<and> nxt b1 \<le> s"
    using data later by blast
  then have "held b' \<union> of_nat ` {cursor b1..<cursor b'} = held b1 \<union> fst ` set fs"
    using Cons.IH[OF b1(2,3) _ _ room r] Cons.prems(3) by simp
  moreover have "cursor b1 \<le> cursor b'" using run r by auto
  moreover from this have "{cursor b..<cursor b'} = {cursor b..<cursor b1} \<union> {cursor b1..<cursor b'}"
    using b1(4) by auto
  ultimately show ?case using h1(1) f(1) by (simp add: image_Un) blast
qed auto

end

section \<open>The implementation meets the contract\<close>

definition ro_avail :: "urp_reorder \<Rightarrow> nat" where
  "ro_avail rb = length (ro_drained rb)"

definition ro_insert :: "kmalloc_ok \<Rightarrow> urp_reorder \<Rightarrow> u64 \<Rightarrow> bytes \<Rightarrow> urp_reorder result" where
  "ro_insert kmalloc rb seq d = urp_reorder_insert kmalloc (Some rb) seq (Some d) (length d)"

definition ro_skip :: "kmalloc_ok \<Rightarrow> urp_reorder \<Rightarrow> urp_reorder" where
  "ro_skip kmalloc rb = the (urp_reorder_advance kmalloc (Some rb))"

definition ro_pop :: "nat \<Rightarrow> urp_reorder \<Rightarrow> ((u64 \<times> bytes) \<times> urp_reorder) option" where
  "ro_pop cap rb =
    (case urp_reorder_drain_next (Some rb) cap of
       Inl _ \<Rightarrow> None
     | Inr (rb', seq, d) \<Rightarrow> Some ((seq, d), rb'))"

lemma ro_insert_cases:
  assumes "ro_insert kmalloc rb s d = Inr rb'"
  shows "ro_next_expected rb \<le> s" "rbt_lookup (ro_pending rb) s = None"
    "rb' = urp_reorder_drain_prefix kmalloc
      (rb\<lparr>ro_pending := rbt_insert s d (ro_pending rb), ro_pending_count := ro_pending_count rb + 1\<rparr>)"
  using assms
  by (auto simp: ro_insert_def urp_reorder_insert_def urp_reorder_lookup_rbt not_less Let_def
      split: if_splits)

lemma ro_ok_link:
  assumes "ro_ok D rb" "rbt_lookup (ro_pending rb) s = None" "s \<noteq> U64_MAX"
  shows "ro_ok D (rb\<lparr>ro_pending := rbt_insert s (D s) (ro_pending rb),
    ro_pending_count := ro_pending_count rb + 1\<rparr>)"
    "rbt_lookup (rbt_insert s (D s) (ro_pending rb)) = (rbt_lookup (ro_pending rb))(s \<mapsto> D s)"
proof -
  have t: "is_rbt (ro_pending rb)" using assms(1) by (simp add: ro_ok_def)
  show l: "rbt_lookup (rbt_insert s (D s) (ro_pending rb)) = (rbt_lookup (ro_pending rb))(s \<mapsto> D s)"
    by (rule rbt_lookup_rbt_insert[OF t])
  have "s \<notin> dom (rbt_lookup (ro_pending rb))" using assms(2) by auto
  then have c: "card (insert s (dom (rbt_lookup (ro_pending rb)))) =
      Suc (card (dom (rbt_lookup (ro_pending rb))))"
    by (rule card_insert_disjoint[OF finite_dom_rbt_lookup])
  show "ro_ok D (rb\<lparr>ro_pending := rbt_insert s (D s) (ro_pending rb),
      ro_pending_count := ro_pending_count rb + 1\<rparr>)"
    using assms(1,3) t unfolding ro_ok_def
    by (simp add: l c ro_cursor_def add.commute)
qed

lemma ro_ok_next:
  assumes "ro_ok D rb" "ro_drained rb = []" "ro_next_expected rb \<noteq> U64_MAX"
  shows "ro_ok D (rb\<lparr>ro_next_expected := ro_next_expected rb + 1\<rparr>)"
    "unat (ro_next_expected rb + 1) = Suc (unat (ro_next_expected rb))"
proof -
  have "ro_next_expected rb < U64_MAX"
    using assms(3) unat_bound[of "ro_next_expected rb"] by (simp add: word_less_nat_alt word_unat_eq_iff)
  then show "unat (ro_next_expected rb + 1) = Suc (unat (ro_next_expected rb))"
    by (rule unat_Suc_less)
  show "ro_ok D (rb\<lparr>ro_next_expected := ro_next_expected rb + 1\<rparr>)"
    using assms(1,2) by (simp add: ro_ok_def ro_cursor_def)
qed

lemma ro_skip_prefix:
  "ro_next_expected rb \<noteq> U64_MAX \<Longrightarrow> ro_skip kmalloc rb =
    urp_reorder_drain_prefix kmalloc (rb\<lparr>ro_next_expected := ro_next_expected rb + 1\<rparr>)"
  by (simp add: ro_skip_def urp_reorder_advance_def)

lemma ro_pop_ok:
  assumes "ro_ok D rb" "0 < ro_avail rb" "\<forall>s. length (D s) \<le> cap"
  shows "ro_pop cap rb = Some ((of_nat (ro_cursor rb), D (of_nat (ro_cursor rb))),
      rb\<lparr>ro_drained := tl (ro_drained rb), ro_drain_count := ro_drain_count rb - 1\<rparr>)"
    "ro_ok D (rb\<lparr>ro_drained := tl (ro_drained rb), ro_drain_count := ro_drain_count rb - 1\<rparr>)"
    "ro_cursor (rb\<lparr>ro_drained := tl (ro_drained rb), ro_drain_count := ro_drain_count rb - 1\<rparr>) =
      Suc (ro_cursor rb)"
proof -
  let ?rb = "rb\<lparr>ro_drained := tl (ro_drained rb), ro_drain_count := ro_drain_count rb - 1\<rparr>"
  have dr: "ro_drained rb = stream_run D (ro_cursor rb) (unat (ro_next_expected rb))"
    "length (ro_drained rb) \<le> unat (ro_next_expected rb)"
    using assms(1) unfolding ro_ok_def by blast+
  have lt: "ro_cursor rb < unat (ro_next_expected rb)"
    using assms(2) dr(2) unfolding ro_cursor_def ro_avail_def by linarith
  have hd: "ro_drained rb = (of_nat (ro_cursor rb), D (of_nat (ro_cursor rb))) #
      stream_run D (Suc (ro_cursor rb)) (unat (ro_next_expected rb))"
    using dr(1) stream_run_Cons[OF lt] by simp
  then show "ro_pop cap rb = Some ((of_nat (ro_cursor rb), D (of_nat (ro_cursor rb))), ?rb)"
    using assms(3) by (simp add: ro_pop_def urp_reorder_drain_next_def not_less)
  show cur: "ro_cursor ?rb = Suc (ro_cursor rb)"
    using dr(2) assms(2) by (cases "ro_drained rb") (auto simp: ro_cursor_def ro_avail_def)
  have tl: "ro_drained ?rb = stream_run D (ro_cursor ?rb) (unat (ro_next_expected ?rb))"
    unfolding cur using hd by simp
  have cnt: "ro_drain_count ?rb = of_nat (length (ro_drained ?rb))"
    using assms(1) hd by (simp add: ro_ok_def)
  show "ro_ok D ?rb"
    using assms(1) dr(2) tl cnt unfolding ro_ok_def by simp
qed

text \<open>Safety holds whatever the allocator does.\<close>

interpretation ro: in_order_buffer D "\<lambda>rb. ro_ok D rb \<and> (\<forall>s. length (D s) \<le> cap)" ro_cursor ro_avail
    ro_next_expected "ro_insert kmalloc" "ro_skip kmalloc" "ro_pop cap"
  for D cap kmalloc
proof (unfold_locales, goal_cases)
  case (1 rb)
  then show ?case by (simp add: ro_ok_def ro_cursor_def ro_avail_def)
next
  case (2 rb s rb')
  note c = ro_insert_cases[OF 2(3)]
  have "ro_ok D rb" using 2(1) by simp
  note l = ro_ok_link(1)[OF this c(2) 2(2)]
  show ?case
    using drain_prefix_ok(1)[OF l, of kmalloc] 2(1) c(3) by (simp add: drained_to_def ro_cursor_def)
next
  case (3 rb)
  have ok: "ro_ok D rb" "ro_drained rb = []" using 3 by (auto simp: ro_avail_def)
  note n = ro_ok_next[OF ok 3(3)]
  show ?case
    using drain_prefix_ok(1)[OF n(1), of kmalloc] n(2) 3(1) ok(2)
    by (simp add: ro_skip_prefix[OF 3(3)] drained_to_def) (simp add: ro_cursor_def)
next
  case (4 rb)
  have ok: "ro_ok D rb" "\<forall>s. length (D s) \<le> cap" using 4(1) by auto
  show ?case
    using ro_pop_ok[OF ok(1) 4(2) ok(2)] ok 4(2) by (auto simp: ro_avail_def)
qed

text \<open>
  With allocations that succeed nothing is left behind: between two frames
  every pending frame lies strictly above next_expected.
\<close>

definition ro_tight :: "urp_reorder \<Rightarrow> bool" where
  "ro_tight rb \<longleftrightarrow> (\<forall>s. rbt_lookup (ro_pending rb) s \<noteq> None \<longrightarrow> ro_next_expected rb < s) \<and>
    unat (ro_max_buffered rb) < 2 ^ 32 - 1 \<and>
    card (dom (rbt_lookup (ro_pending rb))) \<le> unat (ro_max_buffered rb)"

definition ro_held :: "urp_reorder \<Rightarrow> u64 set" where
  "ro_held rb = dom (rbt_lookup (ro_pending rb))"

lemma drain_prefix_tight:
  assumes "ro_ok D rb" "\<forall>s. rbt_lookup (ro_pending rb) s \<noteq> None \<longrightarrow> ro_next_expected rb \<le> s"
  defines "rb' \<equiv> urp_reorder_drain_prefix (\<lambda>_. True) rb"
  shows "\<forall>s. rbt_lookup (ro_pending rb') s \<noteq> None \<longrightarrow> ro_next_expected rb' < s"
    "ro_held rb = ro_held rb' \<union> {s. ro_between rb rb' s}"
proof -
  have dt: "drained_to D rb rb'" "drain_iter (\<lambda>_. True) rb' = None"
    unfolding rb'_def by (rule drain_prefix_ok[OF assms(1)])+
  have lk: "rbt_lookup (ro_pending rb') s =
      (if ro_between rb rb' s then None else rbt_lookup (ro_pending rb) s)"
    and bt: "ro_between rb rb' s \<Longrightarrow> rbt_lookup (ro_pending rb) s \<noteq> None" for s
    using dt(1) unfolding drained_to_def by blast+
  show "ro_held rb = ro_held rb' \<union> {s. ro_between rb rb' s}"
    using bt by (auto simp: ro_held_def dom_def lk)
  show "\<forall>s. rbt_lookup (ro_pending rb') s \<noteq> None \<longrightarrow> ro_next_expected rb' < s"
  proof (intro allI impI)
    fix s assume s: "rbt_lookup (ro_pending rb') s \<noteq> None"
    have t: "is_rbt (ro_pending rb')" using dt(1) by (simp add: drained_to_def ro_ok_def)
    have ge: "ro_next_expected rb' \<le> k" if "rbt_lookup (ro_pending rb') k \<noteq> None" for k
      using that lk[of k] assms(2) by (auto simp: ro_between_def not_less split: if_splits)
    obtain k v where f: "rb_first (ro_pending rb') = Some (k, v)"
      using s rb_first_None[OF t] by (cases "rb_first (ro_pending rb')") auto
    then have "k \<noteq> ro_next_expected rb'" using dt(2) by (auto simp: drain_iter_def)
    moreover have "ro_next_expected rb' \<le> k" using ge rb_first_Some(1)[OF t f] by simp
    moreover have "k \<le> s" using rb_first_Some(2)[OF t f] s by auto
    ultimately show "ro_next_expected rb' < s" by order
  qed
qed

lemma ro_between_image:
  assumes "ro_next_expected rb \<le> ro_next_expected rb'"
  shows "{s. ro_between rb rb' s} =
    of_nat ` {unat (ro_next_expected rb)..<unat (ro_next_expected rb')}"
proof (intro set_eqI iffI)
  fix s assume "s \<in> {s. ro_between rb rb' s}"
  then have "unat s \<in> {unat (ro_next_expected rb)..<unat (ro_next_expected rb')}"
    by (simp add: ro_between_def word_le_nat_alt word_less_nat_alt)
  then have "(of_nat (unat s) :: u64) \<in> of_nat ` {unat (ro_next_expected rb)..<unat (ro_next_expected rb')}"
    by (rule imageI)
  then show "s \<in> of_nat ` {unat (ro_next_expected rb)..<unat (ro_next_expected rb')}" by simp
next
  fix s :: u64 assume "s \<in> of_nat ` {unat (ro_next_expected rb)..<unat (ro_next_expected rb')}"
  then obtain n where n: "s = of_nat n" "unat (ro_next_expected rb) \<le> n" "n < unat (ro_next_expected rb')"
    by auto
  then have "unat s = n"
    using unat_bound[of "ro_next_expected rb'"] by (simp add: unat_of_nat)
  then show "s \<in> {s. ro_between rb rb' s}"
    using n by (simp add: ro_between_def word_le_nat_alt word_less_nat_alt)
qed

lemma ro_tight_count:
  assumes "ro_ok D rb" "ro_tight rb"
  shows "unat (ro_pending_count rb) = card (ro_held rb)"
proof -
  have "card (dom (rbt_lookup (ro_pending rb))) < 2 ^ 32"
    using assms(2) by (simp add: ro_tight_def)
  then show ?thesis using assms(1) by (simp add: ro_ok_def ro_held_def unat_of_nat)
qed

lemma ro_insert_accepts:
  assumes "ro_ok D rb" "ro_tight rb" "s \<notin> ro_held rb" "ro_next_expected rb < s" "s \<noteq> U64_MAX"
    "card (ro_held rb) < unat (ro_max_buffered rb)"
  defines "rb1 \<equiv> rb\<lparr>ro_pending := rbt_insert s (D s) (ro_pending rb),
    ro_pending_count := ro_pending_count rb + 1\<rparr>"
  shows "ro_insert (\<lambda>_. True) rb s (D s) = Inr rb1" "ro_ok D rb1" "ro_tight rb1"
    "ro_held rb1 = insert s (ro_held rb)"
proof -
  have none: "rbt_lookup (ro_pending rb) s = None" using assms(3) by (auto simp: ro_held_def)
  note l = ro_ok_link[OF assms(1) none assms(5), folded rb1_def]
  show ok: "ro_ok D rb1" by (rule l(1))
  have lk: "rbt_lookup (ro_pending rb1) = (rbt_lookup (ro_pending rb))(s \<mapsto> D s)"
    using l(2) by (simp add: rb1_def)
  show h: "ro_held rb1 = insert s (ro_held rb)" by (simp add: ro_held_def lk)
  have nx: "ro_next_expected rb1 = ro_next_expected rb" "ro_max_buffered rb1 = ro_max_buffered rb"
    by (simp_all add: rb1_def)
  show t: "ro_tight rb1"
    using assms(2,4,6) h nx unfolding ro_tight_def lk
    by (simp add: ro_held_def card_insert_if)
  have "drain_iter (\<lambda>_. True) rb1 = None"
  proof (rule ccontr)
    assume "drain_iter (\<lambda>_. True) rb1 \<noteq> None"
    then obtain rb2 where "drain_iter (\<lambda>_. True) rb1 = Some rb2" by auto
    from drain_iter_ok(5)[OF ok this] t show False by (auto simp: ro_tight_def)
  qed
  then have "urp_reorder_drain_prefix (\<lambda>_. True) rb1 = rb1"
    by (cases "length (RBT_Impl.entries (ro_pending rb1))")
      (simp_all add: urp_reorder_drain_prefix_def)
  moreover have "\<not> s < ro_next_expected rb" "\<not> ro_max_buffered rb \<le> ro_pending_count rb"
    using assms(4,6) ro_tight_count[OF assms(1,2)] by (auto simp: word_le_nat_alt)
  ultimately show "ro_insert (\<lambda>_. True) rb s (D s) = Inr rb1"
    using none by (simp add: ro_insert_def urp_reorder_insert_def urp_reorder_lookup_rbt rb1_def)
qed

lemma ro_insert_tight:
  assumes "ro_ok D rb" "ro_tight rb" "s \<noteq> U64_MAX" "ro_insert (\<lambda>_. True) rb s (D s) = Inr rb'"
  shows "ro_tight rb'"
proof -
  note c = ro_insert_cases[OF assms(4)]
  define rb1 where "rb1 = rb\<lparr>ro_pending := rbt_insert s (D s) (ro_pending rb),
    ro_pending_count := ro_pending_count rb + 1\<rparr>"
  note l = ro_ok_link[OF assms(1) c(2) assms(3), folded rb1_def]
  have rb': "rb' = urp_reorder_drain_prefix (\<lambda>_. True) rb1" using c(3) by (simp add: rb1_def)
  have f: "ro_next_expected rb1 = ro_next_expected rb" "ro_max_buffered rb1 = ro_max_buffered rb"
    "rbt_lookup (ro_pending rb1) = (rbt_lookup (ro_pending rb))(s \<mapsto> D s)"
    using l(2) by (simp_all add: rb1_def)
  have h1: "ro_held rb1 = insert s (ro_held rb)" by (simp add: ro_held_def f(3))
  have ge: "\<forall>k. rbt_lookup (ro_pending rb1) k \<noteq> None \<longrightarrow> ro_next_expected rb1 \<le> k"
    using assms(2) c(1) unfolding f by (auto simp: ro_tight_def dest: less_imp_le)
  note dt = drain_prefix_ok(1)[OF l(1), of "\<lambda>_. True", folded rb']
  note ti = drain_prefix_tight[OF l(1) ge, folded rb']
  have m: "ro_max_buffered rb' = ro_max_buffered rb" using dt f(2) by (simp add: drained_to_def)
  have fin: "finite (ro_held rb)" by (simp add: ro_held_def)
  have card: "card (ro_held rb) \<le> unat (ro_max_buffered rb)"
    using assms(2) by (simp add: ro_tight_def ro_held_def)
  have "card (ro_held rb') \<le> unat (ro_max_buffered rb)"
  proof (cases "s = ro_next_expected rb")
    case True
    have "ro_next_expected rb \<le> ro_next_expected rb'" using dt f(1) by (simp add: drained_to_def)
    then have "s \<notin> ro_held rb'" using ti(1) True by (auto simp: ro_held_def)
    then have "ro_held rb' \<subseteq> ro_held rb" using ti(2) h1 by auto
    then show ?thesis using card card_mono[OF fin] by (meson le_trans)
  next
    case False
    then have "\<not> ro_max_buffered rb \<le> ro_pending_count rb"
      using assms(4) by (auto simp: ro_insert_def urp_reorder_insert_def split: if_splits)
    then have "card (ro_held rb) < unat (ro_max_buffered rb)"
      using ro_tight_count[OF assms(1,2)] by (simp add: word_le_nat_alt)
    moreover have "card (ro_held rb') \<le> card (insert s (ro_held rb))"
      using ti(2) h1 fin by (intro card_mono) auto
    ultimately show ?thesis using fin by (simp add: card_insert_if split: if_splits)
  qed
  then show ?thesis using ti(1) m assms(2) by (simp add: ro_tight_def ro_held_def)
qed

lemma ro_skip_complete:
  assumes "ro_ok D rb" "ro_tight rb" "ro_drained rb = []" "ro_next_expected rb \<noteq> U64_MAX"
  defines "rb' \<equiv> ro_skip (\<lambda>_. True) rb"
  shows "ro_ok D rb'" "ro_tight rb'" "ro_max_buffered rb' = ro_max_buffered rb"
    "ro_held rb = ro_held rb' \<union> of_nat ` {ro_cursor rb'..<ro_cursor rb' + ro_avail rb'}"
proof -
  define rb1 where "rb1 = rb\<lparr>ro_next_expected := ro_next_expected rb + 1\<rparr>"
  have rb': "rb' = urp_reorder_drain_prefix (\<lambda>_. True) rb1"
    unfolding rb'_def rb1_def by (rule ro_skip_prefix[OF assms(4)])
  note n = ro_ok_next[OF assms(1,3,4)]
  have ok1: "ro_ok D rb1" using n(1) by (simp add: rb1_def)
  have nx1: "unat (ro_next_expected rb1) = Suc (unat (ro_next_expected rb))"
    using n(2) by (simp add: rb1_def)
  have p1: "ro_pending rb1 = ro_pending rb" "ro_max_buffered rb1 = ro_max_buffered rb"
    by (simp_all add: rb1_def)
  have ge: "\<forall>s. rbt_lookup (ro_pending rb1) s \<noteq> None \<longrightarrow> ro_next_expected rb1 \<le> s"
    using assms(2) nx1 unfolding p1(1) by (simp add: ro_tight_def word_less_nat_alt word_le_nat_alt Suc_le_eq)
  note dt = drain_prefix_ok(1)[OF ok1, of "\<lambda>_. True", folded rb']
  note ti = drain_prefix_tight[OF ok1 ge, folded rb']
  show ok': "ro_ok D rb'" and m: "ro_max_buffered rb' = ro_max_buffered rb"
    using dt p1(2) by (simp_all add: drained_to_def)
  have le: "ro_next_expected rb1 \<le> ro_next_expected rb'" using dt by (simp add: drained_to_def)
  have held1: "ro_held rb1 = ro_held rb" by (simp add: ro_held_def p1(1))
  have cur: "ro_cursor rb' = unat (ro_next_expected rb1)"
    using dt assms(3) by (simp add: drained_to_def) (simp add: ro_cursor_def rb1_def)
  have av: "ro_cursor rb' + ro_avail rb' = unat (ro_next_expected rb')"
    using ok' by (simp add: ro_ok_def ro_cursor_def ro_avail_def)
  show h: "ro_held rb = ro_held rb' \<union> of_nat ` {ro_cursor rb'..<ro_cursor rb' + ro_avail rb'}"
    using ti(2) ro_between_image[OF le] unfolding held1 av unfolding cur by simp
  have "card (ro_held rb') \<le> card (ro_held rb)"
    using h by (intro card_mono) (auto simp: ro_held_def)
  then show "ro_tight rb'"
    using ti(1) assms(2) m by (simp add: ro_tight_def ro_held_def)
qed

interpretation ro_complete: in_order_buffer_complete D
    "\<lambda>rb. ro_ok D rb \<and> (\<forall>s. length (D s) \<le> cap) \<and> ro_tight rb" ro_cursor ro_avail
    ro_next_expected "ro_insert (\<lambda>_. True)" "ro_skip (\<lambda>_. True)" "ro_pop cap"
    ro_held "\<lambda>rb. unat (ro_max_buffered rb)"
  for D cap
proof (unfold_locales, goal_cases)
  case (1 rb)
  then show ?case using ro.nxt_cursor[of D rb cap] by simp
next
  case (2 rb s rb')
  then show ?case using ro.ins_ok[of D rb cap s] ro_insert_tight[of D rb s rb'] by blast
next
  case (3 rb)
  then show ?case
    using ro.skip_ok[of D rb cap] ro_skip_complete(2)[of D rb] by (auto simp: ro_avail_def)
next
  case (4 rb)
  then show ?case using ro_pop_ok[of D rb cap] by (auto simp: ro_avail_def ro_tight_def)
next
  case (5 rb s)
  then show ?case by (auto simp: ro_tight_def ro_held_def)
next
  case (6 rb)
  then show ?case by (simp add: ro_held_def)
next
  case (7 rb s)
  then show ?case using ro_insert_accepts[of D rb s] by (auto simp: ro_avail_def)
next
  case (8 rb)
  then show ?case using ro_skip_complete(3,4)[of D rb] by (auto simp: ro_avail_def)
next
  case (9 rb f rb')
  then show ?case
    by (auto simp: ro_pop_def urp_reorder_drain_next_def ro_held_def
        split: sum.splits list.splits if_splits)
qed

section \<open>Properties\<close>

lemma ro_ok_alloc:
  assumes "urp_reorder_alloc True 0 m = Some rb" "m \<noteq> U32_MAX"
  shows "ro_ok D rb" "ro_tight rb" "ro_cursor rb = 0" "ro_avail rb = 0" "ro_held rb = {}"
    "ro_max_buffered rb = m" "ro_next_expected rb = 0"
proof -
  have e: "rbt_lookup (RBT_Impl.Empty :: (u64, bytes) rbt) = Map.empty" by (rule ext) simp
  have "unat m < 2 ^ 32 - 1"
    using assms(2) unat_bound[of m] by (simp add: word_unat_eq_iff)
  then show "ro_ok D rb" "ro_tight rb" "ro_cursor rb = 0" "ro_avail rb = 0" "ro_held rb = {}"
    "ro_max_buffered rb = m" "ro_next_expected rb = 0"
    using assms(1)
    by (auto simp: urp_reorder_alloc_def ro_ok_def ro_tight_def ro_cursor_def ro_avail_def
        ro_held_def e split: if_splits)
qed

text \<open>C8: Whatever arrives and however allocations fail, the reorder buffer hands the client the
  stream in order and without repetition: after any sequence of arrivals (out of order, repeated,
  with drops for lack of memory or room), the frames handed over are exactly frames 0 up to some
  number, each once, with the payload its number carries.\<close>

theorem reorder_delivers_prefix:
  assumes "urp_reorder_alloc True 0 m = Some rb" "m \<noteq> U32_MAX" "\<forall>s. length (D s) \<le> cap"
    and "\<forall>(s, d)\<in>set fs. s \<noteq> U64_MAX \<and> d = D s"
    and "rx_frames ro_next_expected (ro_insert kmalloc) (ro_skip kmalloc) (ro_pop cap) ro_avail rb fs
      = (out, rb')"
  shows "out = map (\<lambda>n. (of_nat n, D (of_nat n))) [0..<unat (ro_next_expected rb')]"
proof -
  note al = ro_ok_alloc[OF assms(1,2)]
  have ok: "ro_ok D rb \<and> (\<forall>s. length (D s) \<le> cap)" using al(1) assms(3) by simp
  obtain b where b: "rx_frames ro_next_expected (ro_insert kmalloc) (ro_skip kmalloc) (ro_pop cap)
      ro_avail rb fs = (stream_run D (ro_cursor rb) (ro_cursor b), b)"
    "ro_ok D b \<and> (\<forall>s. length (D s) \<le> cap)" "ro_avail b = 0"
    using ro.rx_frames_run[OF ok al(4) assms(4)] by blast
  then show ?thesis
    using assms(5) ro.nxt_cursor[OF b(2)] al(3) by (simp add: stream_run_def)
qed

definition example_rb :: urp_reorder where
  "example_rb = \<lparr> ro_pending = RBT_Impl.Empty, ro_drained = [], ro_next_expected = 0,
     ro_pending_count = 0, ro_drain_count = 0, ro_max_buffered = 4 \<rparr>"

theorem reorder_delivers_prefix_witness:
  "\<exists>rb'. rx_frames ro_next_expected (ro_insert (\<lambda>_. True)) (ro_skip (\<lambda>_. True)) (ro_pop 1) ro_avail
     example_rb [(1, [1]), (3, [3]), (0, [0]), (1, [1])] = ([(0, [0]), (1, [1])], rb') \<and>
   [(0, [0]), (1, [1])] = map (\<lambda>n. (of_nat n :: u64, [ucast (of_nat n :: u64) :: u8]))
     [0..<unat (ro_next_expected rb')]"
proof -
  have al: "urp_reorder_alloc True 0 4 = Some example_rb" by code_simp
  define r where "r = rx_frames ro_next_expected (ro_insert (\<lambda>_. True)) (ro_skip (\<lambda>_. True))
    (ro_pop 1) ro_avail example_rb [(1, [1]), (3, [3]), (0, [0]), (1, [1])]"
  have r: "rx_frames ro_next_expected (ro_insert (\<lambda>_. True)) (ro_skip (\<lambda>_. True))
    (ro_pop 1) ro_avail example_rb [(1, [1]), (3, [3]), (0, [0]), (1, [1])] = (fst r, snd r)"
    by (simp add: r_def)
  have out: "fst r = [(0, [0]), (1, [1])]" unfolding r_def by code_simp
  show ?thesis
    using reorder_delivers_prefix[OF al _ _ _ r, where D = "\<lambda>s. [ucast s]"] out r
    by (intro exI[of _ "snd r"]) simp
qed

text \<open>A prefix of the sequence numbers and a set above it that make up the numbers below n.\<close>

lemma prefix_complete:
  fixes held :: "u64 set"
  assumes "held \<union> of_nat ` {0..<c} = of_nat ` {0..<n}" "\<And>s. s \<in> held \<Longrightarrow> c < unat s" "n < 2 ^ 64" "c < 2 ^ 64"
  shows "c = n \<and> held = {}"
proof -
  have inj: "unat (of_nat i :: u64) = i" if "i < 2 ^ 64" for i using that by (simp add: unat_of_nat)
  have fresh: "(of_nat i :: u64) \<notin> of_nat ` {0..<i}" if "i < 2 ^ 64" for i
  proof
    assume "(of_nat i :: u64) \<in> of_nat ` {0..<i}"
    then obtain j where j: "j < i" "(of_nat i :: u64) = of_nat j" by auto
    then have "unat (of_nat i :: u64) = unat (of_nat j :: u64)" by simp
    then show False using j(1) that inj[of i] inj[of j] by simp
  qed
  have "c \<le> n"
  proof (rule ccontr)
    assume "\<not> ?thesis"
    then have "(of_nat n :: u64) \<in> of_nat ` {0..<n}" unfolding assms(1)[symmetric] by auto
    then show False using fresh[OF assms(3)] by simp
  qed
  moreover have "\<not> c < n"
  proof
    assume "c < n"
    then have "(of_nat c :: u64) \<in> held \<union> of_nat ` {0..<c}" unfolding assms(1) by simp
    then show False using fresh[OF assms(4)] assms(2)[of "of_nat c"] inj[OF assms(4)] by auto
  qed
  moreover have "held = {}" if "c = n"
  proof (rule equals0I)
    fix s assume s: "s \<in> held"
    then have "s \<in> of_nat ` {0..<n}" unfolding assms(1)[symmetric] by blast
    then obtain i where "i < n" "s = of_nat i" by auto
    then show False using assms(2)[OF s] that inj[of i] assms(3) by simp
  qed
  ultimately show ?thesis by simp
qed

lemma ro_permutation:
  assumes "urp_reorder_alloc True 0 m = Some rb" "m \<noteq> U32_MAX" "\<forall>s. length (D s) \<le> cap"
    and "distinct (map fst fs)" "fst ` set fs = of_nat ` {0..<n}" "n < 2 ^ 64 - 1" "n \<le> unat m"
    and "\<forall>(s, d)\<in>set fs. d = D s"
    and "rx_frames ro_next_expected (ro_insert (\<lambda>_. True)) (ro_skip (\<lambda>_. True)) (ro_pop cap)
      ro_avail rb fs = (out, rb')"
  shows "out = map (\<lambda>i. (of_nat i, D (of_nat i))) [0..<n] \<and> unat (ro_next_expected rb') = n \<and>
    ro_held rb' = {}"
proof -
  note al = ro_ok_alloc[OF assms(1,2)]
  have inj: "unat (of_nat i :: u64) = i" if "i \<le> n" for i
    using that assms(6) by (simp add: unat_of_nat)
  have ok: "ro_ok D rb \<and> (\<forall>s. length (D s) \<le> cap) \<and> ro_tight rb" using al assms(3) by simp
  have ne: "s \<noteq> U64_MAX" if "s \<in> fst ` set fs" for s
    using that assms(6) inj unfolding assms(5) by (auto simp: word_unat_eq_iff)
  have fr: "\<forall>(s, d)\<in>set fs. s \<noteq> U64_MAX \<and> d = D s"
  proof (intro ballI, unfold case_prod_beta)
    fix f assume f: "f \<in> set fs"
    then show "fst f \<noteq> U64_MAX \<and> snd f = D (fst f)"
      using ne[OF imageI[OF f]] assms(8) by (auto simp: case_prod_beta)
  qed
  have run: "out = stream_run D (ro_cursor rb) (ro_cursor rb')"
    and inv: "ro_ok D rb'" "ro_tight rb'" "ro_avail rb' = 0"
    using ro_complete.rx_frames_run[OF ok al(4) fr] assms(9) by auto
  have "inj_on (of_nat :: nat \<Rightarrow> u64) {0..<n}"
    by (rule inj_on_inverseI[where g = unat]) (simp add: inj)
  then have len: "length fs = n"
    using distinct_card[OF assms(4)] assms(5) by (simp add: card_image)
  have "\<forall>(s, d)\<in>set fs. s \<noteq> U64_MAX \<and> d = D s \<and> s \<notin> ro_held rb \<and> ro_next_expected rb \<le> s"
    using fr al by auto
  then have un: "ro_held rb' \<union> of_nat ` {0..<ro_cursor rb'} = of_nat ` {0..<n}"
    using ro_complete.rx_frames_complete[OF ok al(4) assms(4) _ _ assms(9)] al assms(5,7) len by simp
  have nx: "unat (ro_next_expected rb') = ro_cursor rb'"
    using inv(1,3) by (simp add: ro_ok_def ro_cursor_def ro_avail_def)
  have "ro_cursor rb' < unat s" if "s \<in> ro_held rb'" for s
    using that inv(2) nx by (auto simp: ro_tight_def ro_held_def word_less_nat_alt)
  then have "ro_cursor rb' = n \<and> ro_held rb' = {}"
    using un assms(6) unat_bound[of "ro_next_expected rb'"] nx by (intro prefix_complete) simp_all
  then show ?thesis using run nx al(3) by (simp add: stream_run_def)
qed

text \<open>C9: With room for every frame and successful allocations nothing is lost: if the arrivals
  are frames 0 to n-1 in any order, the client gets exactly these n frames in order and the buffer
  is empty again, expecting frame n.\<close>

theorem reorder_permutation_complete:
  assumes "urp_reorder_alloc True 0 m = Some rb" "m \<noteq> U32_MAX" "\<forall>s. length (D s) \<le> cap"
    and "distinct (map fst fs)" "fst ` set fs = of_nat ` {0..<n}" "n < 2 ^ 64 - 1" "n \<le> unat m"
    and "\<forall>(s, d)\<in>set fs. d = D s"
    and "rx_frames ro_next_expected (ro_insert (\<lambda>_. True)) (ro_skip (\<lambda>_. True)) (ro_pop cap)
      ro_avail rb fs = (out, rb')"
  shows "out = map (\<lambda>i. (of_nat i, D (of_nat i))) [0..<n] \<and> unat (ro_next_expected rb') = n \<and>
    ro_held rb' = {}"
  by (rule ro_permutation[OF assms])

theorem reorder_permutation_complete_witness:
  "\<exists>rb'. rx_frames ro_next_expected (ro_insert (\<lambda>_. True)) (ro_skip (\<lambda>_. True)) (ro_pop 1) ro_avail
     example_rb [(2, [2]), (0, [0]), (1, [1])] = ([(0, [0]), (1, [1]), (2, [2])], rb') \<and>
   unat (ro_next_expected rb') = 3 \<and> ro_held rb' = {}"
proof -
  have al: "urp_reorder_alloc True 0 4 = Some example_rb" by code_simp
  define r where "r = rx_frames ro_next_expected (ro_insert (\<lambda>_. True)) (ro_skip (\<lambda>_. True))
    (ro_pop 1) ro_avail example_rb [(2, [2]), (0, [0]), (1, [1])]"
  have r: "rx_frames ro_next_expected (ro_insert (\<lambda>_. True)) (ro_skip (\<lambda>_. True))
    (ro_pop 1) ro_avail example_rb [(2, [2]), (0, [0]), (1, [1])] = (fst r, snd r)"
    by (simp add: r_def)
  have "{0..<3} = {0, 1, 2 :: nat}" by auto
  then have img: "of_nat ` {0..<3} = {0, 1, 2 :: u64}" by simp
  show ?thesis
    using reorder_permutation_complete[OF al _ _ _ _ _ _ _ r, where D = "\<lambda>s. [ucast s]" and n = 3] r img
    by (intro exI[of _ "snd r"]) (simp add: upt_rec insert_commute)
qed

end
