(* ===== verification/Urp_Geometry.thy ===== *)
theory Urp_Geometry
  imports Urp_Frame
begin

text \<open>
  Buffer geometry (the resolvers of kernel/urp.h and the chunk walks of
  kernel/urp_pump.c): clamping of the configured sizes, the split of a slot
  into chunks that fit the device's scatter-gather budget, the kvec list that
  reads or writes a payload in place, and the scatter-gather lengths of a
  posted frame.  The page size of the host is a parameter.
\<close>

section \<open>Limits and resolvers\<close>

definition URP_NUM_QPS_MAX :: u32 where "URP_NUM_QPS_MAX = 32"
definition URP_NUM_QPS_MIN :: u32 where "URP_NUM_QPS_MIN = 1"
definition URP_BUFFER_COUNT_MIN :: u32 where "URP_BUFFER_COUNT_MIN = 16"
definition URP_BUFFER_COUNT_MAX :: u32 where "URP_BUFFER_COUNT_MAX = 65536"
definition URP_NUM_QPS_DEFAULT :: u32 where "URP_NUM_QPS_DEFAULT = 1"
definition URP_BUFFER_COUNT_DEFAULT :: u32 where "URP_BUFFER_COUNT_DEFAULT = 1024"
definition URP_BUFFER_SIZE_DEFAULT :: u32 where "URP_BUFFER_SIZE_DEFAULT = 4096"
definition URP_MAX_SGE :: u32 where "URP_MAX_SGE = 32"
definition URP_CHUNK_TARGET_BYTES :: u32 where "URP_CHUNK_TARGET_BYTES = 65536"

lemmas geometry_consts [urp_defs] =
  URP_NUM_QPS_MAX_def URP_NUM_QPS_MIN_def URP_BUFFER_COUNT_MIN_def URP_BUFFER_COUNT_MAX_def
  URP_NUM_QPS_DEFAULT_def URP_BUFFER_COUNT_DEFAULT_def URP_BUFFER_SIZE_DEFAULT_def
  URP_MAX_SGE_def URP_CHUNK_TARGET_BYTES_def

definition clamp_u32 :: "u32 \<Rightarrow> u32 \<Rightarrow> u32 \<Rightarrow> u32" where
  "clamp_u32 v lo hi = (if v < lo then lo else if hi < v then hi else v)"

definition urp_resolve_num_bufs :: "u32 \<Rightarrow> u32" where
  "urp_resolve_num_bufs buffer_count = clamp_u32 buffer_count URP_BUFFER_COUNT_MIN URP_BUFFER_COUNT_MAX"

definition urp_resolve_buf_size :: "u32 \<Rightarrow> u32" where
  "urp_resolve_buf_size buffer_size = clamp_u32 buffer_size URP_BUFFER_SIZE_MIN URP_BUFFER_SIZE_MAX"

definition urp_ep_max_payload :: "u32 \<Rightarrow> u32" where
  "urp_ep_max_payload buf_size = buf_size - URP_FRAME_HEADER_SIZE"

definition urp_ep_tx_max_payload :: "u32 \<Rightarrow> u32" where
  "urp_ep_tx_max_payload buf_size = urp_ep_max_payload buf_size - URP_TSTAMP_TRAILER_LEN"

text \<open>The kernel's get_order: the smallest order whose block of pages covers the size.\<close>

definition get_order :: "u32 \<Rightarrow> u32 \<Rightarrow> nat" where
  "get_order page_size sz =
    (case find (\<lambda>o'. unat sz \<le> unat page_size * 2 ^ o') [0..<32] of None \<Rightarrow> 32 | Some o' \<Rightarrow> o')"

definition DIV_ROUND_UP :: "u32 \<Rightarrow> u32 \<Rightarrow> u32" where
  "DIV_ROUND_UP n d = (n + d - 1) div d"

text \<open>
  The growing loop of the chunk resolver.  Fuel bounds the order by the width of the shift; None
  means the loop would shift past it.
\<close>

primrec resolve_chunks_loop :: "nat \<Rightarrow> u32 \<Rightarrow> u32 \<Rightarrow> u32 \<Rightarrow> nat \<Rightarrow> (u32 \<times> u32) option" where
  "resolve_chunks_loop 0 page_size buf_size max_sge order = None"
| "resolve_chunks_loop (Suc fuel) page_size buf_size max_sge order =
    (let chunk_size = push_bit order page_size;
         nchunks = DIV_ROUND_UP buf_size chunk_size
     in if nchunks > max_sge \<and> chunk_size < buf_size
        then resolve_chunks_loop fuel page_size buf_size max_sge (Suc order)
        else Some (nchunks, chunk_size))"

lemma resolve_chunks_loop_numeral:
  "resolve_chunks_loop (numeral k) page_size buf_size max_sge order =
    (let chunk_size = push_bit order page_size;
         nchunks = DIV_ROUND_UP buf_size chunk_size
     in if nchunks > max_sge \<and> chunk_size < buf_size
        then resolve_chunks_loop (pred_numeral k) page_size buf_size max_sge (Suc order)
        else Some (nchunks, chunk_size))"
  by (simp add: numeral_eq_Suc)

definition urp_resolve_chunks :: "u32 \<Rightarrow> u32 \<Rightarrow> u32 \<Rightarrow> (u32 \<times> u32) option" where
  "urp_resolve_chunks page_size buf_size max_sge =
    (let order = min (get_order page_size buf_size) (get_order page_size URP_CHUNK_TARGET_BYTES);
         max_sge = (if max_sge = 0 then 1 else max_sge)
     in resolve_chunks_loop 32 page_size buf_size max_sge order)"

section \<open>Walks over the chunks of a buffer\<close>

text \<open>A kvec is the chunk it points into, the offset in it, and its length.\<close>

type_synonym kvec = "nat \<times> u32 \<times> u32"

fun fill_kvecs_loop :: "u32 \<Rightarrow> nat \<Rightarrow> nat \<Rightarrow> u32 \<Rightarrow> u32 \<Rightarrow> kvec list" where
  "fill_kvecs_loop chunk_size j 0 off remaining = []"
| "fill_kvecs_loop chunk_size j (Suc n) off remaining =
    (if remaining = 0 then []
     else let avail = chunk_size - off;
              tk = min remaining avail
          in (j, off, tk) # fill_kvecs_loop chunk_size (Suc j) n 0 (remaining - tk))"

definition urp_frame_fill_kvecs_len :: "u32 \<Rightarrow> nat \<Rightarrow> u32 \<Rightarrow> kvec list" where
  "urp_frame_fill_kvecs_len chunk_size num_chunks payload_len =
    fill_kvecs_loop chunk_size 0 num_chunks URP_FRAME_HEADER_SIZE payload_len"

definition urp_frame_fill_kvecs :: "u32 \<Rightarrow> nat \<Rightarrow> u32 \<Rightarrow> kvec list" where
  "urp_frame_fill_kvecs chunk_size num_chunks buf_size =
    urp_frame_fill_kvecs_len chunk_size num_chunks (urp_ep_max_payload buf_size)"

definition kvec_bytes :: "bytes list \<Rightarrow> kvec list \<Rightarrow> bytes" where
  "kvec_bytes chunks kvs =
    concat (map (\<lambda>(j, off, len). take (unat len) (drop (unat off) (chunks ! j))) kvs)"

text \<open>The scatter-gather lengths a posted frame of len bytes uses, one per chunk used.\<close>

fun post_frame_sges :: "u32 \<Rightarrow> nat \<Rightarrow> u32 \<Rightarrow> u32 list" where
  "post_frame_sges chunk_size 0 remaining = []"
| "post_frame_sges chunk_size (Suc n) remaining =
    (if remaining = 0 then []
     else let clen = min remaining chunk_size
          in clen # post_frame_sges chunk_size n (remaining - clen))"

definition sge_bytes :: "bytes list \<Rightarrow> u32 list \<Rightarrow> bytes" where
  "sge_bytes chunks lens = concat (map2 (\<lambda>l c. take (unat l) c) lens chunks)"

section \<open>Chunk resolution\<close>

lemma resolve_num_bufs_bounds:
  "16 \<le> unat (urp_resolve_num_bufs n)" "unat (urp_resolve_num_bufs n) \<le> 65536"
  by (auto simp: urp_resolve_num_bufs_def clamp_u32_def geometry_consts word_less_nat_alt)

lemma resolve_buf_size_bounds:
  "68 \<le> unat (urp_resolve_buf_size n)" "unat (urp_resolve_buf_size n) \<le> 1048576"
  by (auto simp: urp_resolve_buf_size_def clamp_u32_def frame_consts word_less_nat_alt)

lemma tx_max_payload_bounds:
  assumes "68 \<le> unat bs"
  shows "unat (urp_ep_max_payload bs) = unat bs - 20"
    "unat (urp_ep_tx_max_payload bs) = unat bs - 28"
proof -
  have a: "(20 :: u32) \<le> bs" using assms by (simp add: word_le_nat_alt)
  then show m: "unat (urp_ep_max_payload bs) = unat bs - 20"
    by (simp add: urp_ep_max_payload_def frame_consts unat_sub)
  have "(8 :: u32) \<le> urp_ep_max_payload bs" using m assms by (simp add: word_le_nat_alt)
  then show "unat (urp_ep_tx_max_payload bs) = unat bs - 28"
    using m by (simp add: urp_ep_tx_max_payload_def frame_consts unat_sub)
qed

lemma get_order_upper:
  assumes "unat ps = 2 ^ p" "unat sz \<le> 2 ^ n" "p \<le> n" "n < 32"
  shows "unat sz \<le> 2 ^ (p + get_order ps sz)" "p + get_order ps sz \<le> n"
proof -
  let ?P = "\<lambda>o'. unat sz \<le> unat ps * 2 ^ o'"
  have np: "?P (n - p)" using assms by (simp add: power_add[symmetric])
  then obtain k where k: "find ?P [0..<32] = Some k"
    using assms(4) by (cases "find ?P [0..<32]") (auto simp: find_None_iff)
  then obtain i where i: "i < 32" "k = i" "?P i" "\<forall>j<i. \<not> ?P j"
    by (auto simp: find_Some_iff)
  then show "unat sz \<le> 2 ^ (p + get_order ps sz)"
    using k assms(1) by (simp add: get_order_def power_add)
  have "\<not> n - p < i" using i(4) np by auto
  then show "p + get_order ps sz \<le> n" using i(2) k assms(3) by (simp add: get_order_def)
qed

lemma unat_push_page:
  assumes "unat (ps :: u32) = 2 ^ p" "p + order \<le> 20"
  shows "unat (push_bit order ps) = 2 ^ (p + order)"
proof -
  have "(2 :: nat) ^ (p + order) \<le> 2 ^ 20" using assms(2) by (intro power_increasing) simp_all
  then have "(2 :: nat) ^ p * 2 ^ order < 2 ^ 32" by (simp add: power_add)
  then show ?thesis
    using assms(1)
    by (simp add: unsigned_push_bit_eq push_bit_eq_mult[where ?'a = nat] take_bit_nat_eq_self power_add)
qed

lemma unat_DIV_ROUND_UP:
  assumes "0 < unat d" "unat n + unat d < 2 ^ 32"
  shows "unat (DIV_ROUND_UP n d) = (unat n + unat d - 1) div unat d"
proof -
  have s: "unat (n + d) = unat n + unat d" using assms(2) by (subst unat_add_small) simp_all
  then have "(1 :: u32) \<le> n + d" using assms(1) by (simp add: word_le_nat_alt)
  then show ?thesis by (simp add: DIV_ROUND_UP_def unat_div unat_sub s)
qed

lemma div_round_up_nat:
  assumes "0 < (c :: nat)" "0 < b"
  shows "b \<le> (b + c - 1) div c * c" "(b + c - 1) div c \<le> k \<longleftrightarrow> b \<le> k * c"
    "0 < (b + c - 1) div c"
proof -
  show le: "(b + c - 1) div c \<le> k \<longleftrightarrow> b \<le> k * c" for k
  proof -
    have "(b + c - 1) div c \<le> k \<longleftrightarrow> (b + c - 1) div c < Suc k" by auto
    also have "\<dots> \<longleftrightarrow> b + c - 1 < Suc k * c" using assms(1) by (simp add: div_less_iff_less_mult)
    finally show ?thesis using assms by auto
  qed
  from this[of "(b + c - 1) div c"] show "b \<le> (b + c - 1) div c * c" by simp
  show "0 < (b + c - 1) div c" using assms by (simp add: div_greater_zero_iff)
qed

lemma resolve_chunks_loop_ends:
  assumes "unat ps = 2 ^ p" "p + order \<le> 20" "20 - (p + order) < fuel" "0 < unat bs"
    "unat bs \<le> 2 ^ 20" "0 < max_sge"
  shows "\<exists>n cs k. resolve_chunks_loop fuel ps bs max_sge order = Some (n, cs) \<and>
    unat cs = 2 ^ k \<and> p + order \<le> k \<and> k \<le> 20 \<and> unat n = (unat bs + unat cs - 1) div unat cs \<and>
    n \<le> max_sge"
  using assms
proof (induction fuel arbitrary: order)
  case (Suc fuel)
  define cs where "cs = push_bit order ps"
  define n where "n = DIV_ROUND_UP bs cs"
  have cs: "unat cs = 2 ^ (p + order)" unfolding cs_def by (rule unat_push_page[OF Suc.prems(1,2)])
  have le: "(2 :: nat) ^ (p + order) \<le> 2 ^ 20" using Suc.prems(2) by (intro power_increasing) simp_all
  have n: "unat n = (unat bs + unat cs - 1) div unat cs"
    unfolding n_def using Suc.prems(5) le cs by (intro unat_DIV_ROUND_UP) simp_all
  show ?case
  proof (cases "max_sge < n \<and> cs < bs")
    case True
    then have "2 ^ (p + order) < (2 :: nat) ^ 20"
      using Suc.prems(5) cs by (simp add: word_less_nat_alt)
    then have "p + order < 20" by (rule power_less_imp_less_exp[rotated]) simp
    then have "p + Suc order \<le> 20" by simp
    moreover have "20 - (p + Suc order) < fuel" using Suc.prems(3) calculation by linarith
    ultimately obtain n' cs' k where "resolve_chunks_loop fuel ps bs max_sge (Suc order) = Some (n', cs')"
      "unat cs' = 2 ^ k" "p + Suc order \<le> k" "k \<le> 20"
      "unat n' = (unat bs + unat cs' - 1) div unat cs'" "n' \<le> max_sge"
      using Suc.IH[of "Suc order"] Suc.prems by blast
    then show ?thesis using True by (auto simp: Let_def cs_def n_def)
  next
    case False
    have "n \<le> max_sge"
    proof (cases "max_sge < n")
      case True
      then have "unat bs \<le> 1 * unat cs" using False by (simp add: word_less_nat_alt)
      then have "unat n \<le> 1"
        unfolding n using div_round_up_nat(2)[of "unat cs" "unat bs" 1] Suc.prems(4) cs by simp
      then show ?thesis
        using Suc.prems(6) True by (simp add: word_less_nat_alt word_le_nat_alt)
    qed simp
    then show ?thesis
      using False cs n Suc.prems(2) by (auto simp: Let_def cs_def n_def)
  qed
qed simp

lemma resolve_chunks_sound:
  assumes "unat ps = 2 ^ p" "12 \<le> p" "p \<le> 16" "68 \<le> unat bs" "unat bs \<le> 2 ^ 20"
  obtains n cs where "urp_resolve_chunks ps bs max_sge = Some (n, cs)"
    "unat bs \<le> unat n * unat cs" "0 < unat n" "unat n \<le> 16" "unat n \<le> max 1 (unat max_sge)"
    "4096 \<le> unat cs" "unat cs \<le> 2 ^ 20"
proof -
  define m where "m = (if max_sge = 0 then 1 else max_sge)"
  define o0 where "o0 = min (get_order ps bs) (get_order ps URP_CHUNK_TARGET_BYTES)"
  have bs: "unat bs \<le> 2 ^ (p + get_order ps bs)" "p + get_order ps bs \<le> 20"
    using get_order_upper[OF assms(1,5)] assms(3) by simp_all
  have t: "(65536 :: nat) \<le> 2 ^ (p + get_order ps URP_CHUNK_TARGET_BYTES)"
    "p + get_order ps URP_CHUNK_TARGET_BYTES \<le> 16"
    using get_order_upper[OF assms(1), of URP_CHUNK_TARGET_BYTES 16] assms(3)
    by (simp_all add: geometry_consts)
  have "p + o0 \<le> 20" "0 < m" using bs t by (auto simp: o0_def m_def word_neq_0_conv)
  moreover have "20 - (p + o0) < 32" "0 < unat bs" using assms(4) by simp_all
  ultimately obtain n cs k where r: "resolve_chunks_loop 32 ps bs m o0 = Some (n, cs)"
    "unat cs = 2 ^ k" "p + o0 \<le> k" "k \<le> 20" "unat n = (unat bs + unat cs - 1) div unat cs" "n \<le> m"
    using resolve_chunks_loop_ends[OF assms(1)] assms(5) by metis
  have pos: "0 < unat cs" "0 < unat bs" using r(2) assms(4) by simp_all
  note d = div_round_up_nat[OF pos, folded r(5)]
  have pow: "(2 :: nat) ^ (p + o0) \<le> unat cs" unfolding r(2) using r(3) by (intro power_increasing) simp_all
  have "unat bs \<le> 16 * unat cs"
  proof (cases "get_order ps bs \<le> get_order ps URP_CHUNK_TARGET_BYTES")
    case True
    then show ?thesis using pow bs(1) by (simp add: o0_def min_def)
  next
    case False
    then have "65536 \<le> unat cs" using pow t(1) by (simp add: o0_def min_def)
    then show ?thesis using assms(5) by simp
  qed
  moreover have "(2 :: nat) ^ 12 \<le> 2 ^ (p + o0)" using assms(2) by (intro power_increasing) simp_all
  moreover have "unat cs \<le> 2 ^ 20" unfolding r(2) using r(4) by (intro power_increasing) simp_all
  moreover have "unat n \<le> max 1 (unat max_sge)"
    using r(6) by (auto simp: m_def word_le_nat_alt split: if_splits)
  ultimately show ?thesis
    using that[of n cs] r(1) d pow by (simp add: urp_resolve_chunks_def Let_def o0_def m_def)
qed

section \<open>In-place access equals the flat frame\<close>

lemma unat_min: "unat (min a b) = min (unat a) (unat b)"
  by (simp add: min_def word_le_nat_alt)

lemma fill_kvecs_loop_0 [simp]: "fill_kvecs_loop cs j n off 0 = []"
  by (cases n) simp_all

lemma post_frame_sges_0 [simp]: "post_frame_sges cs n 0 = []"
  by (cases n) simp_all

lemma take_drop_Cons_chunk:
  assumes "length c = cs" "off < cs"
  shows "take r (drop off (c @ rest)) =
    take (min r (cs - off)) (drop off c) @ take (r - min r (cs - off)) rest"
  using assms by (simp add: min_def)

lemma fill_kvecs_loop_bytes:
  assumes "\<forall>c\<in>set chunks. length c = unat cs" "j + n = length chunks" "0 < unat cs"
    "off < cs"
  shows "kvec_bytes chunks (fill_kvecs_loop cs j n off r) =
    take (unat r) (drop (unat off) (concat (drop j chunks)))"
  using assms
proof (induction n arbitrary: j off r)
  case 0
  then show ?case by (simp add: kvec_bytes_def)
next
  case (Suc n)
  have j: "j < length chunks" using Suc.prems(2) by simp
  have dj: "drop j chunks = chunks ! j # drop (Suc j) chunks" using j by (simp add: Cons_nth_drop_Suc)
  have len: "length (chunks ! j) = unat cs" using Suc.prems(1) j by simp
  have lt: "unat off < unat cs" using Suc.prems(4) by (simp add: word_less_nat_alt)
  define tk where "tk = min r (cs - off)"
  have tk: "unat tk = min (unat r) (unat cs - unat off)"
    using Suc.prems(4) by (simp add: tk_def unat_min unat_sub)
  have "unat (r - tk) = unat r - unat tk"
    by (intro unat_sub) (simp add: tk_def)
  then have IH: "kvec_bytes chunks (fill_kvecs_loop cs (Suc j) n 0 (r - tk)) =
      take (unat r - unat tk) (concat (drop (Suc j) chunks))"
    using Suc.IH[of "Suc j" 0 "r - tk"] Suc.prems(1-3) by (simp add: word_less_nat_alt)
  have "kvec_bytes chunks (fill_kvecs_loop cs j (Suc n) off r) =
      take (unat tk) (drop (unat off) (chunks ! j)) @
      (if r = 0 then [] else kvec_bytes chunks (fill_kvecs_loop cs (Suc j) n 0 (r - tk)))"
    by (simp add: Let_def tk_def[symmetric] kvec_bytes_def) (simp add: tk)
  then show ?case
    unfolding dj concat.simps take_drop_Cons_chunk[OF len lt] using IH tk by simp
qed

lemma post_frame_sges_bytes:
  assumes "\<forall>c\<in>set chunks. length c = unat cs"
  shows "sge_bytes chunks (post_frame_sges cs (length chunks) r) = take (unat r) (concat chunks)"
  using assms
proof (induction chunks arbitrary: r)
  case (Cons c chunks)
  define tk where "tk = min r cs"
  have tk: "unat tk = min (unat r) (unat cs)" by (simp add: tk_def unat_min)
  have "unat (r - tk) = unat r - unat tk" by (intro unat_sub) (simp add: tk_def)
  then have "sge_bytes chunks (post_frame_sges cs (length chunks) (r - tk)) =
      take (unat r - unat tk) (concat chunks)"
    using Cons by simp
  moreover have "length c = unat cs" using Cons.prems by simp
  then have "take (unat tk) c = take (unat r) c" "unat r - unat tk = unat r - length c"
    using tk by (cases "unat r \<le> unat cs"; simp)+
  ultimately show ?case
    by (simp add: Let_def tk_def[symmetric] sge_bytes_def)
qed (simp add: sge_bytes_def)

lemma length_fill_kvecs_loop: "length (fill_kvecs_loop cs j n off r) \<le> n"
  by (induction n arbitrary: j off r) (auto simp: Let_def)

text \<open>C12: The in-place access of a chunked buffer is exact and bounded: for every supported
  geometry and every device budget the resolver ends, its chunks cover the slot, their number fits
  the device and the fixed kvec arrays, the kvec list of a payload denotes exactly the payload bytes
  of the flat frame (so the in-place path and the gathered path agree), and the scatter-gather list
  of a posted frame denotes exactly its first len bytes.\<close>

theorem chunk_geometry_exact:
  assumes "unat ps = 2 ^ p" "12 \<le> p" "p \<le> 16" "68 \<le> unat bs" "unat bs \<le> 2 ^ 20"
  shows "\<exists>n cs. urp_resolve_chunks ps bs max_sge = Some (n, cs) \<and>
    unat bs \<le> unat n * unat cs \<and> 0 < unat n \<and> unat n \<le> max 1 (unat max_sge) \<and> n \<le> URP_MAX_SGE \<and>
    (\<forall>chunks plen. length chunks = unat n \<and> (\<forall>c\<in>set chunks. length c = unat cs) \<longrightarrow>
      kvec_bytes chunks (urp_frame_fill_kvecs_len cs (unat n) plen) =
        take (unat plen) (drop 20 (concat chunks)) \<and>
      length (urp_frame_fill_kvecs_len cs (unat n) plen) \<le> 32 \<and>
      sge_bytes chunks (post_frame_sges cs (unat n) plen) = take (unat plen) (concat chunks))"
proof -
  obtain n cs where r: "urp_resolve_chunks ps bs max_sge = Some (n, cs)"
    "unat bs \<le> unat n * unat cs" "0 < unat n" "unat n \<le> 16" "unat n \<le> max 1 (unat max_sge)"
    "4096 \<le> unat cs"
    using resolve_chunks_sound[OF assms] by metis
  have off: "(20 :: u32) < cs" using r(6) by (simp add: word_less_nat_alt)
  have "kvec_bytes chunks (urp_frame_fill_kvecs_len cs (unat n) plen) =
        take (unat plen) (drop 20 (concat chunks)) \<and>
      length (urp_frame_fill_kvecs_len cs (unat n) plen) \<le> 32 \<and>
      sge_bytes chunks (post_frame_sges cs (unat n) plen) = take (unat plen) (concat chunks)"
    if c: "length chunks = unat n" "\<forall>c\<in>set chunks. length c = unat cs" for chunks plen
    using fill_kvecs_loop_bytes[OF c(2), of 0 "unat n" 20 plen] c(1) off r(4,6)
      post_frame_sges_bytes[OF c(2), of plen] length_fill_kvecs_loop[of cs 0 "unat n" 20 plen]
    by (simp add: urp_frame_fill_kvecs_len_def frame_consts)
  moreover have "n \<le> URP_MAX_SGE" using r(4) by (simp add: geometry_consts word_le_nat_alt)
  ultimately show ?thesis using r by blast
qed

theorem chunk_geometry_exact_witness:
  "urp_resolve_chunks 4096 1048576 30 = Some (16, 65536) \<and>
   unat (1048576 :: u32) \<le> unat (16 :: u32) * unat (65536 :: u32) \<and> (16 :: u32) \<le> URP_MAX_SGE"
proof -
  have "get_order 4096 1048576 = 8" "get_order 4096 65536 = 4"
    by (simp_all add: get_order_def upt_rec)
  then have r: "urp_resolve_chunks 4096 1048576 30 = Some (16, 65536)"
    by (simp add: urp_resolve_chunks_def geometry_consts DIV_ROUND_UP_def resolve_chunks_loop_numeral)
  have "\<exists>n cs. urp_resolve_chunks 4096 1048576 30 = Some (n, cs) \<and>
    unat (1048576 :: u32) \<le> unat n * unat cs \<and> n \<le> URP_MAX_SGE"
    using chunk_geometry_exact[of 4096 12 1048576 30] by auto
  then show ?thesis using r by simp
qed

end
