(* ===== verification/Urp_Cmd_Plan.thy ===== *)
theory Urp_Cmd_Plan
  imports Urp_Prelude
begin

text \<open>
  The pure core of the zero-copy command device: request validation
  (kernel/urp_cmd_validate.c over the structures of
  kernel/include/uapi/linux/urp_cmd.h and kernel/urp_cmd.h) and the buffer
  ownership bitmap (kernel/urp_cmd_own.h, with 64-bit words), which refines a
  set of kernel-owned buffer indices.
\<close>

section \<open>Requests and validation\<close>

definition URP_CMD_REGISTER :: u32 where "URP_CMD_REGISTER = 1"
definition URP_CMD_UNREGISTER :: u32 where "URP_CMD_UNREGISTER = 2"
definition URP_CMD_SEND :: u32 where "URP_CMD_SEND = 3"
definition URP_CMD_RECV :: u32 where "URP_CMD_RECV = 4"
definition URP_CMD_F_FIN :: u16 where "URP_CMD_F_FIN = 1"
definition URP_CMD_BUF_SIZE_MIN :: u32 where "URP_CMD_BUF_SIZE_MIN = 64"
definition URP_CMD_BUF_SIZE_MAX :: u32 where "URP_CMD_BUF_SIZE_MAX = 1048576"
definition URP_CMD_POOL_COUNT_MAX :: u32 where "URP_CMD_POOL_COUNT_MAX = 65536"
definition URP_CMD_HEADER_RESV :: u32 where "URP_CMD_HEADER_RESV = 20"

lemmas cmd_consts [urp_defs] =
  URP_CMD_REGISTER_def URP_CMD_UNREGISTER_def URP_CMD_SEND_def URP_CMD_RECV_def URP_CMD_F_FIN_def
  URP_CMD_BUF_SIZE_MIN_def URP_CMD_BUF_SIZE_MAX_def URP_CMD_POOL_COUNT_MAX_def
  URP_CMD_HEADER_RESV_def

record urp_cmd_data =
  cd_buf_index :: u32
  cd_len :: u32
  cd_stream_id :: u16
  cd_flags :: u16
  cd_resv :: u32

record urp_cmd_reg =
  cr_base :: u64
  cr_len :: u64
  cr_buf_size :: u32
  cr_count :: u32
  cr_flags :: u32
  cr_resv :: u32
  cr_endpoint :: string

record urp_cmd_pool_geom =
  pg_count :: u32
  pg_buf_size :: u32

record urp_cmd_req =
  rq_op :: u32
  rq_buf_index :: u32
  rq_len :: u32
  rq_stream_id :: u16
  rq_flags :: u16

definition urp_cmd_validate_data ::
    "u32 \<Rightarrow> urp_cmd_data \<Rightarrow> urp_cmd_pool_geom \<Rightarrow> urp_cmd_req result" where
  "urp_cmd_validate_data cmd_op inp geom =
    (if cmd_op \<noteq> URP_CMD_SEND \<and> cmd_op \<noteq> URP_CMD_RECV then Inl EOPNOTSUPP
     else if cd_resv inp \<noteq> 0 then Inl EINVAL
     else
       let allowed_flags = (if cmd_op = URP_CMD_SEND then URP_CMD_F_FIN else 0)
       in if cd_flags inp AND NOT allowed_flags \<noteq> 0 then Inl EINVAL
          else if cd_len inp = 0 then Inl EINVAL
          else if pg_count geom = 0 then Inl ENXIO
          else if pg_count geom \<le> cd_buf_index inp then Inl ERANGE
          else if pg_buf_size geom - URP_CMD_HEADER_RESV < cd_len inp then Inl EMSGSIZE
          else Inr \<lparr> rq_op = cmd_op, rq_buf_index = cd_buf_index inp, rq_len = cd_len inp,
                     rq_stream_id = cd_stream_id inp, rq_flags = cd_flags inp \<rparr>)"

text \<open>IS\_ALIGNED to the page size, a parameter of the host.\<close>

definition IS_ALIGNED :: "u64 \<Rightarrow> u64 \<Rightarrow> bool" where
  "IS_ALIGNED x a \<longleftrightarrow> x AND (a - 1) = 0"

definition urp_cmd_validate_reg :: "u64 \<Rightarrow> urp_cmd_reg \<Rightarrow> unit result" where
  "urp_cmd_validate_reg page_size r =
    (if cr_flags r \<noteq> 0 \<or> cr_resv r \<noteq> 0 then Inl EINVAL
     else if cr_base r = 0 \<or> \<not> IS_ALIGNED (cr_base r) page_size then Inl EINVAL
     else if cr_buf_size r < URP_CMD_BUF_SIZE_MIN \<or> URP_CMD_BUF_SIZE_MAX < cr_buf_size r
       then Inl EINVAL
     else if cr_len r = 0 \<or> cr_len r mod ucast (cr_buf_size r) \<noteq> 0 \<or> \<not> IS_ALIGNED (cr_len r) page_size
       then Inl EINVAL
     else if cr_count r = 0 then Inl EINVAL
     else if URP_CMD_POOL_COUNT_MAX < cr_count r then Inl E2BIG
     else if ucast (cr_count r) * ucast (cr_buf_size r) \<noteq> cr_len r then Inl EINVAL
     else Inr ())"

section \<open>Ownership bitmap\<close>

definition URP_OWN_BPW :: u32 where "URP_OWN_BPW = 64"

definition urp_own_words :: "u32 \<Rightarrow> u32" where
  "urp_own_words count = (count + URP_OWN_BPW - 1) div URP_OWN_BPW"

definition own_mask :: "u32 \<Rightarrow> u64" where
  "own_mask idx = push_bit (unat (idx mod URP_OWN_BPW)) 1"

definition urp_own_claim :: "u64 list \<Rightarrow> u32 \<Rightarrow> u32 \<Rightarrow> u64 list result" where
  "urp_own_claim own count idx =
    (if count \<le> idx then Inl ERANGE
     else let w = unat (idx div URP_OWN_BPW); mask = own_mask idx
          in if own ! w AND mask \<noteq> 0 then Inl EBUSY
             else Inr (own[w := own ! w OR mask]))"

definition urp_own_release :: "u64 list \<Rightarrow> u32 \<Rightarrow> u32 \<Rightarrow> u64 list result" where
  "urp_own_release own count idx =
    (if count \<le> idx then Inl ERANGE
     else let w = unat (idx div URP_OWN_BPW); mask = own_mask idx
          in if own ! w AND mask = 0 then Inl EINVAL
             else Inr (own[w := own ! w AND NOT mask]))"

definition urp_own_is_kernel :: "u64 list \<Rightarrow> u32 \<Rightarrow> u32 \<Rightarrow> bool" where
  "urp_own_is_kernel own count idx =
    (if count \<le> idx then False
     else own ! unat (idx div URP_OWN_BPW) AND own_mask idx \<noteq> 0)"

fun own_any_loop :: "u64 list \<Rightarrow> nat \<Rightarrow> bool" where
  "own_any_loop own 0 = False"
| "own_any_loop [] (Suc n) = False"
| "own_any_loop (w # ws) (Suc n) = (if w \<noteq> 0 then True else own_any_loop ws n)"

definition urp_own_any_kernel :: "u64 list \<Rightarrow> u32 \<Rightarrow> bool" where
  "urp_own_any_kernel own count = own_any_loop own (unat (urp_own_words count))"

section \<open>The ownership contract\<close>

datatype own_op = Claim u32 | Release u32

text \<open>The operations that succeeded when a sequence of them is attempted, and the final state.\<close>

primrec own_run ::
    "('o \<Rightarrow> u32 \<Rightarrow> errno + 'o) \<Rightarrow> ('o \<Rightarrow> u32 \<Rightarrow> errno + 'o) \<Rightarrow> 'o \<Rightarrow> own_op list \<Rightarrow> own_op list \<times> 'o" where
  "own_run claim release own [] = ([], own)"
| "own_run claim release own (op # ops) =
    (case (case op of Claim i \<Rightarrow> claim own i | Release i \<Rightarrow> release own i) of
       Inl _ \<Rightarrow> own_run claim release own ops
     | Inr own' \<Rightarrow> (let (done', own'') = own_run claim release own' ops in (op # done', own'')))"

locale ownership =
  fixes claim release :: "'o \<Rightarrow> u32 \<Rightarrow> errno + 'o"
    and any :: "'o \<Rightarrow> bool"
    and owned :: "'o \<Rightarrow> u32 set"
    and invar :: "'o \<Rightarrow> bool"
    and count :: u32
  assumes claim_spec: "invar w \<Longrightarrow> (case claim w i of
        Inl e \<Rightarrow> (e = ERANGE \<and> count \<le> i) \<or> (e = EBUSY \<and> i < count \<and> i \<in> owned w)
      | Inr w' \<Rightarrow> i < count \<and> i \<notin> owned w \<and> invar w' \<and> owned w' = insert i (owned w))"
    and release_spec: "invar w \<Longrightarrow> (case release w i of
        Inl e \<Rightarrow> (e = ERANGE \<and> count \<le> i) \<or> (e = EINVAL \<and> i < count \<and> i \<notin> owned w)
      | Inr w' \<Rightarrow> i < count \<and> i \<in> owned w \<and> invar w' \<and> owned w' = owned w - {i})"
    and any_spec: "invar w \<Longrightarrow> any w \<longleftrightarrow> owned w \<noteq> {}"
begin

lemma run_balance:
  "invar w \<Longrightarrow> own_run claim release w ops = (done', w') \<Longrightarrow>
    invar w' \<and>
    (if i \<in> owned w then 1 else 0) + count_list done' (Claim i) =
      count_list done' (Release i) + (if i \<in> owned w' then 1 else (0 :: nat))"
proof (induction ops arbitrary: w done')
  case (Cons op ops)
  define res where "res = (case op of Claim i \<Rightarrow> claim w i | Release i \<Rightarrow> release w i)"
  show ?case
  proof (cases res)
    case (Inl e)
    then show ?thesis using Cons.IH[OF Cons.prems(1)] Cons.prems(2) by (simp add: res_def)
  next
    case (Inr b)
    then obtain d where d: "own_run claim release b ops = (d, w')" "done' = op # d"
      using Cons.prems(2) by (auto simp: res_def split: prod.splits)
    show ?thesis
    proof (cases op)
      case (Claim j)
      then have b: "j \<notin> owned w" "invar b" "owned b = insert j (owned w)"
        using Inr claim_spec[OF Cons.prems(1), of j] by (auto simp: res_def)
      show ?thesis
        using Cons.IH[OF b(2) d(1)] b(1) unfolding d(2) Claim b(3) by (cases "i = j") simp_all
    next
      case (Release j)
      then have b: "j \<in> owned w" "invar b" "owned b = owned w - {j}"
        using Inr release_spec[OF Cons.prems(1), of j] by (auto simp: res_def)
      show ?thesis
        using Cons.IH[OF b(2) d(1)] b(1) unfolding d(2) Release b(3) by (cases "i = j") simp_all
    qed
  qed
qed simp

end

section \<open>The bitmap meets the contract\<close>

definition own_set :: "u32 \<Rightarrow> u64 list \<Rightarrow> u32 set" where
  "own_set count own = {i. urp_own_is_kernel own count i}"

definition own_ok :: "u32 \<Rightarrow> u64 list \<Rightarrow> bool" where
  "own_ok count own \<longleftrightarrow>
    length own = unat (urp_own_words count) \<and> unat count \<le> 65536 \<and>
    (\<forall>w k. w < length own \<and> bit (own ! w) k \<longrightarrow> w * 64 + k < unat count)"

lemma unat_own_words:
  assumes "unat count \<le> 65536"
  shows "unat (urp_own_words count) = (unat count + 63) div 64"
proof -
  have "unat (count + 63) = unat count + 63" using assms by (subst unat_add_small) simp_all
  moreover have "count + 64 - 1 = count + 63" by simp
  ultimately show ?thesis by (simp only: urp_own_words_def URP_OWN_BPW_def unat_div) simp
qed

lemma own_bit: "own ! w AND own_mask i \<noteq> 0 \<longleftrightarrow> bit (own ! w) (unat i mod 64)"
  by (simp add: own_mask_def URP_OWN_BPW_def unat_mod push_bit_eq_mult and_exp_eq_0_iff_not_bit)

lemma own_index:
  assumes "own_ok count own" "i < count"
  shows "unat (i div URP_OWN_BPW) = unat i div 64" "unat i div 64 < length own"
proof -
  show "unat (i div URP_OWN_BPW) = unat i div 64" by (simp add: URP_OWN_BPW_def unat_div)
  have "unat i < unat count" using assms(2) by (simp add: word_less_nat_alt)
  then show "unat i div 64 < length own"
    using assms(1) unat_own_words[of count] unfolding own_ok_def by linarith
qed

lemma own_set_iff:
  "i \<in> own_set count own \<longleftrightarrow> i < count \<and> bit (own ! (unat i div 64)) (unat i mod 64)"
  by (auto simp: own_set_def urp_own_is_kernel_def own_bit URP_OWN_BPW_def unat_div split: if_splits)

lemma own_update_bits:
  assumes "unat i div 64 < length own"
  shows "(bit (own[unat i div 64 := own ! (unat i div 64) OR own_mask i] ! w) k \<longleftrightarrow>
      bit (own ! w) k \<or> w = unat i div 64 \<and> k = unat i mod 64)"
    "(bit (own[unat i div 64 := own ! (unat i div 64) AND NOT (own_mask i)] ! w) k \<longleftrightarrow>
      bit (own ! w) k \<and> \<not> (w = unat i div 64 \<and> k = unat i mod 64))"
proof -
  have "unat i mod 64 < 64" by simp
  then show "(bit (own[unat i div 64 := own ! (unat i div 64) OR own_mask i] ! w) k \<longleftrightarrow>
      bit (own ! w) k \<or> w = unat i div 64 \<and> k = unat i mod 64)"
    "(bit (own[unat i div 64 := own ! (unat i div 64) AND NOT (own_mask i)] ! w) k \<longleftrightarrow>
      bit (own ! w) k \<and> \<not> (w = unat i div 64 \<and> k = unat i mod 64))"
    using assms
    by (cases "w = unat i div 64";
        auto simp: bit_simps own_mask_def URP_OWN_BPW_def unat_mod dest: bit_imp_le_length)+
qed

lemma same_slot_eq:
  "unat j div 64 = unat i div 64 \<Longrightarrow> unat j mod 64 = unat i mod 64 \<Longrightarrow> j = (i :: u32)"
  by (metis div_mult_mod_eq word_unat_eq_iff)

lemma own_any_loop_set: "own_any_loop own (length own) \<longleftrightarrow> (\<exists>w\<in>set own. w \<noteq> 0)"
  by (induction own) auto

lemma own_any_loop_iff:
  "own_any_loop own (length own) \<longleftrightarrow> (\<exists>w<length own. own ! w \<noteq> 0)"
  unfolding own_any_loop_set by (metis in_set_conv_nth)

lemma own_claim_spec:
  assumes "own_ok count own"
  shows "case urp_own_claim own count i of
      Inl e \<Rightarrow> (e = ERANGE \<and> count \<le> i) \<or> (e = EBUSY \<and> i < count \<and> i \<in> own_set count own)
    | Inr own' \<Rightarrow> i < count \<and> i \<notin> own_set count own \<and> own_ok count own' \<and>
        own_set count own' = insert i (own_set count own)"
proof (cases "i < count")
  case True
  note x = own_index[OF assms True]
  show ?thesis
  proof (cases "i \<in> own_set count own")
    case False
    let ?own = "own[unat i div 64 := own ! (unat i div 64) OR own_mask i]"
    have "own_set count ?own = insert i (own_set count own)"
      using True same_slot_eq[of _ i] by (auto simp: own_set_iff own_update_bits(1)[OF x(2)])
    moreover have "own_ok count ?own"
      using assms True by (auto simp: own_ok_def own_update_bits(1)[OF x(2)] word_less_nat_alt)
    moreover have "urp_own_claim own count i = Inr ?own"
      using True False x(1)
      by (auto simp: urp_own_claim_def Let_def own_set_def urp_own_is_kernel_def not_le split: if_splits)
    ultimately show ?thesis using True False by simp
  qed (use True x(1) in \<open>auto simp: urp_own_claim_def own_set_def urp_own_is_kernel_def not_le
        split: if_splits\<close>)
qed (simp add: urp_own_claim_def not_less)

lemma own_release_spec:
  assumes "own_ok count own"
  shows "case urp_own_release own count i of
      Inl e \<Rightarrow> (e = ERANGE \<and> count \<le> i) \<or> (e = EINVAL \<and> i < count \<and> i \<notin> own_set count own)
    | Inr own' \<Rightarrow> i < count \<and> i \<in> own_set count own \<and> own_ok count own' \<and>
        own_set count own' = own_set count own - {i}"
proof (cases "i < count")
  case True
  note x = own_index[OF assms True]
  show ?thesis
  proof (cases "i \<in> own_set count own")
    case owned: True
    let ?own = "own[unat i div 64 := own ! (unat i div 64) AND NOT (own_mask i)]"
    have "own_set count ?own = own_set count own - {i}"
      using True same_slot_eq[of _ i] by (auto simp: own_set_iff own_update_bits(2)[OF x(2)])
    moreover have "own_ok count ?own"
      using assms by (auto simp: own_ok_def own_update_bits(2)[OF x(2)])
    moreover have "urp_own_release own count i = Inr ?own"
      using True owned x(1)
      by (auto simp: urp_own_release_def Let_def own_set_def urp_own_is_kernel_def not_le split: if_splits)
    ultimately show ?thesis using True owned by simp
  qed (use True x(1) in \<open>auto simp: urp_own_release_def own_set_def urp_own_is_kernel_def not_le
        split: if_splits\<close>)
qed (simp add: urp_own_release_def not_less)

lemma word_nonzero_bit: "(x :: u64) \<noteq> 0 \<longleftrightarrow> (\<exists>k. bit x k)"
proof
  assume "x \<noteq> 0"
  then show "\<exists>k. bit x k" by (auto simp: bit_eq_iff)
qed auto

lemma own_any_spec:
  assumes "own_ok count own"
  shows "urp_own_any_kernel own count \<longleftrightarrow> own_set count own \<noteq> {}"
proof -
  have "urp_own_any_kernel own count \<longleftrightarrow> (\<exists>w<length own. own ! w \<noteq> 0)"
    unfolding urp_own_any_kernel_def own_any_loop_iff[symmetric]
    using assms by (simp add: own_ok_def)
  also have "\<dots> \<longleftrightarrow> (\<exists>w<length own. \<exists>k. bit (own ! w) k)"
    unfolding word_nonzero_bit ..
  also have "\<dots> \<longleftrightarrow> own_set count own \<noteq> {}"
  proof
    assume "\<exists>w<length own. \<exists>k. bit (own ! w) k"
    then obtain w k where w: "w < length own" "bit (own ! w) k" by blast
    have k: "k < 64" using bit_imp_le_length[OF w(2)] by simp
    have lt: "w * 64 + k < unat count" using assms w by (auto simp: own_ok_def)
    define i where "i = (of_nat (w * 64 + k) :: u32)"
    have i: "unat i = w * 64 + k"
      unfolding i_def unat_of_nat using lt unat_bound[of count] by simp
    have "unat i div 64 = w" "unat i mod 64 = k" unfolding i using k by simp_all
    then have "i \<in> own_set count own" using w lt i by (simp add: own_set_iff word_less_nat_alt)
    then show "own_set count own \<noteq> {}" by blast
  next
    assume "own_set count own \<noteq> {}"
    then obtain i where i: "i \<in> own_set count own" by blast
    then show "\<exists>w<length own. \<exists>k. bit (own ! w) k"
      using own_index(2)[OF assms, of i] by (auto simp: own_set_iff)
  qed
  finally show ?thesis .
qed

interpretation own: ownership "\<lambda>own. urp_own_claim own count" "\<lambda>own. urp_own_release own count"
    "\<lambda>own. urp_own_any_kernel own count" "own_set count" "own_ok count" count
  for count
  by unfold_locales (simp_all add: own_claim_spec own_release_spec own_any_spec)

lemma own_ok_fresh:
  assumes "unat count \<le> 65536"
  shows "own_ok count (replicate (unat (urp_own_words count)) 0)"
    "own_set count (replicate (unat (urp_own_words count)) 0) = {}"
proof -
  show ok: "own_ok count (replicate (unat (urp_own_words count)) 0)"
    using assms by (auto simp: own_ok_def)
  show "own_set count (replicate (unat (urp_own_words count)) 0) = {}"
    using own_any_spec[OF ok] own_any_loop_set[of "replicate (unat (urp_own_words count)) 0"]
    by (simp add: urp_own_any_kernel_def)
qed

lemma validate_data_bounds:
  assumes "urp_cmd_validate_data op d g = Inr r" "64 \<le> unat (pg_buf_size g)"
  shows "rq_buf_index r < pg_count g \<and> 0 < unat (rq_len r) \<and>
     20 + unat (rq_len r) \<le> unat (pg_buf_size g) \<and>
     (rq_flags r AND 1 \<noteq> 0 \<longrightarrow> rq_op r = URP_CMD_SEND)"
proof -
  have "(20 :: u32) \<le> pg_buf_size g" using assms(2) by (simp add: word_le_nat_alt)
  then have sub: "unat (pg_buf_size g - 20) = unat (pg_buf_size g) - 20" by (simp add: unat_sub)
  have v: "cd_buf_index d < pg_count g" "cd_len d \<noteq> 0" "cd_len d \<le> pg_buf_size g - 20"
    "op = 3 \<or> op = 4 \<and> cd_flags d = 0"
    "r = \<lparr> rq_op = op, rq_buf_index = cd_buf_index d, rq_len = cd_len d,
       rq_stream_id = cd_stream_id d, rq_flags = cd_flags d \<rparr>"
    using assms(1)
    by (auto simp: urp_cmd_validate_data_def cmd_consts Let_def not_le not_less split: if_splits)
  then show ?thesis
    using sub assms(2) by (auto simp: word_le_nat_alt unat_gt_0 cmd_consts)
qed

lemma validate_reg_bounds:
  assumes "urp_cmd_validate_reg ps rg = Inr ()"
  shows "64 \<le> unat (cr_buf_size rg) \<and> unat (cr_buf_size rg) \<le> 1048576 \<and>
     0 < unat (cr_count rg) \<and> unat (cr_count rg) \<le> 65536 \<and>
     unat (cr_len rg) = unat (cr_count rg) * unat (cr_buf_size rg)"
proof -
  have v: "\<not> cr_buf_size rg < 64" "\<not> 1048576 < cr_buf_size rg" "cr_count rg \<noteq> 0"
    "\<not> 65536 < cr_count rg" "ucast (cr_count rg) * ucast (cr_buf_size rg) = cr_len rg"
    using assms by (auto simp: urp_cmd_validate_reg_def cmd_consts split: if_splits)
  then have b: "64 \<le> unat (cr_buf_size rg)" "unat (cr_buf_size rg) \<le> 1048576"
    "unat (cr_count rg) \<le> 65536" "0 < unat (cr_count rg)"
    by (simp_all add: word_less_nat_alt not_less unat_gt_0)
  have "unat (cr_count rg) * unat (cr_buf_size rg) \<le> 65536 * 1048576"
    using b by (intro mult_le_mono)
  then have "unat (cr_len rg) = unat (cr_count rg) * unat (cr_buf_size rg)"
    unfolding v(5)[symmetric] by (subst unat_mult_small) (simp_all add: unat_ucast_up)
  with b show ?thesis by simp
qed

section \<open>Properties\<close>

text \<open>C13: The ownership bitmap never grants a buffer twice: over any sequence of claim and release
  attempts on a fresh bitmap, for every buffer the successful claims exceed the successful releases
  by one exactly while the kernel owns it and are equal otherwise, and the quiesce test is exact.\<close>

theorem ownership_exclusive:
  assumes "unat count \<le> 65536"
    and "own_run (\<lambda>own. urp_own_claim own count) (\<lambda>own. urp_own_release own count)
      (replicate (unat (urp_own_words count)) 0) ops = (ok_ops, own)"
  shows "count_list ok_ops (Claim i) =
      count_list ok_ops (Release i) + (if urp_own_is_kernel own count i then 1 else 0) \<and>
    (urp_own_any_kernel own count \<longleftrightarrow> (\<exists>j. urp_own_is_kernel own count j))"
proof -
  note f = own_ok_fresh[OF assms(1)]
  have r: "own_ok count own"
    "count_list ok_ops (Claim i) = count_list ok_ops (Release i) +
      (if i \<in> own_set count own then 1 else 0)"
    using own.run_balance[OF f(1) assms(2), of i] f(2) by simp_all
  show ?thesis using r(2) own_any_spec[OF r(1)] by (auto simp: own_set_def)
qed

theorem ownership_exclusive_witness:
  "own_run (\<lambda>own. urp_own_claim own 70) (\<lambda>own. urp_own_release own 70) [0, 0]
     [Claim 65, Claim 65, Release 3, Claim 80] = ([Claim 65], [0, 2]) \<and>
   count_list [Claim 65] (Claim 65) = count_list [Claim 65] (Release 65) +
     (if urp_own_is_kernel [0, 2] 70 65 then 1 else 0)"
proof -
  have r: "own_run (\<lambda>own. urp_own_claim own 70) (\<lambda>own. urp_own_release own 70)
      (replicate (unat (urp_own_words 70)) 0) [Claim 65, Claim 65, Release 3, Claim 80] =
      ([Claim 65], [0, 2])" by code_simp
  moreover have "replicate (unat (urp_own_words 70)) 0 = [0, 0 :: u64]" by code_simp
  ultimately show ?thesis using ownership_exclusive[OF _ r, of 65] by simp
qed

text \<open>C16: A data request that passes validation stays inside its buffer: the index is a buffer of
  the pool, the payload is not empty and fits behind the reserved header, and only a send may carry
  the end-of-message flag.  A registration that passes gives buffers large enough for the header
  that tile the registered range exactly.\<close>

theorem validated_requests_in_bounds:
  "(urp_cmd_validate_data op d g = Inr r \<and> 64 \<le> unat (pg_buf_size g) \<longrightarrow>
     rq_buf_index r < pg_count g \<and> 0 < unat (rq_len r) \<and>
     20 + unat (rq_len r) \<le> unat (pg_buf_size g) \<and>
     (rq_flags r AND 1 \<noteq> 0 \<longrightarrow> rq_op r = URP_CMD_SEND)) \<and>
   (urp_cmd_validate_reg ps rg = Inr () \<longrightarrow>
     64 \<le> unat (cr_buf_size rg) \<and> unat (cr_buf_size rg) \<le> 1048576 \<and>
     0 < unat (cr_count rg) \<and> unat (cr_count rg) \<le> 65536 \<and>
     unat (cr_len rg) = unat (cr_count rg) * unat (cr_buf_size rg))"
  using validate_data_bounds[of op d g r] validate_reg_bounds[of ps rg] by blast

definition example_cmd :: urp_cmd_data where
  "example_cmd = \<lparr> cd_buf_index = 2, cd_len = 100, cd_stream_id = 1, cd_flags = 1, cd_resv = 0 \<rparr>"

definition example_reg :: urp_cmd_reg where
  "example_reg = \<lparr> cr_base = 4096, cr_len = 8192, cr_buf_size = 2048, cr_count = 4, cr_flags = 0,
     cr_resv = 0, cr_endpoint = ''ep0'' \<rparr>"

theorem validated_requests_in_bounds_witness:
  "unat (cr_len example_reg) = unat (cr_count example_reg) * unat (cr_buf_size example_reg) \<and>
   (\<exists>r. urp_cmd_validate_data URP_CMD_SEND example_cmd \<lparr> pg_count = 4, pg_buf_size = 2048 \<rparr> = Inr r \<and>
     20 + unat (rq_len r) \<le> 2048)"
proof -
  let ?r = "\<lparr> rq_op = 3, rq_buf_index = 2, rq_len = 100, rq_stream_id = 1, rq_flags = 1 \<rparr>"
  have "urp_cmd_validate_data URP_CMD_SEND example_cmd \<lparr> pg_count = 4, pg_buf_size = 2048 \<rparr> = Inr ?r"
    "urp_cmd_validate_reg 4096 example_reg = Inr ()"
    by code_simp+
  then show ?thesis
    using validated_requests_in_bounds[of URP_CMD_SEND example_cmd
        "\<lparr> pg_count = 4, pg_buf_size = 2048 \<rparr>" ?r 4096 example_reg] by simp
qed

end
