(* ===== verification/Urp_Pool.thy ===== *)
theory Urp_Pool
  imports Urp_Prelude
begin

text \<open>
  The contract of an index pool: a fixed number of buffers, each either free or held, handed out
  one at a time and given back.  The kernel module's send and receive pools and the benchmark
  tool's buffer ring provide it.  The clients' lemmas below follow the holder of the buffers over
  any sequence of operations.
\<close>

locale index_pool =
  fixes inv :: "'s \<Rightarrow> bool"
    and univ :: "'s \<Rightarrow> nat set"
    and free :: "'s \<Rightarrow> nat set"
    and acquire :: "'s \<Rightarrow> nat option \<times> 's"
    and release :: "'s \<Rightarrow> nat \<Rightarrow> 's"
  assumes free_bound: "inv s \<Longrightarrow> free s \<subseteq> univ s"
    and acquire_some: "inv s \<Longrightarrow> acquire s = (Some i, s') \<Longrightarrow>
      inv s' \<and> univ s' = univ s \<and> i \<in> free s \<and> free s' = free s - {i}"
    and acquire_none: "inv s \<Longrightarrow> acquire s = (None, s') \<Longrightarrow> s' = s \<and> free s = {}"
    and release_held: "inv s \<Longrightarrow> i \<in> univ s \<Longrightarrow> i \<notin> free s \<Longrightarrow>
      inv (release s i) \<and> univ (release s i) = univ s \<and> free (release s i) = insert i (free s)"
begin

text \<open>The pool with the set of indices its clients hold.\<close>

inductive held :: "'s \<Rightarrow> 's \<Rightarrow> nat set \<Rightarrow> bool" for s0 where
  start: "held s0 s0 {}"
| take: "held s0 s H \<Longrightarrow> acquire s = (Some i, s') \<Longrightarrow> held s0 s' (insert i H)"
| miss: "held s0 s H \<Longrightarrow> acquire s = (None, s') \<Longrightarrow> held s0 s' H"
| give: "held s0 s H \<Longrightarrow> i \<in> H \<Longrightarrow> held s0 (release s i) (H - {i})"

lemma held_partition:
  assumes "inv s0" "free s0 = univ s0" "held s0 s H"
  shows "inv s \<and> univ s = univ s0 \<and> H \<inter> free s = {} \<and> H \<union> free s = univ s0"
  using assms(3)
proof induction
  case start
  show ?case using assms(1,2) by simp
next
  case (take s H i s')
  then have "inv s'" "univ s' = univ s" "i \<in> free s" "free s' = free s - {i}"
    using acquire_some[of s i s'] by simp_all
  with take.IH show ?case by auto
next
  case (miss s H s')
  then show ?case using acquire_none[of s s'] by simp
next
  case (give s H i)
  then have "i \<in> univ s" "i \<notin> free s" by auto
  with give show ?case using release_held[of s i] by auto
qed

lemma acquire_exclusive:
  assumes "inv s0" "free s0 = univ s0" "held s0 s H" "acquire s = (Some i, s')"
  shows "i \<in> univ s0 \<and> i \<notin> H"
  using held_partition[OF assms(1-3)] acquire_some[of s i s'] assms(4) by blast

lemma exhausted_iff_all_held:
  assumes "inv s0" "free s0 = univ s0" "held s0 s H"
  shows "fst (acquire s) = None \<longleftrightarrow> H = univ s0"
proof (cases "acquire s")
  case (Pair r s')
  then show ?thesis
    using held_partition[OF assms] acquire_some[of s _ s'] acquire_none[of s s']
    by (cases r) auto
qed

lemma held_card:
  assumes "inv s0" "free s0 = univ s0" "held s0 s H" "finite (univ s0)"
  shows "card H + card (free s) = card (univ s0)"
proof -
  note part = held_partition[OF assms(1-3)]
  then have "H \<subseteq> univ s0" "free s \<subseteq> univ s0" by auto
  then have "finite H" "finite (free s)" using assms(4) by (auto intro: finite_subset)
  then have "card (H \<union> free s) = card H + card (free s)" using part by (intro card_Un_disjoint) auto
  then show ?thesis using part by simp
qed

end

end
