(* ===== verification/Urp_Bench_Wire.thy ===== *)
theory Urp_Bench_Wire
  imports Urp_Prelude
begin

text \<open>
  The wire layer of the benchmark tool (tools/urp-bench-core.c and .h): the
  24-byte header codec, the deterministic payload generator and verifier, and
  the incremental deframer.  The message callback is a parameter that threads
  a context and returns an int, negative to abort.  The deframer is compared
  with a reference parser over the whole byte stream.
\<close>

section \<open>Header codec\<close>

definition BENCH_HDR_SIZE :: nat where "BENCH_HDR_SIZE = 24"
definition BENCH_MAGIC :: u32 where "BENCH_MAGIC = 0x42505255"
definition BENCH_VERSION :: u8 where "BENCH_VERSION = 1"
definition BENCH_PAYLOAD_MAX :: u32 where "BENCH_PAYLOAD_MAX = push_bit 20 1"
definition BENCH_MSG_MAX :: u32 where "BENCH_MSG_MAX = of_nat BENCH_HDR_SIZE + BENCH_PAYLOAD_MAX"
definition BENCH_FLAG_ECHO :: u8 where "BENCH_FLAG_ECHO = 1"
definition BENCH_FLAG_FIN :: u8 where "BENCH_FLAG_FIN = 2"
definition BENCH_FLAG_MASK :: u8 where "BENCH_FLAG_MASK = BENCH_FLAG_ECHO OR BENCH_FLAG_FIN"

definition BENCH_ESHORT :: int where "BENCH_ESHORT = 1"
definition BENCH_EMAGIC :: int where "BENCH_EMAGIC = 2"
definition BENCH_EVERSION :: int where "BENCH_EVERSION = 3"
definition BENCH_EFLAGS :: int where "BENCH_EFLAGS = 4"
definition BENCH_ECAP :: int where "BENCH_ECAP = 5"
definition BENCH_ECORRUPT :: int where "BENCH_ECORRUPT = 6"

lemmas bench_wire_consts =
  BENCH_HDR_SIZE_def BENCH_MAGIC_def BENCH_VERSION_def BENCH_PAYLOAD_MAX_def BENCH_MSG_MAX_def
  BENCH_FLAG_ECHO_def BENCH_FLAG_FIN_def BENCH_FLAG_MASK_def BENCH_ESHORT_def BENCH_EMAGIC_def
  BENCH_EVERSION_def BENCH_EFLAGS_def BENCH_ECAP_def BENCH_ECORRUPT_def

record bench_hdr =
  bh_magic :: u32
  bh_version :: u8
  bh_flags :: u8
  bh_origin_id :: u16
  bh_payload_len :: u32
  bh_seq :: u32
  bh_t_send_ns :: u64

definition put_le16 :: "u16 \<Rightarrow> bytes" where
  "put_le16 v = [ucast v, ucast (drop_bit 8 v)]"

definition put_le32 :: "u32 \<Rightarrow> bytes" where
  "put_le32 v = [ucast v, ucast (drop_bit 8 v), ucast (drop_bit 16 v), ucast (drop_bit 24 v)]"

definition put_le64 :: "u64 \<Rightarrow> bytes" where
  "put_le64 v = put_le32 (ucast v) @ put_le32 (ucast (drop_bit 32 v))"

definition get_le16 :: "bytes \<Rightarrow> u16" where
  "get_le16 p = ucast (p ! 0) OR push_bit 8 (ucast (p ! 1))"

definition get_le32 :: "bytes \<Rightarrow> u32" where
  "get_le32 p = ucast (p ! 0) OR push_bit 8 (ucast (p ! 1)) OR push_bit 16 (ucast (p ! 2))
    OR push_bit 24 (ucast (p ! 3))"

definition get_le64 :: "bytes \<Rightarrow> u64" where
  "get_le64 p = ucast (get_le32 p) OR push_bit 32 (ucast (get_le32 (drop 4 p)))"

text \<open>The 24 bytes the encoder writes into its output array.\<close>

definition bench_hdr_encode :: "bench_hdr \<Rightarrow> bytes" where
  "bench_hdr_encode h =
    put_le32 (bh_magic h) @ [bh_version h] @ [bh_flags h] @ put_le16 (bh_origin_id h)
    @ put_le32 (bh_payload_len h) @ put_le32 (bh_seq h) @ put_le64 (bh_t_send_ns h)"

definition bench_hdr_decode :: "bytes \<Rightarrow> nat \<Rightarrow> u32 \<Rightarrow> bench_hdr \<Rightarrow> int \<times> bench_hdr" where
  "bench_hdr_decode buf len max_payload out =
    (if len < BENCH_HDR_SIZE then (- BENCH_ESHORT, out)
     else
       let out = \<lparr> bh_magic = get_le32 buf, bh_version = buf ! 4, bh_flags = buf ! 5,
                   bh_origin_id = get_le16 (drop 6 buf), bh_payload_len = get_le32 (drop 8 buf),
                   bh_seq = get_le32 (drop 12 buf), bh_t_send_ns = get_le64 (drop 16 buf) \<rparr>;
           cap = (if max_payload \<noteq> 0 \<and> max_payload < BENCH_PAYLOAD_MAX then max_payload
                  else BENCH_PAYLOAD_MAX)
       in if bh_magic out \<noteq> BENCH_MAGIC then (- BENCH_EMAGIC, out)
          else if bh_version out \<noteq> BENCH_VERSION then (- BENCH_EVERSION, out)
          else if bh_flags out AND NOT BENCH_FLAG_MASK \<noteq> 0 then (- BENCH_EFLAGS, out)
          else if cap < bh_payload_len out then (- BENCH_ECAP, out)
          else (0, out))"

section \<open>Deterministic payload\<close>

definition bench_seed :: "u16 \<Rightarrow> u32 \<Rightarrow> u32" where
  "bench_seed origin_id seq =
    (let s = push_bit 16 (ucast origin_id) XOR seq in if s \<noteq> 0 then s else 0x9e3779b9)"

definition xorshift32 :: "u32 \<Rightarrow> u32" where
  "xorshift32 x =
    (let x = x XOR push_bit 13 x;
         x = x XOR drop_bit 17 x
     in x XOR push_bit 5 x)"

primrec fill_loop :: "nat \<Rightarrow> nat \<Rightarrow> u32 \<Rightarrow> bytes" where
  "fill_loop 0 i x = []"
| "fill_loop (Suc n) i x =
    (let x = (if i mod 4 = 0 then xorshift32 x else x)
     in ucast (drop_bit (i mod 4 * 8) x) # fill_loop n (Suc i) x)"

definition bench_fill_payload :: "nat \<Rightarrow> u16 \<Rightarrow> u32 \<Rightarrow> bytes" where
  "bench_fill_payload len origin_id seq = fill_loop len 0 (bench_seed origin_id seq)"

fun verify_loop :: "bytes \<Rightarrow> nat \<Rightarrow> u32 \<Rightarrow> int" where
  "verify_loop [] i x = 0"
| "verify_loop (b # p) i x =
    (let x = (if i mod 4 = 0 then xorshift32 x else x)
     in if b \<noteq> ucast (drop_bit (i mod 4 * 8) x) then - BENCH_ECORRUPT
        else verify_loop p (Suc i) x)"

definition bench_verify_payload :: "bytes \<Rightarrow> nat \<Rightarrow> u16 \<Rightarrow> u32 \<Rightarrow> int" where
  "bench_verify_payload p len origin_id seq = verify_loop (take len p) 0 (bench_seed origin_id seq)"

section \<open>Incremental deframer\<close>

datatype bench_deframe_state = BENCH_DF_WANT_HDR | BENCH_DF_WANT_PAYLOAD

text \<open>
  The byte counts hdr\_have and asm\_have are bounded by 24 and by the payload length, so they
  are naturals here.
\<close>

record bench_deframer =
  df_state :: bench_deframe_state
  df_hdr_buf :: bytes
  df_hdr_have :: nat
  df_hdr :: bench_hdr
  df_asm_buf :: bytes
  df_asm_cap :: nat
  df_asm_have :: nat
  df_max_payload :: u32
  df_msgs_total :: u64
  df_msgs_reassembled :: u64

definition bench_hdr_zero :: bench_hdr where
  "bench_hdr_zero = \<lparr> bh_magic = 0, bh_version = 0, bh_flags = 0, bh_origin_id = 0,
     bh_payload_len = 0, bh_seq = 0, bh_t_send_ns = 0 \<rparr>"

definition bench_deframer_init :: "bytes \<Rightarrow> nat \<Rightarrow> u32 \<Rightarrow> bench_deframer" where
  "bench_deframer_init asm_buf asm_cap max_payload =
    \<lparr> df_state = BENCH_DF_WANT_HDR, df_hdr_buf = replicate BENCH_HDR_SIZE 0, df_hdr_have = 0,
      df_hdr = bench_hdr_zero, df_asm_buf = asm_buf, df_asm_cap = asm_cap, df_asm_have = 0,
      df_max_payload = max_payload, df_msgs_total = 0, df_msgs_reassembled = 0 \<rparr>"

type_synonym 'c bench_msg_cb = "'c \<Rightarrow> bench_hdr \<Rightarrow> bytes \<Rightarrow> int \<times> 'c"

definition deframe_deliver ::
    "'c bench_msg_cb \<Rightarrow> bench_deframer \<Rightarrow> bytes \<Rightarrow> bool \<Rightarrow> 'c \<Rightarrow> int \<times> bench_deframer \<times> 'c" where
  "deframe_deliver cb d payload reassembled ctx =
    (let d = d\<lparr>df_msgs_total := df_msgs_total d + 1\<rparr>;
         d = (if reassembled then d\<lparr>df_msgs_reassembled := df_msgs_reassembled d + 1\<rparr> else d);
         (ret, ctx) = cb ctx (df_hdr d) (take (unat (bh_payload_len (df_hdr d))) payload)
     in (ret, d\<lparr>df_state := BENCH_DF_WANT_HDR, df_hdr_have := 0, df_asm_have := 0\<rparr>, ctx))"

text \<open>The outcome of one loop iteration: the feed returns, or it continues with what is left.\<close>

datatype 'c feed_step = Feed_Return int bench_deframer 'c | Feed_Continue bench_deframer 'c bytes

definition deframe_after :: "int \<times> bench_deframer \<times> 'c \<Rightarrow> bytes \<Rightarrow> 'c feed_step" where
  "deframe_after r rest =
    (case r of (ret, d, ctx) \<Rightarrow>
      if ret < 0 then Feed_Return ret d ctx else Feed_Continue d ctx rest)"

definition feed_header_ready ::
    "'c bench_msg_cb \<Rightarrow> bench_deframer \<Rightarrow> 'c \<Rightarrow> bytes \<Rightarrow> 'c feed_step" where
  "feed_header_ready cb d ctx rest =
    (let (ret, h) = bench_hdr_decode (df_hdr_buf d) BENCH_HDR_SIZE (df_max_payload d) (df_hdr d);
         d = d\<lparr>df_hdr := h\<rparr>
     in if ret < 0 then Feed_Return ret d ctx
        else if df_asm_cap d < unat (bh_payload_len h) then Feed_Return (- BENCH_ECAP) d ctx
        else
          let d = d\<lparr>df_state := BENCH_DF_WANT_PAYLOAD, df_asm_have := 0\<rparr>
          in if bh_payload_len h = 0
             then deframe_after (deframe_deliver cb d (df_asm_buf d) True ctx) rest
             else Feed_Continue d ctx rest)"

definition feed_stage_header ::
    "'c bench_msg_cb \<Rightarrow> bench_deframer \<Rightarrow> 'c \<Rightarrow> bytes \<Rightarrow> 'c feed_step" where
  "feed_stage_header cb d ctx rest =
    (let want = BENCH_HDR_SIZE - df_hdr_have d;
         tk = min (length rest) want;
         d = d\<lparr>df_hdr_buf := write_at (df_hdr_buf d) (df_hdr_have d) (take tk rest),
               df_hdr_have := df_hdr_have d + tk\<rparr>;
         rest = drop tk rest
     in if df_hdr_have d < BENCH_HDR_SIZE then Feed_Return 0 d ctx
        else feed_header_ready cb d ctx rest)"

definition feed_iter ::
    "'c bench_msg_cb \<Rightarrow> bench_deframer \<Rightarrow> 'c \<Rightarrow> bytes \<Rightarrow> 'c feed_step" where
  "feed_iter cb d ctx rest =
    (case df_state d of
       BENCH_DF_WANT_HDR \<Rightarrow>
         if df_hdr_have d = 0 \<and> BENCH_HDR_SIZE \<le> length rest then
           (let (ret, h) = bench_hdr_decode rest (length rest) (df_max_payload d) (df_hdr d);
                d = d\<lparr>df_hdr := h\<rparr>
            in if ret < 0 \<and> ret \<noteq> - BENCH_ESHORT then Feed_Return ret d ctx
               else if ret = 0 \<and> unat (bh_payload_len h) \<le> length rest - BENCH_HDR_SIZE then
                 deframe_after
                   (deframe_deliver cb d (drop BENCH_HDR_SIZE rest) False ctx)
                   (drop (BENCH_HDR_SIZE + unat (bh_payload_len h)) rest)
               else feed_stage_header cb d ctx rest)
         else feed_stage_header cb d ctx rest
     | BENCH_DF_WANT_PAYLOAD \<Rightarrow>
         (let want = unat (bh_payload_len (df_hdr d)) - df_asm_have d;
              tk = min (length rest) want;
              d = d\<lparr>df_asm_buf := write_at (df_asm_buf d) (df_asm_have d) (take tk rest),
                    df_asm_have := df_asm_have d + tk\<rparr>;
              rest = drop tk rest
          in if df_asm_have d < unat (bh_payload_len (df_hdr d)) then Feed_Return 0 d ctx
             else deframe_after (deframe_deliver cb d (df_asm_buf d) True ctx) rest))"

text \<open>Every iteration that continues consumes a byte, so the chunk length bounds the loop.\<close>

primrec feed_loop ::
    "'c bench_msg_cb \<Rightarrow> nat \<Rightarrow> bench_deframer \<Rightarrow> 'c \<Rightarrow> bytes \<Rightarrow> int \<times> bench_deframer \<times> 'c" where
  "feed_loop cb 0 d ctx rest = (0, d, ctx)"
| "feed_loop cb (Suc n) d ctx rest =
    (if rest = [] then (0, d, ctx)
     else case feed_iter cb d ctx rest of
            Feed_Return ret d ctx \<Rightarrow> (ret, d, ctx)
          | Feed_Continue d ctx rest \<Rightarrow> feed_loop cb n d ctx rest)"

definition bench_deframe_feed ::
    "'c bench_msg_cb \<Rightarrow> bench_deframer \<Rightarrow> bytes \<Rightarrow> 'c \<Rightarrow> int \<times> bench_deframer \<times> 'c" where
  "bench_deframe_feed cb d chunk ctx = feed_loop cb (length chunk) d ctx chunk"

section \<open>The header codec is a bijection on valid headers\<close>

lemma put_le16_bytes: "put_le16 v = le_bytes 2 v"
  by (simp add: put_le16_def le_simps)

lemma put_le32_bytes: "put_le32 v = le_bytes 4 v"
  by (simp add: put_le32_def le_simps)

lemma put_le64_bytes: "put_le64 v = le_bytes 8 v"
proof (rule nth_equalityI)
  fix i assume "i < length (put_le64 v)"
  then have "i < 8" by (simp add: put_le64_def put_le32_def)
  then have "i \<in> {0, 1, 2, 3, 4, 5, 6, 7}" by auto
  then show "put_le64 v ! i = le_bytes 8 v ! i"
    by (auto simp: nth_le_bytes put_le64_def put_le32_def intro!: bit_word_eqI)
      (simp_all add: bit_simps)
qed (simp add: put_le64_def put_le32_def)

lemma get_le16_word: "2 \<le> length p \<Longrightarrow> get_le16 p = le_word (take 2 p)"
  by (cases p; cases "tl p") (auto simp: get_le16_def numeral_2_eq_2)

lemma four_bytes: "4 \<le> length p \<Longrightarrow> take 4 p = [p ! 0, p ! 1, p ! 2, p ! 3]"
  by (rule nth_equalityI) (auto simp: less_Suc_eq numeral_eq_Suc)

lemma get_le32_word: "4 \<le> length p \<Longrightarrow> get_le32 p = le_word (take 4 p)"
  by (simp add: get_le32_def four_bytes or.assoc)

lemma get_le64_word:
  assumes "8 \<le> length p"
  shows "get_le64 p = le_word (take 8 p)"
proof (rule bit_word_eqI)
  fix n assume n: "n < LENGTH(64)"
  have lo: "get_le32 p = le_word (take 4 p)" and hi: "get_le32 (drop 4 p) = le_word (take 4 (drop 4 p))"
    using assms by (simp_all add: get_le32_word)
  show "bit (get_le64 p) n = bit (le_word (take 8 p) :: u64) n"
  proof (cases "n < 32")
    case True
    then have "n div 8 < 4" by auto
    with True show ?thesis using assms n by (simp add: get_le64_def lo hi bit_simps bit_le_word)
  next
    case False
    then have "(n - 32) div 8 + 4 = n div 8" "(n - 32) mod 8 = n mod 8" by (auto simp: le_div_geq le_mod_geq)
    moreover from this have "4 + (n - 32) div 8 = n div 8" by simp
    moreover have "n - 32 < 32" "(n - 32) div 8 < 4" "n div 8 < 8" using n by (auto simp: less_mult_imp_div_less)
    ultimately show ?thesis using False assms n
      by (simp add: get_le64_def lo hi bit_simps bit_le_word)
  qed
qed

lemma length_bench_puts [simp]:
  "length (put_le16 a) = 2" "length (put_le32 b) = 4" "length (put_le64 c) = 8"
  by (simp_all add: put_le16_def put_le32_def put_le64_def)

lemma length_bench_hdr_encode [simp]: "length (bench_hdr_encode h) = BENCH_HDR_SIZE"
  by (simp add: bench_hdr_encode_def BENCH_HDR_SIZE_def)

definition bench_cap :: "u32 \<Rightarrow> u32" where
  "bench_cap max_payload =
    (if max_payload \<noteq> 0 \<and> max_payload < BENCH_PAYLOAD_MAX then max_payload else BENCH_PAYLOAD_MAX)"

text \<open>The headers the decoder accepts under a payload limit.\<close>

definition bench_hdr_valid :: "u32 \<Rightarrow> bench_hdr \<Rightarrow> bool" where
  "bench_hdr_valid max_payload h \<longleftrightarrow>
    bh_magic h = BENCH_MAGIC \<and> bh_version h = BENCH_VERSION
    \<and> bh_flags h AND NOT BENCH_FLAG_MASK = 0 \<and> bh_payload_len h \<le> bench_cap max_payload"

definition hdr_fields :: "bytes \<Rightarrow> bench_hdr" where
  "hdr_fields buf = \<lparr> bh_magic = get_le32 buf, bh_version = buf ! 4, bh_flags = buf ! 5,
     bh_origin_id = get_le16 (drop 6 buf), bh_payload_len = get_le32 (drop 8 buf),
     bh_seq = get_le32 (drop 12 buf), bh_t_send_ns = get_le64 (drop 16 buf) \<rparr>"

lemma bench_hdr_decode_fields:
  "BENCH_HDR_SIZE \<le> len \<Longrightarrow> snd (bench_hdr_decode buf len mp out) = hdr_fields buf"
  by (simp add: bench_hdr_decode_def hdr_fields_def Let_def)

lemma bench_hdr_decode_zero:
  "fst (bench_hdr_decode buf len mp out) = 0
    \<longleftrightarrow> BENCH_HDR_SIZE \<le> len \<and> bench_hdr_valid mp (hdr_fields buf)"
  by (auto simp: bench_hdr_decode_def bench_hdr_valid_def hdr_fields_def bench_cap_def Let_def
      BENCH_ESHORT_def BENCH_EMAGIC_def BENCH_EVERSION_def BENCH_EFLAGS_def BENCH_ECAP_def)

lemma bench_hdr_decode_nonpos: "fst (bench_hdr_decode buf len mp out) \<le> 0"
  by (simp add: bench_hdr_decode_def Let_def
      BENCH_ESHORT_def BENCH_EMAGIC_def BENCH_EVERSION_def BENCH_EFLAGS_def BENCH_ECAP_def)

lemma bench_hdr_decode_not_short:
  "BENCH_HDR_SIZE \<le> len \<Longrightarrow> fst (bench_hdr_decode buf len mp out) \<noteq> - BENCH_ESHORT"
  by (simp add: bench_hdr_decode_def Let_def
      BENCH_ESHORT_def BENCH_EMAGIC_def BENCH_EVERSION_def BENCH_EFLAGS_def BENCH_ECAP_def)

lemma hdr_fields_encode: "hdr_fields (bench_hdr_encode h @ rest) = h"
proof (cases h)
  case (fields mg v fl o' pl sq ts)
  show ?thesis
    unfolding fields hdr_fields_def bench_hdr_encode_def
    by (simp add: get_le32_word get_le16_word get_le64_word put_le16_bytes put_le32_bytes
        put_le64_bytes le_word_le_bytes nth_append take_bit_word_eq_self)
qed

lemma encode_hdr_fields:
  assumes "BENCH_HDR_SIZE \<le> length buf"
  shows "bench_hdr_encode (hdr_fields buf) = take BENCH_HDR_SIZE buf"
proof -
  have eq: "le_bytes 4 (get_le32 p) = take 4 p" if "4 \<le> length p" for p
    using that le_bytes_le_word[of "take 4 p", where ?'a = 32] by (simp add: get_le32_word min_absorb2)
  have eq16: "le_bytes 2 (get_le16 p) = take 2 p" if "2 \<le> length p" for p
    using that le_bytes_le_word[of "take 2 p", where ?'a = 16] by (simp add: get_le16_word min_absorb2)
  have eq64: "le_bytes 8 (get_le64 p) = take 8 p" if "8 \<le> length p" for p
    using that le_bytes_le_word[of "take 8 p", where ?'a = 64] by (simp add: get_le64_word min_absorb2)
  have one: "[buf ! i] = take 1 (drop i buf)" if "i < length buf" for i
    using that by (simp add: take_Suc_conv_app_nth)
  have len: "24 \<le> length buf" using assms by (simp add: BENCH_HDR_SIZE_def)
  have "bench_hdr_encode (hdr_fields buf) = take 4 buf @ take 1 (drop 4 buf) @ take 1 (drop 5 buf)
      @ take 2 (drop 6 buf) @ take 4 (drop 8 buf) @ take 4 (drop 12 buf) @ take 8 (drop 16 buf)"
    using len by (simp add: bench_hdr_encode_def hdr_fields_def put_le16_bytes put_le32_bytes
        put_le64_bytes eq eq16 eq64 one)
  also have "\<dots> = take 24 buf"
    using take_add[of 4 20 buf] take_add[of 1 19 "drop 4 buf"] take_add[of 1 18 "drop 5 buf"]
      take_add[of 2 16 "drop 6 buf"] take_add[of 4 12 "drop 8 buf"] take_add[of 4 8 "drop 12 buf"]
    by simp
  finally show ?thesis by (simp add: BENCH_HDR_SIZE_def)
qed

text \<open>
  the benchmark header codec.  The decoder accepts a buffer exactly when it starts with the
  encoding of a valid header, whose fields it returns: an encoded valid header decodes to itself
  whatever follows it, and the first 24 bytes of every accepted buffer are the encoding of the
  decoded header.
\<close>

theorem bench_header_roundtrip:
  "bench_hdr_decode buf (length buf) mp out = (0, h)
    \<longleftrightarrow> bench_hdr_valid mp h \<and> (\<exists>rest. buf = bench_hdr_encode h @ rest)"
proof
  assume dec: "bench_hdr_decode buf (length buf) mp out = (0, h)"
  then have len: "BENCH_HDR_SIZE \<le> length buf" and v: "bench_hdr_valid mp (hdr_fields buf)"
    using bench_hdr_decode_zero[of buf "length buf" mp out] by simp_all
  moreover from dec len have "h = hdr_fields buf"
    using bench_hdr_decode_fields[of "length buf" buf mp out] by simp
  moreover from len have "buf = bench_hdr_encode (hdr_fields buf) @ drop BENCH_HDR_SIZE buf"
    by (simp add: encode_hdr_fields)
  ultimately show "bench_hdr_valid mp h \<and> (\<exists>rest. buf = bench_hdr_encode h @ rest)" by blast
next
  assume "bench_hdr_valid mp h \<and> (\<exists>rest. buf = bench_hdr_encode h @ rest)"
  then obtain rest where v: "bench_hdr_valid mp h" and buf: "buf = bench_hdr_encode h @ rest" by blast
  have h: "hdr_fields buf = h" unfolding buf by (rule hdr_fields_encode)
  have "BENCH_HDR_SIZE \<le> length buf" by (simp add: buf)
  then show "bench_hdr_decode buf (length buf) mp out = (0, h)"
    using bench_hdr_decode_zero[of buf "length buf" mp out] bench_hdr_decode_fields[of "length buf" buf mp out]
      v h by (simp add: prod_eq_iff)
qed

section \<open>The payload verifier\<close>

lemma length_fill_loop [simp]: "length (fill_loop n i x) = n"
  by (induction n arbitrary: i x) (auto simp: Let_def)

lemma verify_loop_iff:
  "verify_loop p i x = (if p = fill_loop (length p) i x then 0 else - BENCH_ECORRUPT)"
  by (induction p i x rule: verify_loop.induct) (auto simp: Let_def)

lemma push_fix_zero:
  fixes x :: u32
  assumes "x = push_bit k x" "0 < k"
  shows "x = 0"
proof -
  have "x = push_bit (k * m) x" for m
  proof (induction m)
    case (Suc m)
    have "push_bit (k * Suc m) x = push_bit (k * m) (push_bit k x)" by (simp add: algebra_simps)
    with Suc assms(1) show ?case by simp
  qed simp
  from this[of 32] have "x = push_bit (k * 32) x" .
  moreover have "push_bit (k * 32) x = 0"
    using assms(2) by (intro bit_word_eqI) (auto simp: bit_simps)
  ultimately show ?thesis by simp
qed

lemma drop_fix_zero:
  fixes x :: u32
  assumes "x = drop_bit k x" "0 < k"
  shows "x = 0"
proof -
  have "x = drop_bit (k * m) x" for m
  proof (induction m)
    case (Suc m)
    have "drop_bit (k * Suc m) x = drop_bit (k * m) (drop_bit k x)" by (simp add: algebra_simps)
    with Suc assms(1) show ?case by simp
  qed simp
  from this[of 32] have "x = drop_bit (k * 32) x" .
  moreover have "drop_bit (k * 32) x = 0"
    using assms(2) by (intro bit_word_eqI) (auto simp: bit_simps dest!: bit_imp_le_length)
  ultimately show ?thesis by simp
qed

lemma xor_zero_eq:
  assumes "(x :: u32) XOR y = 0"
  shows "x = y"
proof -
  have "x XOR (y XOR y) = y" unfolding xor.assoc[symmetric] assms by simp
  then show ?thesis by simp
qed

lemma xor_shift_nonzero:
  "(x :: u32) \<noteq> 0 \<Longrightarrow> 0 < k \<Longrightarrow> x XOR push_bit k x \<noteq> 0"
  "(x :: u32) \<noteq> 0 \<Longrightarrow> 0 < k \<Longrightarrow> x XOR drop_bit k x \<noteq> 0"
  using push_fix_zero[of x k] drop_fix_zero[of x k] xor_zero_eq[of x] by blast+

lemma xorshift32_nonzero: "x \<noteq> 0 \<Longrightarrow> xorshift32 x \<noteq> 0"
  unfolding xorshift32_def Let_def by (intro xor_shift_nonzero) simp_all

lemma bench_seed_nonzero: "bench_seed o' s \<noteq> 0"
  by (simp add: bench_seed_def Let_def)

text \<open>
  C21: the payload verifier accepts exactly the generated payload: it returns 0 when the bytes are
  those the generator writes for the origin and sequence number and BENCH\_ECORRUPT for every other
  content, and the generator is seeded with and keeps a non-zero state, so the pattern never
  degenerates to zeros.
\<close>

theorem bench_payload_verifier_exact:
  "bench_verify_payload p len origin sq =
     (if take len p = bench_fill_payload (min (length p) len) origin sq then 0 else - BENCH_ECORRUPT)
   \<and> length (bench_fill_payload len origin sq) = len
   \<and> (xorshift32 ^^ k) (bench_seed origin sq) \<noteq> 0"
proof (intro conjI)
  show "bench_verify_payload p len origin sq =
     (if take len p = bench_fill_payload (min (length p) len) origin sq then 0 else - BENCH_ECORRUPT)"
    by (simp add: bench_verify_payload_def bench_fill_payload_def verify_loop_iff)
  show "(xorshift32 ^^ k) (bench_seed origin sq) \<noteq> 0"
    by (induction k) (simp_all add: bench_seed_nonzero xorshift32_nonzero)
qed (simp add: bench_fill_payload_def)

section \<open>The deframer against a reference parser\<close>

text \<open>
  The reference parser sees the whole byte stream at once.  It returns the first negative result
  of the decoder or the callback, or 0 with the bytes of the message that is not yet complete.
\<close>

function bench_parse_all :: "'c bench_msg_cb \<Rightarrow> u32 \<Rightarrow> bytes \<Rightarrow> 'c \<Rightarrow> int \<times> 'c \<times> bytes" where
  "bench_parse_all cb mp bs ctx =
    (let h = hdr_fields bs;
         n = BENCH_HDR_SIZE + unat (bh_payload_len h)
     in if length bs < BENCH_HDR_SIZE then (0, ctx, bs)
        else if \<not> bench_hdr_valid mp h
        then (fst (bench_hdr_decode bs (length bs) mp h), ctx, bs)
        else if length bs < n then (0, ctx, bs)
        else
          let (ret, ctx) = cb ctx h (take (unat (bh_payload_len h)) (drop BENCH_HDR_SIZE bs))
          in if ret < 0 then (ret, ctx, drop n bs)
             else bench_parse_all cb mp (drop n bs) ctx)"
  by pat_completeness auto
termination
  by (relation "measure (\<lambda>(cb, mp, bs, ctx). length bs)") (auto simp: BENCH_HDR_SIZE_def)

declare bench_parse_all.simps [simp del]

definition pending :: "bench_deframer \<Rightarrow> bytes" where
  "pending d =
    (case df_state d of
       BENCH_DF_WANT_HDR \<Rightarrow> take (df_hdr_have d) (df_hdr_buf d)
     | BENCH_DF_WANT_PAYLOAD \<Rightarrow> df_hdr_buf d @ take (df_asm_have d) (df_asm_buf d))"

definition df_ok :: "u32 \<Rightarrow> bench_deframer \<Rightarrow> bool" where
  "df_ok mp d \<longleftrightarrow>
    length (df_hdr_buf d) = BENCH_HDR_SIZE \<and> length (df_asm_buf d) = df_asm_cap d
    \<and> df_max_payload d = mp \<and> unat (bench_cap mp) \<le> df_asm_cap d
    \<and> (case df_state d of
         BENCH_DF_WANT_HDR \<Rightarrow> df_hdr_have d < BENCH_HDR_SIZE
       | BENCH_DF_WANT_PAYLOAD \<Rightarrow>
           df_hdr d = hdr_fields (df_hdr_buf d) \<and> bench_hdr_valid mp (df_hdr d)
           \<and> df_asm_have d < unat (bh_payload_len (df_hdr d)))"

lemma hdr_fields_append: "BENCH_HDR_SIZE \<le> length bs \<Longrightarrow> hdr_fields (bs @ xs) = hdr_fields bs"
  by (metis append_take_drop_id append.assoc encode_hdr_fields hdr_fields_encode)

lemma hdr_fields_take: "BENCH_HDR_SIZE \<le> length bs \<Longrightarrow> hdr_fields (take BENCH_HDR_SIZE bs) = hdr_fields bs"
  by (metis append_Nil2 encode_hdr_fields hdr_fields_encode)

lemma bench_hdr_decode_cong:
  assumes "BENCH_HDR_SIZE \<le> len" "BENCH_HDR_SIZE \<le> len'" "hdr_fields bs = hdr_fields bs'"
  shows "bench_hdr_decode bs len mp out = bench_hdr_decode bs' len' mp out'"
  using assms by (auto simp: bench_hdr_decode_def hdr_fields_def Let_def)

lemma parse_short: "length bs < BENCH_HDR_SIZE \<Longrightarrow> bench_parse_all cb mp bs ctx = (0, ctx, bs)"
  by (simp add: bench_parse_all.simps Let_def)

lemma parse_invalid:
  assumes "length hb = BENCH_HDR_SIZE" "\<not> bench_hdr_valid mp (hdr_fields hb)"
  shows "bench_parse_all cb mp (hb @ rest) ctx
    = (fst (bench_hdr_decode hb BENCH_HDR_SIZE mp out), ctx, hb @ rest)"
  using assms
  by (simp add: bench_parse_all.simps[of cb mp "hb @ rest"] Let_def hdr_fields_append
      bench_hdr_decode_cong[of BENCH_HDR_SIZE "length (hb @ rest)" hb "hb @ rest" mp out "hdr_fields hb"])

lemma parse_partial:
  assumes "length hb = BENCH_HDR_SIZE" "bench_hdr_valid mp (hdr_fields hb)"
    "length p < unat (bh_payload_len (hdr_fields hb))"
  shows "bench_parse_all cb mp (hb @ p) ctx = (0, ctx, hb @ p)"
  using assms by (simp add: bench_parse_all.simps[of cb mp "hb @ p"] Let_def hdr_fields_append)

lemma parse_message:
  assumes "length hb = BENCH_HDR_SIZE" "bench_hdr_valid mp (hdr_fields hb)"
    "length p = unat (bh_payload_len (hdr_fields hb))"
  shows "bench_parse_all cb mp (hb @ p @ rest) ctx =
    (case cb ctx (hdr_fields hb) p of (ret, ctx) \<Rightarrow>
       if ret < 0 then (ret, ctx, rest) else bench_parse_all cb mp rest ctx)"
  using assms
  by (simp add: bench_parse_all.simps[of cb mp "hb @ p @ rest"] Let_def hdr_fields_append
      split: prod.splits)

text \<open>What one loop iteration has to establish on the bytes seen so far.\<close>

definition feed_ok ::
    "u32 \<Rightarrow> 'c bench_msg_cb \<Rightarrow> bytes \<Rightarrow> nat \<Rightarrow> 'c \<Rightarrow> 'c feed_step \<Rightarrow> bool" where
  "feed_ok mp cb bs n ctx st \<longleftrightarrow>
    (case st of
       Feed_Return ret d ctx' \<Rightarrow>
         ret \<le> 0 \<and> (\<exists>left. bench_parse_all cb mp bs ctx = (ret, ctx', left)
           \<and> (ret = 0 \<longrightarrow> df_ok mp d \<and> left = pending d))
     | Feed_Continue d ctx' rest \<Rightarrow>
         df_ok mp d \<and> length rest < n
         \<and> bench_parse_all cb mp bs ctx = bench_parse_all cb mp (pending d @ rest) ctx')"

definition df_base :: "u32 \<Rightarrow> bench_deframer \<Rightarrow> bool" where
  "df_base mp d \<longleftrightarrow>
    length (df_hdr_buf d) = BENCH_HDR_SIZE \<and> length (df_asm_buf d) = df_asm_cap d
    \<and> df_max_payload d = mp \<and> unat (bench_cap mp) \<le> df_asm_cap d"

lemma deliver_step:
  assumes "df_base mp d" "df_hdr d = hdr_fields hb" "length hb = BENCH_HDR_SIZE"
    "bench_hdr_valid mp (hdr_fields hb)" "take (unat (bh_payload_len (hdr_fields hb))) payload = p"
    "length p = unat (bh_payload_len (hdr_fields hb))" "length rest < n"
  shows "feed_ok mp cb (hb @ p @ rest) n ctx
    (deframe_after (deframe_deliver cb d payload re ctx) rest)"
proof -
  obtain ret ctx' where cb: "cb ctx (hdr_fields hb) p = (ret, ctx')" by force
  show ?thesis
    using assms cb parse_message[OF assms(3,4,6), of cb rest ctx]
    by (auto simp: feed_ok_def deframe_after_def deframe_deliver_def Let_def df_ok_def df_base_def
        pending_def BENCH_HDR_SIZE_def split: prod.splits)
qed

lemma header_ready_step:
  assumes base: "df_base mp d" and shrink: "length rest < n"
  shows "feed_ok mp cb (df_hdr_buf d @ rest) n ctx (feed_header_ready cb d ctx rest)"
proof -
  define H where "H = df_hdr_buf d"
  define ret where "ret = fst (bench_hdr_decode H BENCH_HDR_SIZE mp (df_hdr d))"
  define d2 where "d2 = d\<lparr>df_hdr := hdr_fields H\<rparr>"
  define d3 where "d3 = d2\<lparr>df_state := BENCH_DF_WANT_PAYLOAD, df_asm_have := 0\<rparr>"
  have lenH: "length H = BENCH_HDR_SIZE" and cap: "unat (bench_cap mp) \<le> df_asm_cap d"
    and mp: "df_max_payload d = mp"
    using base by (simp_all add: df_base_def H_def)
  have dec: "bench_hdr_decode H BENCH_HDR_SIZE mp (df_hdr d) = (ret, hdr_fields H)"
    by (simp add: prod_eq_iff bench_hdr_decode_fields ret_def)
  have iter: "feed_header_ready cb d ctx rest =
    (if ret < 0 then Feed_Return ret d2 ctx
     else if df_asm_cap d < unat (bh_payload_len (hdr_fields H)) then Feed_Return (- BENCH_ECAP) d2 ctx
     else if bh_payload_len (hdr_fields H) = 0
     then deframe_after (deframe_deliver cb d3 (df_asm_buf d3) True ctx) rest
     else Feed_Continue d3 ctx rest)"
    using mp dec by (simp add: feed_header_ready_def Let_def H_def[symmetric] d2_def d3_def)
  have base3: "df_base mp d3" and hdr3: "df_hdr d3 = hdr_fields H"
    using base by (simp_all add: df_base_def d3_def d2_def)
  note ret_iff = bench_hdr_decode_zero[of H BENCH_HDR_SIZE mp "df_hdr d", folded ret_def, simplified]
  show ?thesis unfolding H_def[symmetric]
  proof (cases "bench_hdr_valid mp (hdr_fields H)")
    case False
    then have "ret < 0"
      using ret_iff bench_hdr_decode_nonpos[of H BENCH_HDR_SIZE mp "df_hdr d"] by (simp add: ret_def)
    then show "feed_ok mp cb (H @ rest) n ctx (feed_header_ready cb d ctx rest)"
      by (simp add: iter feed_ok_def parse_invalid[OF lenH False, of cb _ ctx "df_hdr d"] ret_def[symmetric])
  next
    case True
    then have "ret = 0" using ret_iff by simp
    moreover have "unat (bh_payload_len (hdr_fields H)) \<le> df_asm_cap d"
      using True cap unfolding bench_hdr_valid_def word_le_nat_alt by linarith
    moreover have "df_ok mp d3 \<and> pending d3 = H" if "bh_payload_len (hdr_fields H) \<noteq> 0"
      using base3 that True hdr3
      by (simp add: df_ok_def df_base_def d3_def d2_def pending_def unat_gt_0 H_def)
    moreover have "feed_ok mp cb (H @ [] @ rest) n ctx
        (deframe_after (deframe_deliver cb d3 (df_asm_buf d3) True ctx) rest)"
      if "bh_payload_len (hdr_fields H) = 0"
      by (rule deliver_step[OF base3 hdr3 lenH True _ _ shrink]) (simp_all add: that)
    ultimately show "feed_ok mp cb (H @ rest) n ctx (feed_header_ready cb d ctx rest)"
      using shrink by (simp add: iter feed_ok_def)
  qed
qed

lemma stage_header_step:
  assumes ok: "df_ok mp d" and st: "df_state d = BENCH_DF_WANT_HDR" and ne: "rest \<noteq> []"
  shows "feed_ok mp cb (pending d @ rest) (length rest) ctx (feed_stage_header cb d ctx rest)"
proof -
  define tk where "tk = min (length rest) (BENCH_HDR_SIZE - df_hdr_have d)"
  define H where "H = write_at (df_hdr_buf d) (df_hdr_have d) (take tk rest)"
  define d1 where "d1 = d\<lparr>df_hdr_buf := H, df_hdr_have := df_hdr_have d + tk\<rparr>"
  have have_lt: "df_hdr_have d < BENCH_HDR_SIZE" and len: "length (df_hdr_buf d) = BENCH_HDR_SIZE"
    using ok st by (simp_all add: df_ok_def)
  have tk: "tk \<le> length rest" "df_hdr_have d + tk \<le> BENCH_HDR_SIZE" "0 < tk"
    using have_lt ne by (auto simp: tk_def)
  have lenH: "length H = BENCH_HDR_SIZE" using tk len by (simp add: H_def)
  have staged: "take (df_hdr_have d + tk) H = pending d @ take tk rest"
    using tk len by (simp add: H_def write_at_def pending_def st)
  have base1: "df_base mp d1" using ok lenH by (simp add: df_base_def df_ok_def d1_def)
  have iter: "feed_stage_header cb d ctx rest =
    (if df_hdr_have d + tk < BENCH_HDR_SIZE then Feed_Return 0 d1 ctx
     else feed_header_ready cb d1 ctx (drop tk rest))"
    by (simp add: feed_stage_header_def Let_def tk_def[symmetric] H_def[symmetric] d1_def)
  show ?thesis
  proof (cases "df_hdr_have d + tk < BENCH_HDR_SIZE")
    case True
    then have "tk = length rest" by (auto simp: tk_def min_def split: if_splits)
    then have pend: "pending d1 = pending d @ rest" using staged st by (simp add: pending_def d1_def)
    moreover have "length (pending d1) < BENCH_HDR_SIZE"
      using True lenH st by (simp add: pending_def d1_def)
    moreover have "df_ok mp d1" using base1 True st by (simp add: df_ok_def df_base_def d1_def)
    ultimately show ?thesis using True by (simp add: iter feed_ok_def parse_short flip: pend)
  next
    case False
    then have "H = pending d @ take tk rest" using staged lenH tk by simp
    then have bs: "pending d @ rest = df_hdr_buf d1 @ drop tk rest" by (simp add: d1_def)
    have "length (drop tk rest) < length rest" using tk ne by simp
    from header_ready_step[OF base1 this] show ?thesis using False by (simp add: iter bs)
  qed
qed

lemma fast_path_step:
  assumes ok: "df_ok mp d" and st: "df_state d = BENCH_DF_WANT_HDR" and h0: "df_hdr_have d = 0"
    and len: "BENCH_HDR_SIZE \<le> length rest"
  shows "feed_ok mp cb rest (length rest) ctx (feed_iter cb d ctx rest)"
proof -
  define H where "H = take BENCH_HDR_SIZE rest"
  define pl where "pl = unat (bh_payload_len (hdr_fields H))"
  define ret where "ret = fst (bench_hdr_decode rest (length rest) mp (df_hdr d))"
  define d1 where "d1 = d\<lparr>df_hdr := hdr_fields H\<rparr>"
  have H: "length H = BENCH_HDR_SIZE" "hdr_fields H = hdr_fields rest" "rest = H @ drop BENCH_HDR_SIZE rest"
    using len by (simp_all add: H_def hdr_fields_take)
  have dec: "bench_hdr_decode rest (length rest) mp (df_hdr d) = (ret, hdr_fields H)"
    using len by (simp add: prod_eq_iff bench_hdr_decode_fields ret_def H(2))
  note ret_iff = bench_hdr_decode_zero[of rest "length rest" mp "df_hdr d", folded ret_def H(2), simplified len]
  have nshort: "ret \<noteq> - BENCH_ESHORT" using bench_hdr_decode_not_short[OF len] by (simp add: ret_def)
  have mp: "df_max_payload d = mp" using ok by (simp add: df_ok_def)
  have iter: "feed_iter cb d ctx rest =
    (if ret < 0 then Feed_Return ret d1 ctx
     else if ret = 0 \<and> pl \<le> length rest - BENCH_HDR_SIZE
     then deframe_after (deframe_deliver cb d1 (drop BENCH_HDR_SIZE rest) False ctx)
            (drop (BENCH_HDR_SIZE + pl) rest)
     else feed_stage_header cb d1 ctx rest)"
    using nshort by (simp add: feed_iter_def st h0 len mp dec d1_def Let_def pl_def)
  have d1: "df_ok mp d1" "df_base mp d1" "df_state d1 = BENCH_DF_WANT_HDR" "pending d1 = []"
    using ok st h0 by (simp_all add: df_ok_def df_base_def d1_def pending_def)
  have ne: "rest \<noteq> []" using len by (auto simp: BENCH_HDR_SIZE_def)
  consider "ret < 0" | "ret = 0" "pl \<le> length rest - BENCH_HDR_SIZE"
    | "ret = 0" "\<not> pl \<le> length rest - BENCH_HDR_SIZE"
    using bench_hdr_decode_nonpos[of rest "length rest" mp "df_hdr d"] by (force simp: ret_def)
  then show ?thesis
  proof cases
    case 1
    then have "\<not> bench_hdr_valid mp (hdr_fields H)" using ret_iff by auto
    from parse_invalid[OF H(1) this, of cb "drop BENCH_HDR_SIZE rest" ctx "df_hdr d", folded H(3)]
    show ?thesis using 1 bench_hdr_decode_cong[of BENCH_HDR_SIZE "length rest" H rest mp "df_hdr d" "df_hdr d"] len
      by (simp add: iter feed_ok_def H(1,2) ret_def)
  next
    case 2
    define p where "p = take pl (drop BENCH_HDR_SIZE rest)"
    have rest: "rest = H @ p @ drop (BENCH_HDR_SIZE + pl) rest"
      by (metis H_def p_def append_take_drop_id drop_drop add.commute)
    have "feed_ok mp cb (H @ p @ drop (BENCH_HDR_SIZE + pl) rest) (length rest) ctx
        (deframe_after (deframe_deliver cb d1 (drop BENCH_HDR_SIZE rest) False ctx)
          (drop (BENCH_HDR_SIZE + pl) rest))"
      by (rule deliver_step) (use 2 ret_iff d1 H(1) len ne in
          \<open>simp_all add: p_def pl_def d1_def BENCH_HDR_SIZE_def\<close>)
    then show ?thesis using 2 rest by (simp add: iter)
  next
    case 3
    then show ?thesis using stage_header_step[OF d1(1,3) ne, of cb ctx] d1(4) by (simp add: iter)
  qed
qed

lemma payload_step:
  assumes ok: "df_ok mp d" and st: "df_state d = BENCH_DF_WANT_PAYLOAD" and ne: "rest \<noteq> []"
  shows "feed_ok mp cb (pending d @ rest) (length rest) ctx (feed_iter cb d ctx rest)"
proof -
  define H where "H = df_hdr_buf d"
  define pl where "pl = unat (bh_payload_len (hdr_fields H))"
  define tk where "tk = min (length rest) (pl - df_asm_have d)"
  define A where "A = write_at (df_asm_buf d) (df_asm_have d) (take tk rest)"
  define d1 where "d1 = d\<lparr>df_asm_buf := A, df_asm_have := df_asm_have d + tk\<rparr>"
  have hdr: "df_hdr d = hdr_fields H" "bench_hdr_valid mp (hdr_fields H)" "length H = BENCH_HDR_SIZE"
    and lt: "df_asm_have d < pl" and lenA: "length (df_asm_buf d) = df_asm_cap d"
    using ok st by (auto simp: df_ok_def H_def pl_def)
  have plcap: "pl \<le> df_asm_cap d"
    using ok hdr(2) unfolding df_ok_def bench_hdr_valid_def word_le_nat_alt pl_def by linarith
  have tk: "tk \<le> length rest" "df_asm_have d + tk \<le> pl" "0 < tk"
    using lt ne by (auto simp: tk_def)
  have staged: "take (df_asm_have d + tk) A = take (df_asm_have d) (df_asm_buf d) @ take tk rest"
    using tk plcap lenA by (simp add: A_def write_at_def)
  have base1: "df_base mp d1" using ok tk plcap lenA by (simp add: df_base_def df_ok_def d1_def A_def)
  have iter: "feed_iter cb d ctx rest =
    (if df_asm_have d + tk < pl then Feed_Return 0 d1 ctx
     else deframe_after (deframe_deliver cb d1 A True ctx) (drop tk rest))"
    by (simp add: feed_iter_def st Let_def hdr(1) pl_def[symmetric] tk_def[symmetric] A_def[symmetric] d1_def)
  show ?thesis
  proof (cases "df_asm_have d + tk < pl")
    case True
    then have "tk = length rest" by (auto simp: tk_def min_def split: if_splits)
    then have pend: "pending d1 = pending d @ rest" "pending d1 = H @ take (df_asm_have d + tk) A"
      using staged st by (simp_all add: pending_def d1_def H_def)
    moreover have "df_ok mp d1"
      using base1 True st hdr by (simp add: df_ok_def df_base_def d1_def pl_def H_def)
    ultimately show ?thesis
      using True parse_partial[OF hdr(3,2), of "take (df_asm_have d + tk) A" cb ctx]
      by (simp add: iter feed_ok_def pl_def flip: pend(1))
  next
    case False
    then have full: "df_asm_have d + tk = pl" using tk by simp
    have bs: "pending d @ rest = H @ take pl A @ drop tk rest"
      using staged st by (simp add: full pending_def H_def)
    have "feed_ok mp cb (H @ take pl A @ drop tk rest) (length rest) ctx
        (deframe_after (deframe_deliver cb d1 A True ctx) (drop tk rest))"
      by (rule deliver_step) (use base1 hdr tk ne plcap lenA in \<open>simp_all add: d1_def pl_def A_def\<close>)
    then show ?thesis using False by (simp add: iter bs)
  qed
qed

lemma feed_iter_step:
  assumes "df_ok mp d" "rest \<noteq> []"
  shows "feed_ok mp cb (pending d @ rest) (length rest) ctx (feed_iter cb d ctx rest)"
proof (cases "df_state d")
  case BENCH_DF_WANT_HDR
  then show ?thesis
  proof (cases "df_hdr_have d = 0 \<and> BENCH_HDR_SIZE \<le> length rest")
    case True
    then show ?thesis using fast_path_step[OF assms(1) BENCH_DF_WANT_HDR, of rest cb ctx] BENCH_DF_WANT_HDR
      by (simp add: pending_def)
  next
    case False
    then show ?thesis using stage_header_step[OF assms(1) BENCH_DF_WANT_HDR assms(2), of cb ctx] BENCH_DF_WANT_HDR
      by (auto simp: feed_iter_def)
  qed
next
  case BENCH_DF_WANT_PAYLOAD
  then show ?thesis by (rule payload_step[OF assms(1) _ assms(2)])
qed

lemma pending_incomplete:
  assumes "df_ok mp d"
  shows "bench_parse_all cb mp (pending d) ctx = (0, ctx, pending d)"
proof (cases "df_state d")
  case BENCH_DF_WANT_HDR
  then show ?thesis using assms by (intro parse_short) (simp add: df_ok_def pending_def)
next
  case BENCH_DF_WANT_PAYLOAD
  then show ?thesis using assms parse_partial[of "df_hdr_buf d" mp "take (df_asm_have d) (df_asm_buf d)" cb ctx]
    by (auto simp: df_ok_def pending_def)
qed

lemma feed_loop_correct:
  assumes "df_ok mp d" "length rest \<le> n" "feed_loop cb n d ctx rest = (ret, d', ctx')"
  shows "ret \<le> 0 \<and> (\<exists>left. bench_parse_all cb mp (pending d @ rest) ctx = (ret, ctx', left)
    \<and> (ret = 0 \<longrightarrow> df_ok mp d' \<and> left = pending d'))"
  using assms
proof (induction n arbitrary: d ctx rest)
  case 0
  then show ?case using pending_incomplete[OF 0(1), of cb ctx] by simp
next
  case (Suc n)
  show ?case
  proof (cases "rest = []")
    case True
    then show ?thesis using Suc.prems pending_incomplete[OF Suc.prems(1), of cb ctx] by simp
  next
    case False
    note step = feed_iter_step[OF Suc.prems(1) False, of cb ctx]
    show ?thesis
    proof (cases "feed_iter cb d ctx rest")
      case (Feed_Return r dd c)
      then show ?thesis using step Suc.prems(3) False by (simp add: feed_ok_def)
    next
      case (Feed_Continue dd c rr)
      then have c: "df_ok mp dd" "length rr \<le> n"
        "bench_parse_all cb mp (pending d @ rest) ctx = bench_parse_all cb mp (pending dd @ rr) c"
        using step Suc.prems(2) by (auto simp: feed_ok_def)
      have "feed_loop cb n dd c rr = (ret, d', ctx')"
        using Suc.prems(3) False Feed_Continue by simp
      from Suc.IH[OF c(1,2) this] show ?thesis by (simp add: c(3))
    qed
  qed
qed

text \<open>A reader that feeds the deframer one received chunk after the other and stops on an error.\<close>

fun feed_chunks ::
    "'c bench_msg_cb \<Rightarrow> bench_deframer \<Rightarrow> bytes list \<Rightarrow> 'c \<Rightarrow> int \<times> bench_deframer \<times> 'c" where
  "feed_chunks cb d [] ctx = (0, d, ctx)"
| "feed_chunks cb d (c # cs) ctx =
    (case bench_deframe_feed cb d c ctx of (ret, d, ctx) \<Rightarrow>
       if ret < 0 then (ret, d, ctx) else feed_chunks cb d cs ctx)"

lemma parse_all_append:
  "bench_parse_all cb mp (xs @ ys) ctx =
    (case bench_parse_all cb mp xs ctx of (ret, ctx', left) \<Rightarrow>
       if ret < 0 then (ret, ctx', left @ ys) else bench_parse_all cb mp (left @ ys) ctx')"
proof (induction cb mp xs ctx rule: bench_parse_all.induct)
  case (1 cb mp xs ctx)
  define n where "n = BENCH_HDR_SIZE + unat (bh_payload_len (hdr_fields xs))"
  consider "length xs < BENCH_HDR_SIZE"
    | "BENCH_HDR_SIZE \<le> length xs" "\<not> bench_hdr_valid mp (hdr_fields xs)"
    | "BENCH_HDR_SIZE \<le> length xs" "bench_hdr_valid mp (hdr_fields xs)" "length xs < n"
    | "BENCH_HDR_SIZE \<le> length xs" "bench_hdr_valid mp (hdr_fields xs)" "n \<le> length xs"
    by linarith
  then show ?case
  proof cases
    case 1
    then show ?thesis by (simp add: parse_short)
  next
    case 2
    define H where "H = take BENCH_HDR_SIZE xs"
    have H: "length H = BENCH_HDR_SIZE" "\<not> bench_hdr_valid mp (hdr_fields H)" "H @ drop BENCH_HDR_SIZE xs = xs"
      using 2 by (simp_all add: H_def hdr_fields_take)
    have neg: "fst (bench_hdr_decode H BENCH_HDR_SIZE mp bench_hdr_zero) < 0"
      using bench_hdr_decode_zero[of H BENCH_HDR_SIZE mp bench_hdr_zero] H(2)
        bench_hdr_decode_nonpos[of H BENCH_HDR_SIZE mp bench_hdr_zero] by simp
    note bad = parse_invalid[OF H(1,2), of cb _ ctx bench_hdr_zero]
    show ?thesis
      using bad[of "drop BENCH_HDR_SIZE xs", unfolded H(3)] neg
        bad[of "drop BENCH_HDR_SIZE xs @ ys", unfolded append.assoc[symmetric] H(3)]
      by simp
  next
    case 3
    then show ?thesis by (simp add: bench_parse_all.simps[of cb mp xs] Let_def n_def)
  next
    case 4
    define H where "H = take BENCH_HDR_SIZE xs"
    define p where "p = take (n - BENCH_HDR_SIZE) (drop BENCH_HDR_SIZE xs)"
    have H: "length H = BENCH_HDR_SIZE" "bench_hdr_valid mp (hdr_fields H)"
      "length p = unat (bh_payload_len (hdr_fields H))"
      using 4 by (auto simp: H_def hdr_fields_take p_def n_def)
    have xs: "H @ p @ drop n xs = xs"
      by (simp add: H_def p_def n_def)
        (metis add.commute append_take_drop_id drop_drop)
    obtain r c where cb: "cb ctx (hdr_fields H) p = (r, c)" by force
    have IH: "bench_parse_all cb mp (drop n xs @ ys) c =
        (case bench_parse_all cb mp (drop n xs) c of (ret, ctx', left) \<Rightarrow>
           if ret < 0 then (ret, ctx', left @ ys) else bench_parse_all cb mp (left @ ys) ctx')"
      if "\<not> r < 0"
      using 1 4 that cb by (simp add: n_def H_def hdr_fields_take p_def)
    have xs': "H @ p @ drop n xs @ ys = xs @ ys" using xs by (metis append.assoc)
    show ?thesis
      using parse_message[OF H, of cb "drop n xs" ctx, unfolded xs]
        parse_message[OF H, of cb "drop n xs @ ys" ctx, unfolded xs'] IH cb
      by simp
  qed
qed

lemma feed_chunks_correct:
  assumes "df_ok mp d" "feed_chunks cb d cs ctx = (ret, d', ctx')"
  shows "\<exists>left. bench_parse_all cb mp (pending d @ concat cs) ctx = (ret, ctx', left)
    \<and> (ret = 0 \<longrightarrow> df_ok mp d' \<and> left = pending d')"
  using assms
proof (induction cs arbitrary: d ctx)
  case Nil
  then show ?case using pending_incomplete[of mp d cb ctx] by simp
next
  case (Cons c cs)
  obtain r d1 c1 where feed: "bench_deframe_feed cb d c ctx = (r, d1, c1)" by (cases "bench_deframe_feed cb d c ctx")
  from feed_loop_correct[OF Cons.prems(1) order.refl feed[unfolded bench_deframe_feed_def]]
  obtain left where l: "r \<le> 0" "bench_parse_all cb mp (pending d @ c) ctx = (r, c1, left)"
    "r = 0 \<longrightarrow> df_ok mp d1 \<and> left = pending d1" by blast
  note app = parse_all_append[of cb mp "pending d @ c" "concat cs" ctx, unfolded l(2)]
  show ?case
  proof (cases "r < 0")
    case True
    then show ?thesis using app feed Cons.prems(2) by simp
  next
    case False
    then have "r = 0" using l(1) by simp
    then show ?thesis using Cons.IH[of d1 c1] Cons.prems(2) feed l app by simp
  qed
qed

lemma deframer_init_ok:
  assumes "length asm_buf = asm_cap" "unat (bench_cap mp) \<le> asm_cap"
  shows "df_ok mp (bench_deframer_init asm_buf asm_cap mp)"
    "pending (bench_deframer_init asm_buf asm_cap mp) = []"
  using assms by (simp_all add: df_ok_def bench_deframer_init_def pending_def BENCH_HDR_SIZE_def)

text \<open>
  C19: the deframer does not depend on how the stream is cut into chunks.  With an assembly buffer
  that holds the largest payload the decoder admits, feeding any sequence of chunks calls the
  callback on the same messages and ends with the same result as parsing the concatenated stream at
  once, decoder errors and aborting callbacks included, and the bytes staged at the end are those of
  the message still incomplete.
\<close>

theorem deframer_chunking_independent:
  assumes "length asm_buf = asm_cap" and "unat (bench_cap mp) \<le> asm_cap"
  shows "case feed_chunks cb (bench_deframer_init asm_buf asm_cap mp) cs ctx of (ret, d, ctx') \<Rightarrow>
    (case bench_parse_all cb mp (concat cs) ctx of (ret_all, ctx_all, left) \<Rightarrow>
       ret = ret_all \<and> ctx' = ctx_all \<and> (ret = 0 \<longrightarrow> pending d = left))"
proof -
  obtain ret d ctx' where f: "feed_chunks cb (bench_deframer_init asm_buf asm_cap mp) cs ctx = (ret, d, ctx')"
    by (cases "feed_chunks cb (bench_deframer_init asm_buf asm_cap mp) cs ctx")
  from feed_chunks_correct[OF deframer_init_ok(1)[OF assms] f] deframer_init_ok(2)[OF assms] f
  show ?thesis by auto
qed

definition collect :: "(bench_hdr \<times> bytes) list bench_msg_cb" where
  "collect ctx h p = (0, ctx @ [(h, p)])"

theorem deframer_chunking_independent_witness:
  "length (replicate 8 (0 :: u8)) = 8 \<and> unat (bench_cap 8) \<le> 8
   \<and> (case feed_chunks collect (bench_deframer_init (replicate 8 0) 8 8) [[0x55, 0x52], [0x50, 0x42]] [] of
        (ret, d, ctx') \<Rightarrow>
          (case bench_parse_all collect 8 (concat [[0x55, 0x52], [0x50, 0x42]]) [] of
             (ret_all, ctx_all, left) \<Rightarrow>
               ret = ret_all \<and> ctx' = ctx_all \<and> (ret = 0 \<longrightarrow> pending d = left)))"
  using deframer_chunking_independent[of "replicate 8 0" 8 8 collect "[[0x55, 0x52], [0x50, 0x42]]" "[]"]
  by (simp add: bench_cap_def BENCH_PAYLOAD_MAX_def)

definition bench_message :: "bench_hdr \<times> bytes \<Rightarrow> bytes" where
  "bench_message m = bench_hdr_encode (fst m) @ snd m"

definition message_ok :: "u32 \<Rightarrow> bench_hdr \<times> bytes \<Rightarrow> bool" where
  "message_ok mp m \<longleftrightarrow>
    bench_hdr_valid mp (fst m) \<and> length (snd m) = unat (bh_payload_len (fst m))"

lemma parse_messages:
  "list_all (message_ok mp) ms \<Longrightarrow>
    bench_parse_all collect mp (concat (map bench_message ms)) acc = (0, acc @ ms, [])"
proof (induction ms arbitrary: acc)
  case (Cons m ms)
  have f: "hdr_fields (bench_hdr_encode (fst m)) = fst m"
    using hdr_fields_encode[of "fst m" "[]"] by simp
  have "bench_parse_all collect mp (bench_hdr_encode (fst m) @ snd m @ concat (map bench_message ms)) acc
      = bench_parse_all collect mp (concat (map bench_message ms)) (acc @ [m])"
    using Cons.prems by (subst parse_message) (simp_all add: f message_ok_def collect_def)
  then show ?case using Cons by (simp add: bench_message_def[of m])
qed (simp add: parse_short BENCH_HDR_SIZE_def)

text \<open>
  C20: what a sender frames, the deframer hands back.  However the encodings of valid messages are
  cut into chunks on the way, the callback sees exactly these messages in order, the feed returns 0
  and nothing stays staged.
\<close>

theorem deframer_returns_sent_messages:
  assumes "length asm_buf = asm_cap" and "unat (bench_cap mp) \<le> asm_cap"
    and "list_all (message_ok mp) ms" and "concat cs = concat (map bench_message ms)"
  shows "\<exists>d. feed_chunks collect (bench_deframer_init asm_buf asm_cap mp) cs [] = (0, d, ms)
    \<and> pending d = []"
proof -
  obtain ret d ctx' where f: "feed_chunks collect (bench_deframer_init asm_buf asm_cap mp) cs [] = (ret, d, ctx')"
    by (cases "feed_chunks collect (bench_deframer_init asm_buf asm_cap mp) cs []")
  from feed_chunks_correct[OF deframer_init_ok(1)[OF assms(1,2)] f] deframer_init_ok(2)[OF assms(1,2)]
    parse_messages[OF assms(3), of "[]"] f
  show ?thesis by (auto simp: assms(4))
qed

definition sample_message :: "bench_hdr \<times> bytes" where
  "sample_message = (\<lparr> bh_magic = BENCH_MAGIC, bh_version = BENCH_VERSION, bh_flags = 0,
     bh_origin_id = 1, bh_payload_len = 2, bh_seq = 7, bh_t_send_ns = 9 \<rparr>, [5, 6])"

theorem deframer_returns_sent_messages_witness:
  "list_all (message_ok 8) [sample_message, sample_message]
   \<and> (\<exists>d. feed_chunks collect (bench_deframer_init (replicate 8 0) 8 8)
         [take 30 (bench_message sample_message @ bench_message sample_message),
          drop 30 (bench_message sample_message @ bench_message sample_message)] []
         = (0, d, [sample_message, sample_message]) \<and> pending d = [])"
proof
  show ok: "list_all (message_ok 8) [sample_message, sample_message]"
    by (simp add: message_ok_def sample_message_def bench_hdr_valid_def bench_cap_def BENCH_PAYLOAD_MAX_def)
  show "\<exists>d. feed_chunks collect (bench_deframer_init (replicate 8 0) 8 8)
         [take 30 (bench_message sample_message @ bench_message sample_message),
          drop 30 (bench_message sample_message @ bench_message sample_message)] []
         = (0, d, [sample_message, sample_message]) \<and> pending d = []"
    by (rule deframer_returns_sent_messages[OF _ _ ok])
      (simp_all add: bench_cap_def BENCH_PAYLOAD_MAX_def del: take_append drop_append)
qed

end
