(* ===== verification/Urp_Bench_Track.thy ===== *)
theory Urp_Bench_Track
  imports Urp_Bench_Wire Urp_Pool
begin

text \<open>
  The bookkeeping of the benchmark tool (tools/urp-bench-core.c and .h): the echo round-trip
  tracker, the batch planner, the provided-buffer ring, the sample statistics, the name tables and
  the configuration check.  Arrays the caller owns are lists of the given length.
\<close>

section \<open>Echo tracker and batch plan\<close>

definition BENCH_EUNKNOWN :: int where "BENCH_EUNKNOWN = 7"
definition BENCH_EDUP :: int where "BENCH_EDUP = 8"
definition BENCH_EFULL :: int where "BENCH_EFULL = 9"
definition BENCH_EEMPTY :: int where "BENCH_EEMPTY = 10"
definition BENCH_ERANGE :: int where "BENCH_ERANGE = 11"
definition BENCH_EINVAL :: int where "BENCH_EINVAL = 12"

lemmas bench_errs = BENCH_EUNKNOWN_def BENCH_EDUP_def BENCH_EFULL_def BENCH_EEMPTY_def
  BENCH_ERANGE_def BENCH_EINVAL_def

record bench_tracker =
  tr_sent_ns :: "u64 list"
  tr_seqs :: "u32 list"
  tr_in_flight :: "bool list"
  tr_window :: u32
  tr_inflight_count :: u32
  tr_dups :: u64
  tr_unknowns :: u64

definition bench_tracker_init :: "u32 \<Rightarrow> bench_tracker" where
  "bench_tracker_init window =
    \<lparr> tr_sent_ns = replicate (unat window) 0, tr_seqs = replicate (unat window) 0,
      tr_in_flight = replicate (unat window) False, tr_window = window, tr_inflight_count = 0,
      tr_dups = 0, tr_unknowns = 0 \<rparr>"

definition bench_track_sent :: "bench_tracker \<Rightarrow> u32 \<Rightarrow> u64 \<Rightarrow> int \<times> bench_tracker" where
  "bench_track_sent t sq t_send_ns =
    (let slot = unat (sq mod tr_window t)
     in if tr_in_flight t ! slot then (- BENCH_EFULL, t)
        else (0, t\<lparr>tr_in_flight := (tr_in_flight t)[slot := True],
                   tr_seqs := (tr_seqs t)[slot := sq],
                   tr_sent_ns := (tr_sent_ns t)[slot := t_send_ns],
                   tr_inflight_count := tr_inflight_count t + 1\<rparr>))"

definition bench_track_echo :: "bench_tracker \<Rightarrow> u32 \<Rightarrow> u64 \<Rightarrow> int \<times> bench_tracker" where
  "bench_track_echo t sq now_ns =
    (let slot = unat (sq mod tr_window t)
     in if \<not> tr_in_flight t ! slot then
          (if tr_seqs t ! slot = sq \<and> tr_sent_ns t ! slot \<noteq> 0
           then (- BENCH_EDUP, t\<lparr>tr_dups := tr_dups t + 1\<rparr>)
           else (- BENCH_EUNKNOWN, t\<lparr>tr_unknowns := tr_unknowns t + 1\<rparr>))
        else if tr_seqs t ! slot \<noteq> sq then (- BENCH_EUNKNOWN, t\<lparr>tr_unknowns := tr_unknowns t + 1\<rparr>)
        else
          let t = t\<lparr>tr_in_flight := (tr_in_flight t)[slot := False],
                    tr_inflight_count := tr_inflight_count t - 1\<rparr>
          in if now_ns < tr_sent_ns t ! slot then (0, t)
             else (sint (now_ns - tr_sent_ns t ! slot), t))"

definition bench_batch_plan :: "u32 \<Rightarrow> u32 \<Rightarrow> u64 \<Rightarrow> u32" where
  "bench_batch_plan window inflight remaining =
    (if window \<le> inflight then 0
     else let room = window - inflight
          in if remaining < ucast room then ucast remaining else room)"

section \<open>Provided-buffer ring\<close>

record bench_bufring =
  br_free_idx :: "u16 list"
  br_in_use :: "bool list"
  br_cap :: u32
  br_free_count :: u32

definition bench_bufring_init :: "u32 \<Rightarrow> bench_bufring" where
  "bench_bufring_init c =
    \<lparr> br_free_idx = map of_nat [0..<unat c], br_in_use = replicate (unat c) False,
      br_cap = c, br_free_count = c \<rparr>"

definition bench_bufring_take :: "bench_bufring \<Rightarrow> int \<times> bench_bufring" where
  "bench_bufring_take r =
    (if br_free_count r = 0 then (- BENCH_EEMPTY, r)
     else let r = r\<lparr>br_free_count := br_free_count r - 1\<rparr>;
              idx = br_free_idx r ! unat (br_free_count r)
          in (uint idx, r\<lparr>br_in_use := (br_in_use r)[unat idx := True]\<rparr>))"

definition bench_bufring_recycle :: "bench_bufring \<Rightarrow> u32 \<Rightarrow> int \<times> bench_bufring" where
  "bench_bufring_recycle r idx =
    (if br_cap r \<le> idx then (- BENCH_ERANGE, r)
     else if \<not> br_in_use r ! unat idx then (- BENCH_EDUP, r)
     else (0, r\<lparr>br_in_use := (br_in_use r)[unat idx := False],
                br_free_idx := (br_free_idx r)[unat (br_free_count r) := ucast idx],
                br_free_count := br_free_count r + 1\<rparr>))"

section \<open>Statistics\<close>

record bench_stats =
  st_samples :: "u64 list"
  st_cap :: nat
  st_count :: nat
  st_dropped :: u64

record bench_stats_result =
  sr_min_ns :: u64
  sr_max_ns :: u64
  sr_p50_ns :: u64
  sr_p99_ns :: u64
  sr_count :: nat

definition bench_stats_init :: "u64 list \<Rightarrow> nat \<Rightarrow> bench_stats" where
  "bench_stats_init samples c = \<lparr> st_samples = samples, st_cap = c, st_count = 0, st_dropped = 0 \<rparr>"

definition bench_stats_add :: "bench_stats \<Rightarrow> u64 \<Rightarrow> bench_stats" where
  "bench_stats_add s rtt_ns =
    (if st_count s < st_cap s
     then s\<lparr>st_samples := (st_samples s)[st_count s := rtt_ns], st_count := st_count s + 1\<rparr>
     else s\<lparr>st_dropped := st_dropped s + 1\<rparr>)"

definition cmp_u64 :: "u64 \<Rightarrow> u64 \<Rightarrow> int" where
  "cmp_u64 x y = (if x < y then - 1 else if y < x then 1 else 0)"

text \<open>The C library's qsort orders the samples by the comparison function.\<close>

primrec qsort_insert :: "('a \<Rightarrow> 'a \<Rightarrow> int) \<Rightarrow> 'a \<Rightarrow> 'a list \<Rightarrow> 'a list" where
  "qsort_insert cmp x [] = [x]"
| "qsort_insert cmp x (y # ys) = (if cmp x y \<le> 0 then x # y # ys else y # qsort_insert cmp x ys)"

definition qsort :: "('a \<Rightarrow> 'a \<Rightarrow> int) \<Rightarrow> 'a list \<Rightarrow> 'a list" where
  "qsort cmp xs = foldr (qsort_insert cmp) xs []"

definition bench_stats_finalize :: "bench_stats \<Rightarrow> (int + bench_stats_result) \<times> bench_stats" where
  "bench_stats_finalize s =
    (if st_count s = 0 then (Inl (- BENCH_EEMPTY), s)
     else
       let s = s\<lparr>st_samples := qsort cmp_u64 (take (st_count s) (st_samples s)) @ drop (st_count s) (st_samples s)\<rparr>
       in (Inr \<lparr> sr_min_ns = st_samples s ! 0, sr_max_ns = st_samples s ! (st_count s - 1),
                 sr_p50_ns = st_samples s ! (st_count s div 2),
                 sr_p99_ns = st_samples s ! (st_count s * 99 div 100),
                 sr_count = st_count s \<rparr>, s))"

section \<open>Configuration\<close>

datatype bench_mode =
  BENCH_MODE_BLOCKING | BENCH_MODE_URING_RW | BENCH_MODE_URING_FIXED | BENCH_MODE_URING_BUFRING
| BENCH_MODE_URING_SQPOLL | BENCH_MODE_URING_SENDZC | BENCH_MODE_URING_CMD

datatype bench_verify = BENCH_VERIFY_NONE | BENCH_VERIFY_HEADER | BENCH_VERIFY_FULL

datatype bench_pattern = BENCH_PATTERN_ECHO | BENCH_PATTERN_STREAM

definition mode_names :: "(string \<times> bench_mode) list" where
  "mode_names =
    [(''blocking'', BENCH_MODE_BLOCKING), (''uring-rw'', BENCH_MODE_URING_RW),
     (''uring-fixed'', BENCH_MODE_URING_FIXED), (''uring-bufring'', BENCH_MODE_URING_BUFRING),
     (''uring-sqpoll'', BENCH_MODE_URING_SQPOLL), (''uring-sendzc'', BENCH_MODE_URING_SENDZC),
     (''uring-cmd'', BENCH_MODE_URING_CMD)]"

definition verify_names :: "(string \<times> bench_verify) list" where
  "verify_names =
    [(''none'', BENCH_VERIFY_NONE), (''header'', BENCH_VERIFY_HEADER), (''full'', BENCH_VERIFY_FULL)]"

definition pattern_names :: "(string \<times> bench_pattern) list" where
  "pattern_names = [(''echo'', BENCH_PATTERN_ECHO), (''stream'', BENCH_PATTERN_STREAM)]"

fun bench_mode_parse_loop :: "string \<Rightarrow> (string \<times> 'm) list \<Rightarrow> int + 'm" where
  "bench_mode_parse_loop s [] = Inl (- BENCH_EINVAL)"
| "bench_mode_parse_loop s ((name, m) # rest) =
    (if s = name then Inr m else bench_mode_parse_loop s rest)"

fun bench_mode_str_loop :: "'m \<Rightarrow> (string \<times> 'm) list \<Rightarrow> string" where
  "bench_mode_str_loop m [] = ''?''"
| "bench_mode_str_loop m ((name, m') # rest) =
    (if m' = m then name else bench_mode_str_loop m rest)"

definition bench_mode_parse :: "string \<Rightarrow> int + bench_mode" where
  "bench_mode_parse s = bench_mode_parse_loop s mode_names"

definition bench_mode_str :: "bench_mode \<Rightarrow> string" where
  "bench_mode_str m = bench_mode_str_loop m mode_names"

definition bench_verify_parse :: "string \<Rightarrow> int + bench_verify" where
  "bench_verify_parse s = bench_mode_parse_loop s verify_names"

definition bench_verify_str :: "bench_verify \<Rightarrow> string" where
  "bench_verify_str v = bench_mode_str_loop v verify_names"

definition bench_pattern_parse :: "string \<Rightarrow> int + bench_pattern" where
  "bench_pattern_parse s = bench_mode_parse_loop s pattern_names"

definition bench_pattern_str :: "bench_pattern \<Rightarrow> string" where
  "bench_pattern_str p = bench_mode_str_loop p pattern_names"

definition BENCH_BATCH_MAX :: u32 where "BENCH_BATCH_MAX = 1024"
definition BENCH_ROLE_NONE :: int where "BENCH_ROLE_NONE = 0"
definition BENCH_ROLE_LISTEN :: int where "BENCH_ROLE_LISTEN = 1"
definition BENCH_ROLE_CONNECT :: int where "BENCH_ROLE_CONNECT = 2"

record bench_config =
  bc_role :: int
  bc_id :: u16
  bc_mode :: bench_mode
  bc_verify :: bench_verify
  bc_pattern :: bench_pattern
  bc_msg_size :: u32
  bc_batch :: u32
  bc_count :: u64
  bc_duration_s :: u32
  bc_defer_taskrun :: int

definition bench_config_validate :: "bench_config \<Rightarrow> int" where
  "bench_config_validate c =
    (if bc_role c \<noteq> BENCH_ROLE_LISTEN \<and> bc_role c \<noteq> BENCH_ROLE_CONNECT then - BENCH_EINVAL
     else if bc_msg_size c < of_nat BENCH_HDR_SIZE \<or> BENCH_MSG_MAX < bc_msg_size c then - BENCH_EINVAL
     else if bc_batch c < 1 \<or> BENCH_BATCH_MAX < bc_batch c then - BENCH_EINVAL
     else if bc_count c = 0 \<and> bc_duration_s c = 0 then - BENCH_EINVAL
     else if bc_count c \<noteq> 0 \<and> bc_duration_s c \<noteq> 0 then - BENCH_EINVAL
     else 0)"

section \<open>The tracker over a sequence-preserving transport\<close>

text \<open>
  A sender numbers its originals consecutively and sends while the batch plan leaves room, and the
  echoes come back in the order of sending.  The two numbers are the next to send and the next
  echo; the list holds the times at which the originals not yet echoed were sent, oldest first, kept
  beside the tracker.
\<close>

inductive tracker_run :: "u32 \<Rightarrow> bench_tracker \<Rightarrow> u32 \<Rightarrow> u32 \<Rightarrow> u64 list \<Rightarrow> bool" for w where
  start: "tracker_run w (bench_tracker_init w) n n []"
| sent: "tracker_run w t n a tms \<Longrightarrow> bench_batch_plan w (tr_inflight_count t) remaining \<noteq> 0 \<Longrightarrow>
    tracker_run w (snd (bench_track_sent t n ts)) (n + 1) a (tms @ [ts])"
| echoed: "tracker_run w t n a (tm # tms) \<Longrightarrow> tracker_run w (snd (bench_track_echo t a now)) n (a + 1) tms"

definition fifo_inv :: "u32 \<Rightarrow> bench_tracker \<Rightarrow> u32 \<Rightarrow> u32 \<Rightarrow> u64 list \<Rightarrow> bool" where
  "fifo_inv w t n a tms \<longleftrightarrow>
    tr_window t = w \<and> length (tr_in_flight t) = unat w \<and> length (tr_seqs t) = unat w
    \<and> length (tr_sent_ns t) = unat w \<and> unat (n - a) \<le> unat w \<and> tr_inflight_count t = n - a
    \<and> tr_dups t = 0 \<and> tr_unknowns t = 0
    \<and> (\<forall>j<unat w. tr_in_flight t ! j \<longleftrightarrow> (\<exists>i<unat (n - a). (unat a + i) mod unat w = j))
    \<and> (\<forall>i<unat (n - a). tr_seqs t ! ((unat a + i) mod unat w) = a + of_nat i)
    \<and> length tms = unat (n - a) \<and> (\<forall>i<unat (n - a). tr_sent_ns t ! ((unat a + i) mod unat w) = tms ! i)"

lemma unat_plus_mod:
  fixes a w :: u32
  assumes "unat w dvd 2 ^ 32"
  shows "unat (a + of_nat i) mod unat w = (unat a + i) mod unat w"
proof -
  have "a + of_nat i = (of_nat (unat a + i) :: u32)" by simp
  then have "unat (a + of_nat i) = (unat a + i) mod 2 ^ 32"
    by (simp only: unat_of_nat) simp
  then show ?thesis using assms by (simp add: mod_mod_cancel)
qed

lemma residues_distinct:
  assumes "i < k" "k < i + (w :: nat)"
  shows "(x + i) mod w \<noteq> (x + k) mod w"
proof
  assume "(x + i) mod w = (x + k) mod w"
  then have "w dvd (x + k) - (x + i)" using assms by (metis mod_eq_dvd_iff_nat less_imp_le nat_add_left_cancel_le)
  then have "w dvd k - i" by simp
  then show False using assms by (auto dest: dvd_imp_le)
qed

lemma unat_diff_Suc:
  fixes n a :: "'a::len word"
  assumes "unat (n - a) < 2 ^ LENGTH('a) - 1"
  shows "unat (n + 1 - a) = Suc (unat (n - a))"
proof -
  have eq: "n + 1 - a = (n - a) + 1" by simp
  have "unat (n - a) + unat (1 :: 'a word) < 2 ^ LENGTH('a)" using assms by simp
  then show ?thesis unfolding eq by (simp only: unat_add_small) simp
qed

lemma unat_diff_pred:
  fixes n a :: "'a::len word"
  assumes "a \<noteq> n"
  shows "unat (n - (a + 1)) = unat (n - a) - 1"
proof -
  have eq: "n - (a + 1) = (n - a) - 1" by simp
  have "n - a \<noteq> 0" using assms by simp
  then show ?thesis unfolding eq by (rule unat_minus_one)
qed

lemma u32_wrap: "(0x100000000 :: u32) = 0"
  by code_simp

lemma fifo_init: "w \<noteq> 0 \<Longrightarrow> fifo_inv w (bench_tracker_init w) n n []"
  by (simp add: fifo_inv_def bench_tracker_init_def)

lemma batch_plan_room:
  assumes "bench_batch_plan w k remaining \<noteq> 0"
  shows "unat k < unat w"
  using assms by (auto simp: bench_batch_plan_def word_le_nat_alt not_le split: if_splits)

lemma track_sent_fifo:
  assumes inv: "fifo_inv w t n a tms" and dv: "unat w dvd 2 ^ 32" and room: "unat (n - a) < unat w"
  shows "fst (bench_track_sent t n ts) = 0" "fifo_inv w (snd (bench_track_sent t n ts)) (n + 1) a (tms @ [ts])"
proof -
  define k where "k = unat (n - a)"
  define slot where "slot = unat n mod unat w"
  have n: "n = a + of_nat k" by (simp add: k_def)
  have slot: "slot = (unat a + k) mod unat w" unfolding slot_def n by (rule unat_plus_mod[OF dv])
  have lt: "slot < unat w" using room by (simp add: slot_def)
  have free: "\<not> tr_in_flight t ! slot"
  proof
    assume "tr_in_flight t ! slot"
    then obtain i where "i < k" "(unat a + i) mod unat w = slot"
      using inv lt by (auto simp: fifo_inv_def k_def)
    then show False using residues_distinct[of i k "unat w" "unat a"] room by (simp add: slot k_def)
  qed
  have k1: "unat (n + 1 - a) = Suc k"
    using room unat_bound[of w] unat_diff_Suc[of n a] by (simp add: k_def)
  have eq: "bench_track_sent t n ts =
    (0, t\<lparr>tr_in_flight := (tr_in_flight t)[slot := True], tr_seqs := (tr_seqs t)[slot := n],
          tr_sent_ns := (tr_sent_ns t)[slot := ts], tr_inflight_count := tr_inflight_count t + 1\<rparr>)"
    using free inv by (simp add: bench_track_sent_def Let_def unat_mod slot_def fifo_inv_def)
  show "fst (bench_track_sent t n ts) = 0" by (simp add: eq)
  have fl: "(tr_in_flight t)[slot := True] ! j \<longleftrightarrow> (\<exists>i<Suc k. (unat a + i) mod unat w = j)" if "j < unat w" for j
    using that inv lt slot by (auto simp: fifo_inv_def k_def nth_list_update less_Suc_eq)
  have other: "(unat a + i) mod unat w \<noteq> slot" if "i < k" for i
    using residues_distinct[of i k "unat w" "unat a"] room that by (simp add: slot k_def)
  have sq: "(tr_seqs t)[slot := n] ! ((unat a + i) mod unat w) = a + of_nat i" if "i < Suc k" for i
  proof (cases "i = k")
    case True
    then show ?thesis using inv lt slot n by (simp add: fifo_inv_def)
  next
    case False
    then show ?thesis using inv other[of i] that by (simp add: fifo_inv_def k_def)
  qed
  have tm: "(tr_sent_ns t)[slot := ts] ! ((unat a + i) mod unat w) = (tms @ [ts]) ! i" if "i < Suc k" for i
  proof (cases "i = k")
    case True
    moreover have "length tms = k" using inv by (simp add: fifo_inv_def k_def)
    ultimately show ?thesis using inv lt slot by (simp add: fifo_inv_def nth_append)
  next
    case False
    then show ?thesis using inv other[of i] that by (simp add: fifo_inv_def k_def[symmetric] nth_append)
  qed
  show "fifo_inv w (snd (bench_track_sent t n ts)) (n + 1) a (tms @ [ts])"
    using inv fl sq tm room by (simp add: fifo_inv_def eq k1 k_def[symmetric])
qed

lemma track_echo_fifo:
  assumes inv: "fifo_inv w t n a (tm # tms)" and dv: "unat w dvd 2 ^ 32"
  shows "fst (bench_track_echo t a now) = (if now < tm then 0 else sint (now - tm))"
    "fifo_inv w (snd (bench_track_echo t a now)) n (a + 1) tms"
proof -
  have out: "a \<noteq> n" using inv by (auto simp: fifo_inv_def)
  define k where "k = unat (n - a)"
  define slot where "slot = unat a mod unat w"
  have kpos: "0 < k" using out by (simp add: k_def unat_gt_0)
  have kw: "k \<le> unat w" using inv by (simp add: fifo_inv_def k_def)
  have lt: "slot < unat w" using kpos kw by (simp add: slot_def)
  have "\<exists>i<k. (unat a + i) mod unat w = slot" using kpos by (intro exI[of _ 0]) (simp add: slot_def)
  then have busy: "tr_in_flight t ! slot" using inv lt by (simp add: fifo_inv_def k_def)
  have sq: "tr_seqs t ! slot = a" using inv kpos by (force simp: fifo_inv_def k_def slot_def)
  have tm: "tr_sent_ns t ! slot = tm" using inv kpos by (force simp: fifo_inv_def k_def slot_def)
  have k1: "unat (n - (a + 1)) = k - 1" using unat_diff_pred[OF out] by (simp add: k_def)
  have nxt: "(unat (a + 1) + i) mod unat w = (unat a + Suc i) mod unat w" for i
    using unat_plus_mod[OF dv, of a 1] by (metis mod_add_left_eq of_nat_1 add.assoc plus_1_eq_Suc)
  have eq: "snd (bench_track_echo t a now) =
    t\<lparr>tr_in_flight := (tr_in_flight t)[slot := False], tr_inflight_count := tr_inflight_count t - 1\<rparr>"
    using busy sq inv by (simp add: bench_track_echo_def Let_def unat_mod slot_def fifo_inv_def)
  show "fst (bench_track_echo t a now) = (if now < tm then 0 else sint (now - tm))"
    using busy sq tm inv by (simp add: bench_track_echo_def Let_def unat_mod slot_def fifo_inv_def)
  have ne: "(unat a + Suc i) mod unat w \<noteq> slot" if "i < k - 1" for i
    using residues_distinct[of 0 "Suc i" "unat w" "unat a"] that kw by (fastforce simp: slot_def)
  have old: "tr_in_flight t ! j \<longleftrightarrow> slot = j \<or> (\<exists>i<k - 1. (unat a + Suc i) mod unat w = j)" if "j < unat w" for j
  proof -
    have "tr_in_flight t ! j \<longleftrightarrow> (\<exists>i<Suc (k - 1). (unat a + i) mod unat w = j)"
      using inv that kpos by (simp add: fifo_inv_def k_def)
    then show ?thesis by (simp add: Ex_less_Suc2 slot_def)
  qed
  have len: "length (tr_in_flight t) = unat w" using inv by (simp add: fifo_inv_def)
  have fl: "(tr_in_flight t)[slot := False] ! j \<longleftrightarrow> (\<exists>i<k - 1. (unat (a + 1) + i) mod unat w = j)"
    if "j < unat w" for j
  proof (cases "j = slot")
    case True
    then show ?thesis using ne that len unfolding nxt by auto
  next
    case False
    then show ?thesis using old[OF that] unfolding nxt by simp
  qed
  have sqs: "tr_seqs t ! ((unat (a + 1) + i) mod unat w) = a + 1 + of_nat i" if "i < k - 1" for i
  proof -
    have "tr_seqs t ! ((unat a + Suc i) mod unat w) = a + of_nat (Suc i)"
      using inv that by (simp only: fifo_inv_def k_def)
    then show ?thesis unfolding nxt by (simp add: algebra_simps)
  qed
  have tms: "tr_sent_ns t ! ((unat (a + 1) + i) mod unat w) = tms ! i" if "i < k - 1" for i
  proof -
    have "tr_sent_ns t ! ((unat a + Suc i) mod unat w) = (tm # tms) ! Suc i"
      using inv that by (simp only: fifo_inv_def k_def)
    then show ?thesis unfolding nxt by simp
  qed
  have "length tms = k - 1" using inv by (auto simp: fifo_inv_def k_def)
  then show "fifo_inv w (snd (bench_track_echo t a now)) n (a + 1) tms"
    using inv fl sqs tms kw by (simp add: fifo_inv_def eq k1)
qed

lemma tracker_run_inv:
  assumes "tracker_run w t n a tms" "unat w dvd 2 ^ 32"
  shows "fifo_inv w t n a tms"
  using assms(1)
proof induction
  case (start n)
  have "w \<noteq> 0" using assms(2) by auto
  then show ?case by (rule fifo_init)
next
  case (sent t n a tms remaining ts)
  then have "unat (n - a) < unat w" using batch_plan_room[of w] by (auto simp: fifo_inv_def)
  then show ?case using track_sent_fifo(2)[OF sent.IH assms(2)] by simp
next
  case (echoed t n a tm tms now)
  then show ?case using track_echo_fifo(2)[OF echoed.IH assms(2)] by simp
qed

text \<open>
  C22: the echo tracker and the batch plan agree on a window that divides $2^{32}$.  On an
  order-preserving transport, with consecutive numbers from any start and across their wrap-around,
  a send the plan allows never finds its slot busy, every echo is given the time since its own
  original was sent, clamped at zero (the time the original was given to the tracker with, not the
  time found in a slot), nothing is counted as a duplicate or unknown, and the in-flight count is the
  number of outstanding originals and never exceeds the window.
\<close>

theorem tracker_matches_echoes:
  assumes "tracker_run w t n a tms" and "unat w dvd 2 ^ 32"
  shows "(bench_batch_plan w (tr_inflight_count t) remaining \<noteq> 0 \<longrightarrow> fst (bench_track_sent t n ts) = 0)
    \<and> (tms \<noteq> [] \<longrightarrow> fst (bench_track_echo t a now) = (if now < hd tms then 0 else sint (now - hd tms)))
    \<and> unat (tr_inflight_count t) = length tms \<and> tr_inflight_count t = n - a \<and> tr_inflight_count t \<le> w
    \<and> tr_dups t = 0 \<and> tr_unknowns t = 0"
proof -
  have inv: "fifo_inv w t n a tms" by (rule tracker_run_inv[OF assms])
  then have c: "tr_inflight_count t = n - a" by (simp add: fifo_inv_def)
  show ?thesis
    using inv c track_sent_fifo(1)[OF inv assms(2)] track_echo_fifo(1)[of w t n a "hd tms" "tl tms"] assms(2)
      batch_plan_room[of w "n - a" remaining]
    by (cases tms) (simp_all add: fifo_inv_def word_le_nat_alt)
qed

theorem tracker_matches_echoes_witness:
  "tracker_run 4 (snd (bench_track_sent (bench_tracker_init 4) 0xFFFFFFFF 5)) 0 0xFFFFFFFF [5]
   \<and> fst (bench_track_echo (snd (bench_track_sent (bench_tracker_init 4) 0xFFFFFFFF 5)) 0xFFFFFFFF 9) = 4"
proof -
  have run: "tracker_run 4 (snd (bench_track_sent (bench_tracker_init 4) 0xFFFFFFFF 5)) 0 0xFFFFFFFF [5]"
    using tracker_run.sent[OF tracker_run.start[of 4 "0xFFFFFFFF"], of 1 5]
    by (simp add: bench_batch_plan_def bench_tracker_init_def u32_wrap)
  have "unat (4 :: u32) dvd 2 ^ 32" by simp
  from tracker_matches_echoes[OF run this, of 1 0 9] run show ?thesis by simp
qed

text \<open>
  The wrap-around of the sequence number is not handled for every window.  With a window of
  three, the original $2^{32}-1$ and the next original 0 share a slot, so the second send is
  refused as full while the batch plan still counts two free places.
\<close>

theorem tracker_wrap_collides:
  "let t = snd (bench_track_sent (bench_tracker_init 3) 0xFFFFFFFF ts)
   in tracker_run 3 t 0 0xFFFFFFFF [ts] \<and> bench_batch_plan 3 (tr_inflight_count t) 5 = 2
      \<and> fst (bench_track_sent t 0 ts') = - BENCH_EFULL"
proof -
  have "tracker_run 3 (snd (bench_track_sent (bench_tracker_init 3) 0xFFFFFFFF ts)) 0 0xFFFFFFFF [ts]"
    using tracker_run.sent[OF tracker_run.start[of 3 "0xFFFFFFFF"], of 1 ts]
    by (simp add: bench_batch_plan_def bench_tracker_init_def u32_wrap)
  then show ?thesis
    by (simp add: bench_track_sent_def bench_tracker_init_def Let_def bench_batch_plan_def word_le_nat_alt)
qed

section \<open>The buffer ring is an index pool\<close>

definition br_free :: "bench_bufring \<Rightarrow> nat set" where
  "br_free r = unat ` set (take (unat (br_free_count r)) (br_free_idx r))"

definition br_inv :: "bench_bufring \<Rightarrow> bool" where
  "br_inv r \<longleftrightarrow>
    unat (br_cap r) \<le> 65536 \<and> unat (br_free_count r) \<le> unat (br_cap r)
    \<and> length (br_free_idx r) = unat (br_cap r) \<and> length (br_in_use r) = unat (br_cap r)
    \<and> distinct (take (unat (br_free_count r)) (br_free_idx r)) \<and> br_free r \<subseteq> {..<unat (br_cap r)}
    \<and> (\<forall>i<unat (br_cap r). br_in_use r ! i \<longleftrightarrow> i \<notin> br_free r)"

definition br_acquire :: "bench_bufring \<Rightarrow> nat option \<times> bench_bufring" where
  "br_acquire r =
    (case bench_bufring_take r of (i, r') \<Rightarrow> (if i < 0 then None else Some (nat i), r'))"

definition br_release :: "bench_bufring \<Rightarrow> nat \<Rightarrow> bench_bufring" where
  "br_release r i = snd (bench_bufring_recycle r (of_nat i))"

lemma unat_inject: "unat (x :: 'a::len word) = unat y \<longleftrightarrow> x = y"
  by (simp add: word_unat_eq_iff)

lemma br_card_free:
  assumes "br_inv r"
  shows "card (br_free r) = unat (br_free_count r)"
proof -
  have "inj_on unat (set (take (unat (br_free_count r)) (br_free_idx r)))" by (simp add: inj_on_def unat_inject)
  then show ?thesis using assms
    by (simp add: br_free_def card_image distinct_card br_inv_def)
qed

lemma br_take_ok:
  assumes inv: "br_inv r" and ne: "br_free_count r \<noteq> 0"
  obtains x :: u16 and r' where "bench_bufring_take r = (uint x, r')" "unat x \<in> br_free r"
    "br_free r' = br_free r - {unat x}" "br_inv r'" "br_cap r' = br_cap r"
proof -
  define k where "k = unat (br_free_count r - 1)"
  define x where "x = br_free_idx r ! k"
  define r' where "r' = r\<lparr>br_free_count := br_free_count r - 1, br_in_use := (br_in_use r)[unat x := True]\<rparr>"
  have k: "unat (br_free_count r) = Suc k" using ne by (simp add: k_def unat_minus_one unat_gt_0)
  have klt: "k < length (br_free_idx r)" using inv k by (simp add: br_inv_def)
  then have split: "take (Suc k) (br_free_idx r) = take k (br_free_idx r) @ [x]"
    by (simp add: take_Suc_conv_app_nth x_def)
  have d: "distinct (take k (br_free_idx r) @ [x])" using inv k split by (simp add: br_inv_def)
  have fr: "br_free r = insert (unat x) (br_free r')" "unat x \<notin> br_free r'"
    using d by (auto simp: br_free_def k split r'_def k_def[symmetric] unat_inject)
  have xlt: "unat x < unat (br_cap r)" using inv fr(1) by (auto simp: br_inv_def)
  have "br_in_use r' ! i \<longleftrightarrow> i \<notin> br_free r'" if "i < unat (br_cap r)" for i
    using inv that fr xlt by (auto simp: br_inv_def r'_def nth_list_update)
  then have "br_inv r'" using inv d k fr(1) by (auto simp: br_inv_def r'_def k_def[symmetric])
  moreover have "bench_bufring_take r = (uint x, r')"
    using ne by (simp add: bench_bufring_take_def Let_def x_def r'_def k_def)
  ultimately show ?thesis using that[of x r'] fr by (auto simp: r'_def)
qed

lemma br_recycle_ok:
  assumes inv: "br_inv r" and i: "i < unat (br_cap r)" "i \<notin> br_free r"
  shows "fst (bench_bufring_recycle r (of_nat i)) = 0"
    "br_inv (br_release r i) \<and> br_cap (br_release r i) = br_cap r
      \<and> br_free (br_release r i) = insert i (br_free r)"
proof -
  define k where "k = unat (br_free_count r)"
  define x where "x = (ucast (of_nat i :: u32) :: u16)"
  define r' where "r' = r\<lparr>br_in_use := (br_in_use r)[i := False],
      br_free_idx := (br_free_idx r)[k := x], br_free_count := br_free_count r + 1\<rparr>"
  have cap: "unat (br_cap r) \<le> 65536" using inv by (simp add: br_inv_def)
  have i32: "unat (of_nat i :: u32) = i" using i cap by (simp add: unat_of_nat)
  have ux: "unat x = i" using i cap i32 by (simp add: x_def unat_ucast_small)
  have "card (br_free r) \<le> card ({..<unat (br_cap r)} - {i})"
    using inv i by (intro card_mono) (auto simp: br_inv_def)
  then have klt: "k < unat (br_cap r)" using br_card_free[OF inv] i by (simp add: k_def)
  have k1: "unat (br_free_count r + 1) = Suc k" using klt cap by (simp add: k_def unat_add_small)
  have used: "br_in_use r ! i" using inv i by (simp add: br_inv_def)
  have eq: "bench_bufring_recycle r (of_nat i) = (0, r')"
    using used i i32 by (simp add: bench_bufring_recycle_def word_le_nat_alt r'_def k_def x_def)
  have len: "length (br_free_idx r) = unat (br_cap r)" using inv by (simp add: br_inv_def)
  have tk: "take (Suc k) ((br_free_idx r)[k := x]) = take k (br_free_idx r) @ [x]"
    using klt len by (simp add: take_Suc_conv_app_nth)
  have fr: "br_free r' = insert i (br_free r)"
    using tk ux by (simp add: br_free_def r'_def k1 k_def[symmetric])
  have "x \<notin> set (take k (br_free_idx r))" using i ux by (auto simp: br_free_def k_def)
  then have "distinct (take (Suc k) ((br_free_idx r)[k := x]))"
    using tk inv by (simp add: br_inv_def k_def)
  moreover have "br_in_use r' ! j \<longleftrightarrow> j \<notin> br_free r'" if "j < unat (br_cap r)" for j
    unfolding fr using inv that i by (auto simp: br_inv_def r'_def nth_list_update)
  moreover have "br_free r' \<subseteq> {..<unat (br_cap r)}" using fr i inv by (simp add: br_inv_def)
  ultimately have "br_inv r'" using inv klt k1 by (simp add: br_inv_def r'_def)
  then show "br_inv (br_release r i) \<and> br_cap (br_release r i) = br_cap r
      \<and> br_free (br_release r i) = insert i (br_free r)"
    using fr by (simp add: br_release_def eq) (simp add: r'_def)
  show "fst (bench_bufring_recycle r (of_nat i)) = 0" by (simp add: eq)
qed

interpretation br: index_pool br_inv "\<lambda>r. {..<unat (br_cap r)}" br_free br_acquire br_release
proof (unfold_locales, goal_cases)
  case (1 s)
  then show ?case by (simp add: br_inv_def)
next
  case (2 s i s')
  have ne: "br_free_count s \<noteq> 0"
    using 2 by (auto simp: br_acquire_def bench_bufring_take_def BENCH_EEMPTY_def)
  obtain x :: u16 and r' where "bench_bufring_take s = (uint x, r')" "unat x \<in> br_free s"
    "br_free r' = br_free s - {unat x}" "br_inv r'" "br_cap r' = br_cap s"
    by (rule br_take_ok[OF 2(1) ne])
  then show ?case using 2 by (auto simp: br_acquire_def)
next
  case (3 s s')
  then have "br_free_count s = 0"
    by (auto simp: br_acquire_def bench_bufring_take_def Let_def split: if_splits)
  then show ?case using 3 by (simp add: br_acquire_def bench_bufring_take_def br_free_def BENCH_EEMPTY_def)
next
  case (4 s i)
  then show ?case using br_recycle_ok(2)[of s i] by simp
qed

lemma br_init:
  assumes "unat c \<le> 65536"
  shows "br_inv (bench_bufring_init c)" "br_free (bench_bufring_init c) = {..<unat c}"
    "br_cap (bench_bufring_init c) = c"
proof -
  have u: "unat (of_nat i :: u16) = i" if "i < unat c" for i
    using that assms by (simp add: unat_of_nat)
  show free: "br_free (bench_bufring_init c) = {..<unat c}"
  proof -
    have "br_free (bench_bufring_init c) = (\<lambda>i. unat (of_nat i :: u16)) ` {..<unat c}"
      by (simp add: br_free_def bench_bufring_init_def image_image atLeast0LessThan)
    also have "\<dots> = {..<unat c}" using u by (force simp: image_iff)
    finally show ?thesis .
  qed
  have "inj_on (of_nat :: nat \<Rightarrow> u16) {0..<unat c}" using u by (intro inj_on_inverseI[of _ unat]) simp
  then have "distinct (map (of_nat :: nat \<Rightarrow> u16) [0..<unat c])" by (simp add: distinct_map)
  then show "br_inv (bench_bufring_init c)"
    using assms by (simp add: br_inv_def free) (simp add: bench_bufring_init_def)
qed (simp add: bench_bufring_init_def)

text \<open>
  C23: the provided-buffer ring hands every buffer to one holder at a time.  Over any sequence of
  takes and recycles from the initial ring of at most 65536 buffers, an index taken is in range and
  not held, taking fails exactly when every buffer is held, and a recycle answers by the state of
  the index: out of range, not held, or accepted.
\<close>

theorem bufring_exclusive:
  assumes "unat c \<le> 65536" and "br.held (bench_bufring_init c) r H"
  shows "(\<forall>i r'. bench_bufring_take r = (i, r') \<and> 0 \<le> i \<longrightarrow> nat i < unat c \<and> nat i \<notin> H)
    \<and> (fst (bench_bufring_take r) = - BENCH_EEMPTY \<longleftrightarrow> H = {..<unat c})
    \<and> fst (bench_bufring_recycle r idx) =
        (if c \<le> idx then - BENCH_ERANGE else if unat idx \<notin> H then - BENCH_EDUP else 0)"
proof (intro conjI)
  have c0: "br_cap (bench_bufring_init c) = c" by (rule br_init(3)[OF assms(1)])
  have i0: "br_inv (bench_bufring_init c)" by (rule br_init(1)[OF assms(1)])
  have f0: "br_free (bench_bufring_init c) = {..<unat (br_cap (bench_bufring_init c))}"
    unfolding c0 by (rule br_init(2)[OF assms(1)])
  note part = br.held_partition[OF i0 f0 assms(2), unfolded c0]
  show "\<forall>i r'. bench_bufring_take r = (i, r') \<and> 0 \<le> i \<longrightarrow> nat i < unat c \<and> nat i \<notin> H"
  proof (intro allI impI)
    fix i r' assume tk: "bench_bufring_take r = (i, r') \<and> 0 \<le> i"
    then have "br_acquire r = (Some (nat i), r')" by (simp add: br_acquire_def)
    then show "nat i < unat c \<and> nat i \<notin> H"
      using br.acquire_exclusive[OF i0 f0 assms(2)] c0 by simp
  qed
  have nn: "uint x \<noteq> - 10" for x :: u16
  proof -
    have "0 \<le> uint x" by simp
    then show ?thesis by linarith
  qed
  have "fst (bench_bufring_take r) = - BENCH_EEMPTY \<longleftrightarrow> fst (br_acquire r) = None"
    by (auto simp: nn br_acquire_def bench_bufring_take_def BENCH_EEMPTY_def Let_def)
  then show "fst (bench_bufring_take r) = - BENCH_EEMPTY \<longleftrightarrow> H = {..<unat c}"
    using br.exhausted_iff_all_held[OF i0 f0 assms(2)] c0 by simp
  have "br_in_use r ! unat idx \<longleftrightarrow> unat idx \<in> H" if "unat idx < unat c"
  proof -
    have "unat idx \<in> H \<union> br_free r" using part that by simp
    then have "unat idx \<in> H \<longleftrightarrow> unat idx \<notin> br_free r" using part by (auto dest: IntI)
    then show ?thesis using part that by (simp add: br_inv_def)
  qed
  moreover have "br_cap r = c" using part by (simp add: unat_inject)
  ultimately show "fst (bench_bufring_recycle r idx) =
        (if c \<le> idx then - BENCH_ERANGE else if unat idx \<notin> H then - BENCH_EDUP else 0)"
    by (simp add: bench_bufring_recycle_def word_le_nat_alt not_le)
qed

theorem bufring_exclusive_witness:
  "unat (2 :: u32) \<le> 65536
   \<and> br.held (bench_bufring_init 2) (snd (bench_bufring_take (bench_bufring_init 2))) {1}
   \<and> fst (bench_bufring_recycle (snd (bench_bufring_take (bench_bufring_init 2))) 1) = 0
   \<and> fst (bench_bufring_recycle (snd (bench_bufring_take (bench_bufring_init 2))) 0) = - BENCH_EDUP"
proof -
  have le: "unat (2 :: u32) \<le> 65536" by simp
  have "br_acquire (bench_bufring_init 2)
      = (Some 1, snd (bench_bufring_take (bench_bufring_init 2)))"
    by (simp add: br_acquire_def bench_bufring_take_def bench_bufring_init_def Let_def upt_rec)
  from br.held.take[OF br.held.start this]
  have held: "br.held (bench_bufring_init 2) (snd (bench_bufring_take (bench_bufring_init 2))) {1}"
    by simp
  show ?thesis
    using le held bufring_exclusive[OF le held, of 1] bufring_exclusive[OF le held, of 0]
    by (simp add: word_le_nat_alt)
qed

section \<open>Statistics, names, configuration\<close>

lemma qsort_cmp_u64: "qsort cmp_u64 xs = sort xs"
proof -
  have ins: "qsort_insert cmp_u64 x ys = insort x ys" for x ys
    by (induction ys) (auto simp: cmp_u64_def)
  have "foldr (qsort_insert cmp_u64) xs [] = foldr insort xs []"
    by (induction xs) (simp_all add: ins)
  then show ?thesis by (simp add: qsort_def sort_key_def)
qed

lemma stats_fold:
  assumes "length buf = c"
  shows "let s = foldl bench_stats_add (bench_stats_init buf c) rtts
    in st_cap s = c \<and> length (st_samples s) = c \<and> st_count s = length (take c rtts)
       \<and> take (st_count s) (st_samples s) = take c rtts \<and> st_dropped s = of_nat (length rtts - c)"
proof (induction rtts rule: rev_induct)
  case Nil
  then show ?case using assms by (simp add: bench_stats_init_def)
next
  case (snoc x rtts)
  then show ?case
    by (cases "length rtts < c")
      (auto simp: bench_stats_add_def Let_def min_def take_Suc_conv_app_nth Suc_diff_le)
qed

lemma sorted_rank_le:
  assumes "sorted (xs :: 'a::linorder list)" "k < length xs"
  shows "k < length (filter (\<lambda>x. x \<le> xs ! k) xs)"
proof -
  have "filter (\<lambda>x. x \<le> xs ! k) (take (Suc k) xs) = take (Suc k) xs"
    using assms by (auto simp: filter_id_conv in_set_conv_nth sorted_iff_nth_mono)
  moreover have "filter (\<lambda>x. x \<le> xs ! k) xs
      = filter (\<lambda>x. x \<le> xs ! k) (take (Suc k) xs) @ filter (\<lambda>x. x \<le> xs ! k) (drop (Suc k) xs)"
    by (metis append_take_drop_id filter_append)
  ultimately show ?thesis using assms(2) by simp
qed

lemma length_filter_sort: "length (filter P (sort xs)) = length (filter P xs)"
  by (simp add: filter_sort)

text \<open>
  the statistics.  After adding any sequence of samples the first samples up to the capacity
  are kept and the others counted as dropped; finalising fails exactly when none was kept, and
  otherwise reports the least and the greatest kept sample and percentiles that are ordered between
  them and have the rank they are named for: more than half of the samples are at most the median,
  and more than 99 percent, rounded down, at most the 99th percentile.
\<close>

theorem stats_percentiles:
  assumes "length buf = c"
  shows "let s = foldl bench_stats_add (bench_stats_init buf c) rtts; kept = take c rtts
    in st_dropped s = of_nat (length rtts - c)
     \<and> (case fst (bench_stats_finalize s) of
          Inl e \<Rightarrow> kept = [] \<and> e = - BENCH_EEMPTY
        | Inr r \<Rightarrow> kept \<noteq> [] \<and> sr_count r = length kept
            \<and> sr_min_ns r = Min (set kept) \<and> sr_max_ns r = Max (set kept)
            \<and> sr_min_ns r \<le> sr_p50_ns r \<and> sr_p50_ns r \<le> sr_p99_ns r \<and> sr_p99_ns r \<le> sr_max_ns r
            \<and> length kept div 2 < length (filter (\<lambda>x. x \<le> sr_p50_ns r) kept)
            \<and> length kept * 99 div 100 < length (filter (\<lambda>x. x \<le> sr_p99_ns r) kept))"
proof -
  define s where "s = foldl bench_stats_add (bench_stats_init buf c) rtts"
  define kept where "kept = take c rtts"
  define n where "n = length kept"
  have s: "st_count s = n" "take n (st_samples s) = kept" "st_dropped s = of_nat (length rtts - c)"
    using stats_fold[OF assms, of rtts] by (auto simp: Let_def s_def kept_def n_def)
  show ?thesis
  proof (cases "kept = []")
    case True
    then show ?thesis using s by (simp add: bench_stats_finalize_def n_def flip: s_def kept_def)
  next
    case False
    define xs where "xs = sort kept"
    have xs: "sorted xs" "length xs = n" "set xs = set kept" "0 < n"
      using False by (simp_all add: xs_def n_def)
    have idx: "n div 2 < n" "n * 99 div 100 < n" "n div 2 \<le> n * 99 div 100 \<or> n = 1" "n - 1 < n"
      using xs(4) by auto
    have at: "(xs @ drop n (st_samples s)) ! i = xs ! i" if "i < n" for i
      using that xs(2) by (simp add: nth_append)
    have mono: "i \<le> j \<Longrightarrow> j < n \<Longrightarrow> xs ! i \<le> xs ! j" for i j
      using xs(1,2) by (simp add: sorted_iff_nth_mono)
    have mn: "xs ! 0 = Min (set kept)"
      unfolding xs(3)[symmetric] by (rule Min_eqI[symmetric])
        (use xs(2,4) mono in \<open>auto simp: in_set_conv_nth\<close>)
    have mx: "xs ! (n - 1) = Max (set kept)"
      unfolding xs(3)[symmetric] by (rule Max_eqI[symmetric])
        (use xs(2,4) mono in \<open>auto simp: in_set_conv_nth intro: exI[of _ "n - 1"]\<close>)
    have p: "xs ! (n div 2) \<le> xs ! (n * 99 div 100)"
    proof (cases "n = 1")
      case False
      then show ?thesis using mono idx by blast
    qed simp
    have fin: "fst (bench_stats_finalize s) = Inr \<lparr> sr_min_ns = xs ! 0, sr_max_ns = xs ! (n - 1),
        sr_p50_ns = xs ! (n div 2), sr_p99_ns = xs ! (n * 99 div 100), sr_count = n \<rparr>"
      using xs(4) s idx by (simp add: bench_stats_finalize_def qsort_cmp_u64 xs_def[symmetric] at)
    have rank: "k < length (filter (\<lambda>x. x \<le> xs ! k) kept)" if "k < n" for k
      using sorted_rank_le[OF xs(1), of k] that xs(2) by (simp add: length_filter_sort xs_def n_def)
    show ?thesis
      unfolding s_def[symmetric] kept_def[symmetric] Let_def fin n_def[symmetric]
      using False s(3) mn mx p rank[OF idx(1)] rank[OF idx(2)] mono[of 0 "n div 2"]
        mono[of "n * 99 div 100" "n - 1"] idx by simp
  qed
qed

theorem stats_percentiles_witness:
  "length [0 :: u64, 0] = 2
   \<and> st_dropped (foldl bench_stats_add (bench_stats_init [0, 0] 2) [7, 3, 5]) = 1
   \<and> (case fst (bench_stats_finalize (foldl bench_stats_add (bench_stats_init [0, 0] 2) [7, 3, 5])) of
        Inl e \<Rightarrow> False | Inr r \<Rightarrow> sr_min_ns r = 3 \<and> sr_max_ns r = 7)"
  using stats_percentiles[of "[0, 0]" 2 "[7, 3, 5]"] by (simp add: Let_def split: sum.splits)

text \<open>The name tables share one contract: names and values are unique and every value has a name.\<close>

locale name_table =
  fixes tbl :: "(string \<times> 'm) list"
  assumes names: "distinct (map fst tbl)" and vals: "distinct (map snd tbl)"
    and covers: "m \<in> snd ` set tbl"
begin

lemma parse_in: "distinct (map fst xs) \<Longrightarrow> bench_mode_parse_loop s xs = Inr m \<longleftrightarrow> (s, m) \<in> set xs"
  by (induction s xs rule: bench_mode_parse_loop.induct) (auto simp: image_iff)

lemma parse_error: "bench_mode_parse_loop s xs = Inl e \<Longrightarrow> e = - BENCH_EINVAL"
  by (induction s xs rule: bench_mode_parse_loop.induct) (auto split: if_splits)

lemma str_in:
  "distinct (map snd xs) \<Longrightarrow> (s, m) \<in> set xs \<Longrightarrow> bench_mode_str_loop m xs = s"
  by (induction m xs rule: bench_mode_str_loop.induct) (auto simp: image_iff)

lemma parse_str: "bench_mode_parse_loop s tbl = Inr m \<longleftrightarrow> s = bench_mode_str_loop m tbl"
proof -
  from covers[of m] obtain s' where s': "(s', m) \<in> set tbl" by force
  then have "bench_mode_str_loop m tbl = s'" by (rule str_in[OF vals])
  moreover have "(s, m) \<in> set tbl \<longleftrightarrow> s = s'"
    using str_in[OF vals] s' by metis
  ultimately show ?thesis by (simp add: parse_in[OF names])
qed

end

interpretation mode_tbl: name_table mode_names
proof
  show "m \<in> snd ` set mode_names" for m by (cases m) (simp_all add: mode_names_def)
qed (simp_all add: mode_names_def)

interpretation verify_tbl: name_table verify_names
proof
  show "m \<in> snd ` set verify_names" for m by (cases m) (simp_all add: verify_names_def)
qed (simp_all add: verify_names_def)

interpretation pattern_tbl: name_table pattern_names
proof
  show "m \<in> snd ` set pattern_names" for m by (cases m) (simp_all add: pattern_names_def)
qed (simp_all add: pattern_names_def)

text \<open>
  the option names.  For modes, verification levels and patterns a string parses to a value
  exactly when it is the printed name of that value.
\<close>

theorem bench_names_roundtrip:
  "(bench_mode_parse s = Inr m \<longleftrightarrow> s = bench_mode_str m)
   \<and> (bench_verify_parse s = Inr v \<longleftrightarrow> s = bench_verify_str v)
   \<and> (bench_pattern_parse s = Inr p \<longleftrightarrow> s = bench_pattern_str p)"
  by (simp add: bench_mode_parse_def bench_mode_str_def bench_verify_parse_def bench_verify_str_def
      bench_pattern_parse_def bench_pattern_str_def mode_tbl.parse_str verify_tbl.parse_str
      pattern_tbl.parse_str)

text \<open>
  a validated configuration fits the wire layer: the message carries a header and at most the
  maximal payload, so that a header with the remaining length is accepted by the decoder with no
  limit of its own, the batch fits the tracker and the buffer ring, and exactly one stop condition
  is set; every other configuration is refused with BENCH\_EINVAL.
\<close>

theorem validated_config_fits:
  "if bench_config_validate c = 0
   then BENCH_HDR_SIZE \<le> unat (bc_msg_size c)
     \<and> unat (bc_msg_size c - of_nat BENCH_HDR_SIZE) = unat (bc_msg_size c) - BENCH_HDR_SIZE
     \<and> bench_hdr_valid 0 (h\<lparr>bh_magic := BENCH_MAGIC, bh_version := BENCH_VERSION,
          bh_flags := BENCH_FLAG_ECHO, bh_payload_len := bc_msg_size c - of_nat BENCH_HDR_SIZE\<rparr>)
     \<and> 1 \<le> unat (bc_batch c) \<and> unat (bc_batch c) \<le> 1024
     \<and> (bc_count c = 0) \<noteq> (bc_duration_s c = 0)
   else bench_config_validate c = - BENCH_EINVAL"
proof (cases "bench_config_validate c = 0")
  case True
  then have ok: "\<not> bc_msg_size c < of_nat BENCH_HDR_SIZE" "\<not> BENCH_MSG_MAX < bc_msg_size c"
    "\<not> bc_batch c < 1" "\<not> BENCH_BATCH_MAX < bc_batch c" "(bc_count c = 0) \<noteq> (bc_duration_s c = 0)"
    by (auto simp: bench_config_validate_def BENCH_EINVAL_def split: if_splits)
  have sz: "24 \<le> unat (bc_msg_size c)" "unat (bc_msg_size c) \<le> 1048600"
    using ok(1,2) by (simp_all add: word_less_nat_alt BENCH_HDR_SIZE_def BENCH_MSG_MAX_def BENCH_PAYLOAD_MAX_def)
  have sub: "unat (bc_msg_size c - 24) = unat (bc_msg_size c) - 24"
    using sz(1) by (subst unat_sub) (simp_all add: word_le_nat_alt)
  then have pl: "bc_msg_size c - 24 \<le> bench_cap 0"
    using sz by (simp add: word_le_nat_alt bench_cap_def BENCH_PAYLOAD_MAX_def)
  have fl: "BENCH_FLAG_ECHO AND NOT BENCH_FLAG_MASK = 0"
    by (simp add: BENCH_FLAG_ECHO_def BENCH_FLAG_MASK_def BENCH_FLAG_FIN_def)
  have batch: "1 \<le> unat (bc_batch c)" "unat (bc_batch c) \<le> 1024"
    using ok(3,4) by (simp_all add: word_less_nat_alt BENCH_BATCH_MAX_def)
  show ?thesis
    using True ok(5) sz sub pl fl batch by (simp add: BENCH_HDR_SIZE_def bench_hdr_valid_def)
next
  case False
  then show ?thesis by (auto simp: bench_config_validate_def split: if_splits)
qed

end
