(* ===== verification/Urp_State.thy ===== *)
theory Urp_State
  imports Urp_Frame Urp_Credit Urp_Window Urp_Hist Urp_Plan Urp_Stream_SM Urp_Reorder Urp_Geometry
    Urp_Pool
begin

text \<open>
  The run-time state of the kernel module (kernel/urp.h) and its boundary.  Records keep the
  fields of the C structures that the modelled operations use; locks, list heads, reference
  pointers and kernel object headers are left out.  Kernel objects such as sockets, queue pairs and
  connection identifiers are numbers, NULL is None.  Everything outside the module is an
  environment: for each kernel call a function of the calls made so far gives its outcome, and the
  calls are recorded in order in a trace that is part of the state, so that an outcome may depend on
  the whole history and a lemma can speak about the order of calls.
\<close>

section \<open>Calls to the kernel\<close>

datatype shutdown_how = SHUT_WR | SHUT_RDWR

datatype kobj = O_pd | O_send_cq | O_recv_cq | O_srq | O_page_pool | O_bufs | O_arrays | O_scratch | O_page
  | O_dma | O_qps | O_cm_id | O_qp | O_proc | O_ctx | O_endpoint | O_streams | O_stream | O_reorder | O_sock

datatype rdma_op = R_create_id | R_resolve_addr | R_resolve_route | R_connect | R_accept | R_reject
  | R_bind_addr | R_listen | R_disconnect | R_create_qp | R_drain_qp | R_destroy_qp | R_destroy_id

datatype work = W_connect nat | W_connect_retry nat u32 | W_probe

text \<open>
  Sends carry the queue pair, the buffer and the bytes gathered, receives the buffer and its armed
  lengths, socket calls the socket and the bytes moved, dials the address and port, connection requests
  and replies the private data sent to the peer, and the creation of a
  queue pair the depths asked for and whether it shares the receive queue.
\<close>

record qp_init_attr =
  qi_max_send_wr :: u32
  qi_max_recv_wr :: u32
  qi_max_send_sge :: u32
  qi_max_recv_sge :: u32
  qi_srq :: bool

datatype ext =
    X_post_send nat nat bytes
  | X_post_send_fail nat nat
  | X_post_srq_recv nat "u32 list"
  | X_post_srq_recv_fail nat
  | X_sendmsg nat bytes
  | X_sendmsg_fail nat
  | X_recvmsg nat bytes
  | X_recvmsg_fail nat
  | X_clock
  | X_alloc kobj
  | X_alloc_fail kobj
  | X_free kobj
  | X_sock_connect nat string
  | X_sock_bind nat string
  | X_sock_listen nat
  | X_unlink string
  | X_accept
  | X_sock_shutdown nat shutdown_how
  | X_sock_release nat
  | X_kthread_run
  | X_kthread_stop
  | X_wake_send_wq
  | X_wait_send_wq
  | X_rdma rdma_op nat
  | X_rdma_data rdma_op nat bytes
  | X_create_qp nat qp_init_attr
  | X_schedule work
  | X_cancel work
  | X_cm_done bool
  | X_wait_cm_done
  | X_query_port
  | X_send_event

text \<open>The writable module parameters (kernel/urp\_sysctl.c).\<close>

record urp_sysctl =
  sy_connect_max_attempts :: u32
  sy_connect_backoff_base_ms :: u32
  sy_connect_backoff_ceil_ms :: u32
  sy_window_bytes_advertise :: u32
  sy_window_bytes :: u32
  sy_interarrival_hist :: u32
  sy_latency_sample_period :: u32
  sy_owd_clock_offset_ns :: u32

text \<open>
  The environment.  None is success where a call only returns a status; a received message is
  the list of bytes read, empty at end of file.
\<close>

record ib_device_attrs =
  da_max_send_sge :: u32
  da_max_recv_sge :: u32
  da_max_srq_sge :: u32
  da_max_srq_wr :: u32
  da_max_qp_wr :: u32
  da_max_cqe :: u32
  da_page_size :: u32

text \<open>The link speeds of the verbs interface; a port's width is given as its number of lanes.\<close>

datatype ib_speed = IB_SPEED_SDR | IB_SPEED_DDR | IB_SPEED_QDR | IB_SPEED_FDR10 | IB_SPEED_FDR
  | IB_SPEED_EDR | IB_SPEED_HDR | IB_SPEED_NDR | IB_SPEED_OTHER

text \<open>What a path names: nothing, a node that changed under the lookup, a socket or anything else.\<close>

datatype path_node = PN_absent | PN_raced | PN_socket | PN_other

record env =
  ev_post_send :: "ext list \<Rightarrow> errno option"
  ev_post_srq_recv :: "ext list \<Rightarrow> errno option"
  ev_sendmsg :: "ext list \<Rightarrow> nat result"
  ev_recvmsg :: "ext list \<Rightarrow> bytes result"
  ev_ktime :: "ext list \<Rightarrow> u64"
  ev_ktime_real :: "ext list \<Rightarrow> u64"
  ev_alloc :: "ext list \<Rightarrow> kobj \<Rightarrow> errno option"
  ev_reorder_kmalloc :: "ext list \<Rightarrow> kmalloc_ok"
  ev_connect :: "ext list \<Rightarrow> errno option"
  ev_bind :: "ext list \<Rightarrow> errno option"
  ev_listen :: "ext list \<Rightarrow> errno option"
  ev_accept :: "ext list \<Rightarrow> nat result"
  ev_kthread_run :: "ext list \<Rightarrow> errno option"
  ev_kthread_should_stop :: "ext list \<Rightarrow> bool"
  ev_rdma :: "ext list \<Rightarrow> rdma_op \<Rightarrow> errno option"
  ev_new_handle :: "ext list \<Rightarrow> nat"
  ev_query_port :: "ext list \<Rightarrow> (ib_speed \<times> int) option"
  ev_path_node :: "ext list \<Rightarrow> string \<Rightarrow> path_node"
  ev_sha256 :: "bytes \<Rightarrow> bytes"
  ev_fast_enabled :: bool
  ev_dev :: ib_device_attrs
  ev_sysctl :: urp_sysctl

section \<open>Buffers, statistics, queue pairs, streams\<close>

text \<open>A buffer is its chunk pages and the lengths of its scatter-gather entries.\<close>

record urp_buffer =
  bf_pages :: "bytes list"
  bf_sge_len :: "u32 list"

abbreviation bf_num_chunks :: "urp_buffer \<Rightarrow> nat" where
  "bf_num_chunks b \<equiv> length (bf_pages b)"

abbreviation bf_data :: "urp_buffer \<Rightarrow> bytes" where
  "bf_data b \<equiv> bf_pages b ! 0"

record urp_stats =
  stat_tx_bytes :: u64
  stat_rx_bytes :: u64
  stat_tx_frames :: u64
  stat_rx_frames :: u64
  stat_connections :: u64
  stat_credit_stalls :: u64
  stat_reorder_insertions :: u64
  stat_reorder_drops :: u64
  stat_buffer_alloc_fails :: u64
  stat_auth_failures :: u64

record urp_hist15 =
  hi_bucket :: "u64 list"
  hi_sum_ns :: u64
  hi_count :: u64

record urp_interarrival =
  ia_last_ns :: "u64 list"
  ia_nframes :: u64
  ia_h :: "urp_hist15 list"

record urp_owd =
  owd_h :: urp_hist15
  owd_anomalies :: u64

record urp_qp =
  q_cm_id :: "nat option"
  q_qp :: "nat option"
  q_index :: u32
  q_established :: bool
  q_accept_slot_held :: bool
  q_peer_is_fast :: bool
  q_peer_supports_window :: bool
  q_peer_supports_tstamp :: bool
  q_credit :: urp_credit
  q_tx_bytes :: u64
  q_rx_bytes :: u64
  q_tx_frames :: u64
  q_rx_frames :: u64
  q_probe_seq :: u32
  q_consecutive_misses :: u32
  q_consecutive_pongs :: u32
  q_last_ping_ns :: u64
  q_rtt_ewma_ns :: u64
  q_health :: urp_qp_state
  q_connect_attempts :: u32

definition URP_QP_MISS_THRESHOLD :: u32 where "URP_QP_MISS_THRESHOLD = 3"

record urp_connection =
  c_uds_sock :: "nat option"
  c_tx_thread :: bool
  c_seq :: u64
  c_active :: bool

record urp_stream =
  s_id :: u32
  s_state :: urp_stream_state
  s_tx_seq :: u64
  s_tx_bytes :: u64
  s_rx_bytes :: u64
  s_credit :: urp_credit
  s_reorder :: urp_reorder
  s_window_bytes :: u64
  s_tx_bytes_acked :: u64
  s_last_window_grant :: u64
  s_uds_sock :: "nat option"
  s_tx_thread :: bool
  s_tx_done :: bool

section \<open>Endpoint\<close>

text \<open>
  The structure is flat in C; here it is a chain of record extensions, one per group of fields of
  the declaration: configuration, lifecycle and sockets, queue pairs, streams, buffer pool, and
  run-time state.  Field access is flat.  The last field is the trace.
\<close>

text \<open>A socket address: whether its family is AF\_INET6, the port and the sixteen address bytes.\<close>

record sockaddr_in6 =
  sin6_inet6 :: bool
  sin6_port :: u16
  sin6_addr :: bytes

record urp_ep_config =
  ep_name :: string
  ep_listen_path :: string
  ep_connect_path :: string
  ep_rdma_device :: string
  ep_peer_addr :: sockaddr_in6
  ep_bind_addr :: sockaddr_in6
  ep_has_peer_addr :: bool
  ep_has_bind_addr :: bool
  ep_num_qps :: u32
  ep_buffer_count :: u32
  ep_buffer_size :: u32
  ep_mode :: urp_ep_mode
  ep_kind :: urp_ep_kind
  ep_password :: bytes
  ep_password_hash :: bytes
  ep_has_password :: bool
  ep_auth_priv :: bytes
  ep_conn_priv :: bytes
  ep_auth_len :: u8

record urp_ep_life = urp_ep_config +
  ep_state :: urp_endpoint_state
  ep_refcount :: nat
  ep_is_initiator :: bool
  ep_listen_sock :: "nat option"
  ep_accept_thread :: bool
  ep_conn :: urp_connection
  ep_listen_id :: "nat option"
  ep_ib_dev :: bool
  ep_pd :: bool
  ep_send_cq :: bool
  ep_recv_cq :: bool
  ep_page_pool :: bool
  ep_srq :: bool
  ep_srq_pool_target :: u32
  ep_proc :: bool

record urp_ep_qps = urp_ep_life +
  ep_qps :: "urp_qp list option"
  ep_qps_connected :: u32
  ep_qps_accepted :: u32
  ep_rr_counter :: u32

record urp_ep_streams = urp_ep_qps +
  ep_streams :: "(u32 \<times> urp_stream) list"
  ep_streams_inited :: bool
  ep_next_stream_id :: u32
  ep_pending_reap :: u32

record urp_ep_pool = urp_ep_streams +
  ep_bufs :: "urp_buffer list option"
  ep_num_bufs :: u32
  ep_buf_size :: u32
  ep_num_chunks :: u32
  ep_chunk_size :: u32
  ep_max_frame :: u32
  ep_recv_scratch :: "bytes option"
  ep_send_free :: "nat list"
  ep_recv_free :: "nat list"

record urp_endpoint = urp_ep_pool +
  ep_stats :: urp_stats
  ep_interarrival :: urp_interarrival
  ep_owd :: urp_owd
  ep_cm_status :: "errno option"
  ep_connected :: bool
  ep_window_negotiated :: bool
  ep_tstamp_negotiated :: bool
  ep_link_mbps :: u32
  ep_connect_started :: bool
  ep_connect_failed :: bool
  ep_probe_active :: bool
  ep_trace :: "ext list"

definition urp_ep_is_fast :: "urp_endpoint \<Rightarrow> bool" where
  "urp_ep_is_fast ep \<longleftrightarrow> ep_kind ep = URP_EP_KIND_FAST"

definition log_ext :: "ext \<Rightarrow> urp_endpoint \<Rightarrow> urp_endpoint" where
  "log_ext x ep = ep\<lparr>ep_trace := ep_trace ep @ [x]\<rparr>"

definition upd_stats :: "(urp_stats \<Rightarrow> urp_stats) \<Rightarrow> urp_endpoint \<Rightarrow> urp_endpoint" where
  "upd_stats f ep = ep\<lparr>ep_stats := f (ep_stats ep)\<rparr>"

abbreviation bufs :: "urp_endpoint \<Rightarrow> urp_buffer list" where
  "bufs ep \<equiv> the (ep_bufs ep)"

definition upd_buf :: "nat \<Rightarrow> (urp_buffer \<Rightarrow> urp_buffer) \<Rightarrow> urp_endpoint \<Rightarrow> urp_endpoint" where
  "upd_buf i f ep = ep\<lparr>ep_bufs := map_option (\<lambda>b. b[i := f (b ! i)]) (ep_bufs ep)\<rparr>"

definition upd_data :: "nat \<Rightarrow> (bytes \<Rightarrow> bytes) \<Rightarrow> urp_endpoint \<Rightarrow> urp_endpoint" where
  "upd_data i f = upd_buf i (\<lambda>b. b\<lparr>bf_pages := (bf_pages b)[0 := f (bf_data b)]\<rparr>)"

abbreviation qps :: "urp_endpoint \<Rightarrow> urp_qp list" where
  "qps ep \<equiv> the (ep_qps ep)"

definition upd_qp :: "nat \<Rightarrow> (urp_qp \<Rightarrow> urp_qp) \<Rightarrow> urp_endpoint \<Rightarrow> urp_endpoint" where
  "upd_qp i f ep = ep\<lparr>ep_qps := map_option (\<lambda>q. q[i := f (q ! i)]) (ep_qps ep)\<rparr>"

section \<open>Hash tables\<close>

text \<open>
  The kernel's rhashtable with unique keys, as an association list.  A lookup finds the entry of a
  key, an insertion is refused when the key is taken.
\<close>

definition ht_lookup :: "('k \<times> 'v) list \<Rightarrow> 'k \<Rightarrow> 'v option" where
  "ht_lookup t k = map_of t k"

definition ht_insert :: "('k \<times> 'v) list \<Rightarrow> 'k \<Rightarrow> 'v \<Rightarrow> ('k \<times> 'v) list result" where
  "ht_insert t k v = (case ht_lookup t k of None \<Rightarrow> Inr ((k, v) # t) | Some _ \<Rightarrow> Inl EEXIST)"

definition ht_remove :: "('k \<times> 'v) list \<Rightarrow> 'k \<Rightarrow> ('k \<times> 'v) list" where
  "ht_remove t k = filter (\<lambda>e. fst e \<noteq> k) t"

definition ht_update :: "('k \<times> 'v) list \<Rightarrow> 'k \<Rightarrow> ('v \<Rightarrow> 'v) \<Rightarrow> ('k \<times> 'v) list" where
  "ht_update t k f = map (\<lambda>e. if fst e = k then (k, f (snd e)) else e) t"

locale keyed_table =
  fixes inv :: "'t \<Rightarrow> bool"
    and lookup :: "'t \<Rightarrow> 'k \<Rightarrow> 'v option"
    and ins :: "'t \<Rightarrow> 'k \<Rightarrow> 'v \<Rightarrow> 't result"
    and rem :: "'t \<Rightarrow> 'k \<Rightarrow> 't"
    and upd :: "'t \<Rightarrow> 'k \<Rightarrow> ('v \<Rightarrow> 'v) \<Rightarrow> 't"
  assumes ins_taken: "lookup t k = Some v' \<Longrightarrow> ins t k v = Inl EEXIST"
    and ins_free: "inv t \<Longrightarrow> lookup t k = None \<Longrightarrow>
      \<exists>t'. ins t k v = Inr t' \<and> inv t' \<and> lookup t' = (lookup t)(k \<mapsto> v)"
    and rem_lookup: "inv t \<Longrightarrow> inv (rem t k) \<and> lookup (rem t k) = (lookup t)(k := None)"
    and upd_lookup: "inv t \<Longrightarrow> inv (upd t k f) \<and>
      lookup (upd t k f) = (lookup t)(k := map_option f (lookup t k))"
begin

lemma ins_cases:
  assumes "inv t"
  obtains (taken) "lookup t k \<noteq> None" "ins t k v = Inl EEXIST"
  | (fresh) t' where "lookup t k = None" "ins t k v = Inr t'" "inv t'" "lookup t' = (lookup t)(k \<mapsto> v)"
  using ins_taken[of t k _ v] ins_free[OF assms, of k v] by (cases "lookup t k") auto

end

definition ht_inv :: "('k \<times> 'v) list \<Rightarrow> bool" where
  "ht_inv t \<longleftrightarrow> distinct (map fst t)"

lemma ht_lookup_update: "ht_lookup (ht_update t k f) = (ht_lookup t)(k := map_option f (ht_lookup t k))"
  by (rule ext, induction t) (auto simp: ht_lookup_def ht_update_def)

lemma ht_lookup_remove: "ht_lookup (ht_remove t k) = (ht_lookup t)(k := None)"
  by (rule ext, induction t) (auto simp: ht_lookup_def ht_remove_def)

lemma fst_ht_update: "map fst (ht_update t k f) = map fst t"
  by (induction t) (auto simp: ht_update_def)

interpretation ht: keyed_table ht_inv ht_lookup ht_insert ht_remove ht_update
proof (unfold_locales, goal_cases)
  case (1 t k v' v)
  then show ?case by (simp add: ht_insert_def)
next
  case (2 t k v)
  then have "k \<notin> fst ` set t" by (simp add: ht_lookup_def map_of_eq_None_iff)
  with 2 show ?case by (auto simp: ht_insert_def ht_inv_def ht_lookup_def)
next
  case (3 t k)
  then show ?case by (simp add: ht_lookup_remove ht_inv_def) (simp add: ht_remove_def distinct_map_filter)
next
  case (4 t k f)
  then show ?case by (simp add: ht_lookup_update ht_inv_def fst_ht_update)
qed

end
