(* ===== verification/Urp_Sample.thy ===== *)
theory Urp_Sample
  imports Urp_State
begin

text \<open>
  A concrete endpoint and a concrete environment, on which the theorems of the stateful theories
  are exercised: a closed acceptor with two queue pairs and eight buffers of 128 bytes, and a kernel
  in which every call succeeds, sockets take whatever is written and the clock stands still.
\<close>

definition sample_dev :: ib_device_attrs where
  "sample_dev = \<lparr> da_max_send_sge = 4, da_max_recv_sge = 4, da_max_srq_sge = 4, da_max_srq_wr = 64,
     da_max_qp_wr = 64, da_max_cqe = 256, da_page_size = 4096 \<rparr>"

definition sample_sysctl :: urp_sysctl where
  "sample_sysctl = \<lparr> sy_connect_max_attempts = 5, sy_connect_backoff_base_ms = 100,
     sy_connect_backoff_ceil_ms = 5000, sy_window_bytes_advertise = 1, sy_window_bytes = 1048576,
     sy_interarrival_hist = 0, sy_latency_sample_period = 0, sy_owd_clock_offset_ns = 0 \<rparr>"

definition sample_env :: env where
  "sample_env = \<lparr> ev_post_send = (\<lambda>_. None), ev_post_srq_recv = (\<lambda>_. None),
     ev_sendmsg = (\<lambda>_. Inr 4096), ev_recvmsg = (\<lambda>_. Inr []), ev_ktime = (\<lambda>_. 1000),
     ev_ktime_real = (\<lambda>_. 5000), ev_alloc = (\<lambda>_ _. None), ev_reorder_kmalloc = (\<lambda>_ _. True),
     ev_connect = (\<lambda>_. None), ev_bind = (\<lambda>_. None),
     ev_listen = (\<lambda>_. None), ev_accept = (\<lambda>_. Inr 9), ev_kthread_run = (\<lambda>_. None), ev_kthread_should_stop = (\<lambda>_. False),
     ev_rdma = (\<lambda>_ _. None), ev_new_handle = (\<lambda>tr. length tr), ev_query_port = (\<lambda>_. None),
     ev_path_node = (\<lambda>_ _. PN_absent), ev_sha256 = (\<lambda>_. replicate 32 0), ev_fast_enabled = True, ev_dev = sample_dev,
     ev_sysctl = sample_sysctl \<rparr>"

definition sample_stats :: urp_stats where
  "sample_stats = \<lparr> stat_tx_bytes = 0, stat_rx_bytes = 0, stat_tx_frames = 0, stat_rx_frames = 0,
     stat_connections = 0, stat_credit_stalls = 0, stat_reorder_insertions = 0,
     stat_reorder_drops = 0, stat_buffer_alloc_fails = 0, stat_auth_failures = 0 \<rparr>"

definition sample_hist :: urp_hist15 where
  "sample_hist = \<lparr> hi_bucket = replicate 15 0, hi_sum_ns = 0, hi_count = 0 \<rparr>"

definition sample_addr :: sockaddr_in6 where
  "sample_addr = \<lparr> sin6_inet6 = True, sin6_port = 4791, sin6_addr = replicate 10 0 @ [255, 255, 10, 0, 0, 1] \<rparr>"

definition sample_ep :: urp_endpoint where
  "sample_ep = \<lparr> ep_name = ''ep0'', ep_listen_path = [], ep_connect_path = ''/run/backend'',
     ep_rdma_device = [], ep_peer_addr = sample_addr, ep_bind_addr = sample_addr,
     ep_has_peer_addr = False, ep_has_bind_addr = True, ep_num_qps = 2, ep_buffer_count = 8,
     ep_buffer_size = 128, ep_mode = URP_EP_MODE_MULTISTREAM, ep_kind = URP_EP_KIND_UDS,
     ep_password = [], ep_password_hash = [], ep_has_password = False, ep_auth_priv = [], ep_conn_priv = [], ep_auth_len = 0,
     ep_state = URP_STATE_ACTIVE, ep_refcount = 1, ep_is_initiator = False, ep_listen_sock = None,
     ep_accept_thread = False,
     ep_conn = \<lparr> c_uds_sock = None, c_tx_thread = False, c_seq = 0, c_active = False \<rparr>,
     ep_listen_id = None, ep_ib_dev = False, ep_pd = False, ep_send_cq = False, ep_recv_cq = False,
     ep_page_pool = False, ep_srq = False, ep_srq_pool_target = 0, ep_proc = False,
     ep_qps = None, ep_qps_connected = 0, ep_qps_accepted = 0, ep_rr_counter = 0,
     ep_streams = [], ep_streams_inited = False, ep_next_stream_id = 0, ep_pending_reap = 0,
     ep_bufs = None, ep_num_bufs = 8, ep_buf_size = 128, ep_num_chunks = 1, ep_chunk_size = 4096,
     ep_max_frame = 128, ep_recv_scratch = None, ep_send_free = [], ep_recv_free = [],
     ep_stats = sample_stats,
     ep_interarrival = \<lparr> ia_last_ns = [0, 0, 0], ia_nframes = 0, ia_h = replicate 3 sample_hist \<rparr>,
     ep_owd = \<lparr> owd_h = sample_hist, owd_anomalies = 0 \<rparr>, ep_cm_status = None, ep_connected = False,
     ep_window_negotiated = False, ep_tstamp_negotiated = False, ep_link_mbps = 0,
     ep_connect_started = False, ep_connect_failed = False, ep_probe_active = False,
     ep_trace = [] \<rparr>"

end
