(* ===== verification/Urp_Queues.thy ===== *)
theory Urp_Queues
  imports Urp_Sample
begin

text \<open>
  Buffers and queues: the send and receive pools, the posting of frames, the allocation of the
  pool and of the objects shared by the queue pairs of an endpoint with their unwinding
  (kernel/urp\_rdma.c, kernel/urp\_pump.c), the shared receive queue (kernel/urp\_srq.c) and the
  choice of a queue pair (kernel/urp\_qp.c).
\<close>

section \<open>Pools\<close>

definition urp_buf_alloc_send :: "urp_endpoint \<Rightarrow> nat option \<times> urp_endpoint" where
  "urp_buf_alloc_send ep =
    (case ep_send_free ep of [] \<Rightarrow> (None, ep) | i # is \<Rightarrow> (Some i, ep\<lparr>ep_send_free := is\<rparr>))"

definition urp_buf_free_send :: "urp_endpoint \<Rightarrow> nat \<Rightarrow> urp_endpoint" where
  "urp_buf_free_send ep i = log_ext X_wake_send_wq (ep\<lparr>ep_send_free := ep_send_free ep @ [i]\<rparr>)"

definition urp_buf_alloc_recv :: "urp_endpoint \<Rightarrow> nat option \<times> urp_endpoint" where
  "urp_buf_alloc_recv ep =
    (case ep_recv_free ep of [] \<Rightarrow> (None, ep) | i # is \<Rightarrow> (Some i, ep\<lparr>ep_recv_free := is\<rparr>))"

definition urp_buf_free_recv :: "urp_endpoint \<Rightarrow> nat \<Rightarrow> urp_endpoint" where
  "urp_buf_free_recv ep i = ep\<lparr>ep_recv_free := ep_recv_free ep @ [i]\<rparr>"

definition urp_send_done :: "urp_endpoint \<Rightarrow> nat \<Rightarrow> urp_endpoint" where
  "urp_send_done ep i = urp_buf_free_send ep i"

section \<open>Posting\<close>

definition urp_post_frame_sg ::
    "env \<Rightarrow> urp_endpoint \<Rightarrow> nat \<Rightarrow> nat \<Rightarrow> bytes \<Rightarrow> errno option \<times> urp_endpoint" where
  "urp_post_frame_sg ev ep qp i data =
    (case ev_post_send ev (ep_trace ep) of
       None \<Rightarrow> (None, log_ext (X_post_send qp i data) ep)
     | Some e \<Rightarrow> (Some e, log_ext (X_post_send_fail qp i) ep))"

definition urp_post_frame ::
    "env \<Rightarrow> urp_endpoint \<Rightarrow> nat \<Rightarrow> nat \<Rightarrow> u32 \<Rightarrow> errno option \<times> urp_endpoint" where
  "urp_post_frame ev ep qp i len =
    (let b = bufs ep ! i;
         lens = post_frame_sges (ep_chunk_size ep) (bf_num_chunks b) len;
         ep = upd_buf i (\<lambda>b. b\<lparr>bf_sge_len := lens @ drop (length lens) (bf_sge_len b)\<rparr>) ep;
         (ret, ep) = urp_post_frame_sg ev ep qp i (sge_bytes (bf_pages b) lens)
     in if ret \<noteq> None then (ret, urp_buf_free_send ep i) else (ret, ep))"

fun srq_recv_sges :: "u32 \<Rightarrow> nat \<Rightarrow> u32 \<Rightarrow> u32 list" where
  "srq_recv_sges chunk_size 0 remaining = []"
| "srq_recv_sges chunk_size (Suc n) remaining =
    (let clen = min remaining chunk_size in clen # srq_recv_sges chunk_size n (remaining - clen))"

definition urp_post_srq_recv :: "env \<Rightarrow> urp_endpoint \<Rightarrow> nat \<Rightarrow> errno option \<times> urp_endpoint" where
  "urp_post_srq_recv ev ep i =
    (let lens = srq_recv_sges (ep_chunk_size ep) (bf_num_chunks (bufs ep ! i)) (ep_buf_size ep);
         ep = upd_buf i (\<lambda>b. b\<lparr>bf_sge_len := lens\<rparr>) ep
     in case ev_post_srq_recv ev (ep_trace ep) of
          None \<Rightarrow> (None, log_ext (X_post_srq_recv i lens) ep)
        | Some e \<Rightarrow> (Some e, log_ext (X_post_srq_recv_fail i) ep))"

section \<open>Allocation of the pool\<close>

definition kalloc :: "env \<Rightarrow> kobj \<Rightarrow> urp_endpoint \<Rightarrow> errno option \<times> urp_endpoint" where
  "kalloc ev k ep =
    (case ev_alloc ev (ep_trace ep) k of
       None \<Rightarrow> (None, log_ext (X_alloc k) ep)
     | Some e \<Rightarrow> (Some e, log_ext (X_alloc_fail k) ep))"

text \<open>
  The backing of one buffer: an array of pages and one of scatter-gather entries, and for each chunk
  a page and its mapping.  Freeing undoes page and mapping for every page present, and then both
  arrays; the page content is what the allocator returns, zero here.
\<close>

primrec backing_free_loop :: "nat \<Rightarrow> urp_endpoint \<Rightarrow> urp_endpoint" where
  "backing_free_loop 0 ep = ep"
| "backing_free_loop (Suc n) ep = backing_free_loop n (log_ext (X_free O_page) (log_ext (X_free O_dma) ep))"

definition urp_buf_backing_free :: "urp_endpoint \<Rightarrow> bytes list \<Rightarrow> urp_endpoint" where
  "urp_buf_backing_free ep pages =
    log_ext (X_free O_arrays) (log_ext (X_free O_arrays) (backing_free_loop (length pages) ep))"

primrec backing_alloc_loop ::
    "env \<Rightarrow> nat \<Rightarrow> bytes list \<Rightarrow> urp_endpoint \<Rightarrow> bytes list option \<times> urp_endpoint" where
  "backing_alloc_loop ev 0 pages ep = (Some pages, ep)"
| "backing_alloc_loop ev (Suc n) pages ep =
    (case kalloc ev O_page ep of
       (Some _, ep) \<Rightarrow> (None, urp_buf_backing_free ep pages)
     | (None, ep) \<Rightarrow>
         (case kalloc ev O_dma ep of
            (Some _, ep) \<Rightarrow> (None, urp_buf_backing_free (log_ext (X_free O_page) ep) pages)
          | (None, ep) \<Rightarrow>
              backing_alloc_loop ev n (pages @ [replicate (unat (ep_chunk_size ep)) 0]) ep))"

definition urp_buf_backing_alloc :: "env \<Rightarrow> urp_endpoint \<Rightarrow> urp_buffer option \<times> urp_endpoint" where
  "urp_buf_backing_alloc ev ep =
    (let (r1, ep) = kalloc ev O_arrays ep; (r2, ep) = kalloc ev O_arrays ep
     in if r1 \<noteq> None \<or> r2 \<noteq> None
        then (None, if r1 = None \<or> r2 = None then log_ext (X_free O_arrays) ep else ep)
        else case backing_alloc_loop ev (unat (ep_num_chunks ep)) [] ep of
          (None, ep) \<Rightarrow> (None, ep)
        | (Some pages, ep) \<Rightarrow>
            (Some \<lparr> bf_pages = pages, bf_sge_len = replicate (length pages) (ep_chunk_size ep) \<rparr>, ep))"

definition bufs_free_all :: "urp_buffer list \<Rightarrow> urp_endpoint \<Rightarrow> urp_endpoint" where
  "bufs_free_all bs ep = fold (\<lambda>b ep. urp_buf_backing_free ep (bf_pages b)) bs ep"

primrec bufs_alloc_loop ::
    "env \<Rightarrow> nat \<Rightarrow> urp_buffer list \<Rightarrow> urp_endpoint \<Rightarrow> bool \<times> urp_buffer list \<times> urp_endpoint" where
  "bufs_alloc_loop ev 0 bs ep = (True, bs, ep)"
| "bufs_alloc_loop ev (Suc n) bs ep =
    (case urp_buf_backing_alloc ev ep of
       (None, ep) \<Rightarrow> (False, bs, ep)
     | (Some b, ep) \<Rightarrow>
         let i = length bs;
             ep = (if i < unat (ep_num_bufs ep) div 2
                   then ep\<lparr>ep_send_free := ep_send_free ep @ [i]\<rparr>
                   else ep\<lparr>ep_recv_free := ep_recv_free ep @ [i]\<rparr>)
         in bufs_alloc_loop ev n (bs @ [b]) ep)"

definition bufs_init_err :: "urp_buffer list \<Rightarrow> urp_endpoint \<Rightarrow> errno option \<times> urp_endpoint" where
  "bufs_init_err bs ep =
    (let ep = bufs_free_all (rev bs) ep;
         ep = log_ext (X_free O_page_pool) ep;
         ep = log_ext (X_free O_bufs) (ep\<lparr>ep_page_pool := False\<rparr>)
     in (Some ENOMEM, ep\<lparr>ep_bufs := None\<rparr>))"

definition bufs_init_finish ::
    "env \<Rightarrow> urp_buffer list \<Rightarrow> urp_endpoint \<Rightarrow> errno option \<times> urp_endpoint" where
  "bufs_init_finish ev bs ep =
    (let ep = ep\<lparr>ep_bufs := Some bs\<rparr>
     in if 1 < ep_num_chunks ep then
          (case kalloc ev O_scratch ep of
             (Some _, ep) \<Rightarrow> bufs_init_err bs ep
           | (None, ep) \<Rightarrow>
               (None, ep\<lparr>ep_recv_scratch := Some (replicate (unat (ep_buf_size ep)) 0)\<rparr>))
        else (None, ep))"

definition urp_bufs_init :: "env \<Rightarrow> urp_endpoint \<Rightarrow> errno option \<times> urp_endpoint" where
  "urp_bufs_init ev ep =
    (let d = ev_dev ev;
         dev_max_sge = min (da_max_send_sge d) (min (da_max_recv_sge d) (da_max_srq_sge d));
         (num_chunks, chunk_size) = the (urp_resolve_chunks (da_page_size d) (ep_buf_size ep) dev_max_sge);
         ep = ep\<lparr>ep_num_chunks := num_chunks, ep_chunk_size := chunk_size,
                 ep_max_frame := ep_buf_size ep, ep_send_free := [], ep_recv_free := []\<rparr>
     in case kalloc ev O_bufs ep of
          (Some _, ep) \<Rightarrow> (Some ENOMEM, ep)
        | (None, ep) \<Rightarrow>
            (case kalloc ev O_page_pool ep of
               (Some e, ep) \<Rightarrow>
                 (Some e, log_ext (X_free O_bufs) (ep\<lparr>ep_page_pool := False, ep_bufs := None\<rparr>))
             | (None, ep) \<Rightarrow>
                 (case bufs_alloc_loop ev (unat (ep_num_bufs ep)) [] (ep\<lparr>ep_page_pool := True\<rparr>) of
                    (False, bs, ep) \<Rightarrow> bufs_init_err bs ep
                  | (True, bs, ep) \<Rightarrow> bufs_init_finish ev bs ep)))"

definition urp_bufs_cleanup :: "urp_endpoint \<Rightarrow> urp_endpoint" where
  "urp_bufs_cleanup ep =
    (if \<not> ep_page_pool ep then ep
     else
       let ep = bufs_free_all (bufs ep) ep;
           ep = (if ep_recv_scratch ep \<noteq> None then log_ext (X_free O_scratch) ep else ep);
           ep = ep\<lparr>ep_recv_scratch := None\<rparr>;
           ep = log_ext (X_free O_page_pool) ep;
           ep = log_ext (X_free O_bufs) (ep\<lparr>ep_page_pool := False\<rparr>)
       in ep\<lparr>ep_bufs := None\<rparr>)"

section \<open>Shared receive queue\<close>

text \<open>The posting loop ends at the target or when the pool is empty.\<close>

primrec srq_post_loop ::
    "env \<Rightarrow> nat \<Rightarrow> nat \<Rightarrow> urp_endpoint \<Rightarrow> nat result \<times> urp_endpoint" where
  "srq_post_loop ev 0 posted ep = (Inr posted, ep)"
| "srq_post_loop ev (Suc n) posted ep =
    (case urp_buf_alloc_recv ep of
       (None, ep) \<Rightarrow> (Inr posted, ep)
     | (Some i, ep) \<Rightarrow>
         (case urp_post_srq_recv ev ep i of
            (Some e, ep) \<Rightarrow> (Inl e, urp_buf_free_recv ep i)
          | (None, ep) \<Rightarrow> srq_post_loop ev n (Suc posted) ep))"

definition urp_srq_post_initial :: "env \<Rightarrow> urp_endpoint \<Rightarrow> errno option \<times> urp_endpoint" where
  "urp_srq_post_initial ev ep =
    (case srq_post_loop ev (unat (ep_srq_pool_target ep)) 0 ep of
       (Inl e, ep) \<Rightarrow> (Some e, ep)
     | (Inr posted, ep) \<Rightarrow> (if posted = 0 then Some ENOBUFS else None, ep))"

definition urp_srq_create :: "env \<Rightarrow> urp_endpoint \<Rightarrow> errno option \<times> urp_endpoint" where
  "urp_srq_create ev ep =
    (if ep_srq ep then (None, ep)
     else
       let max_wr = min (ep_num_bufs ep div 2) (da_max_srq_wr (ev_dev ev));
           ep = ep\<lparr>ep_srq_pool_target := max_wr\<rparr>
       in case kalloc ev O_srq ep of
            (Some e, ep) \<Rightarrow> (Some e, ep\<lparr>ep_srq := False\<rparr>)
          | (None, ep) \<Rightarrow>
              (case urp_srq_post_initial ev (ep\<lparr>ep_srq := True\<rparr>) of
                 (Some e, ep) \<Rightarrow> (Some e, (log_ext (X_free O_srq) ep)\<lparr>ep_srq := False\<rparr>)
               | (None, ep) \<Rightarrow> (None, ep)))"

definition urp_srq_destroy :: "urp_endpoint \<Rightarrow> urp_endpoint" where
  "urp_srq_destroy ep =
    (if \<not> ep_srq ep then ep else (log_ext (X_free O_srq) ep)\<lparr>ep_srq := False\<rparr>)"

section \<open>Shared objects of an endpoint\<close>

definition setup_err_pd :: "errno \<Rightarrow> urp_endpoint \<Rightarrow> errno option \<times> urp_endpoint" where
  "setup_err_pd e ep = (Some e, (log_ext (X_free O_pd) ep)\<lparr>ep_pd := False, ep_ib_dev := False\<rparr>)"

definition setup_err_bufs :: "errno \<Rightarrow> urp_endpoint \<Rightarrow> errno option \<times> urp_endpoint" where
  "setup_err_bufs e ep = setup_err_pd e (urp_bufs_cleanup ep)"

definition setup_err_send_cq :: "errno \<Rightarrow> urp_endpoint \<Rightarrow> errno option \<times> urp_endpoint" where
  "setup_err_send_cq e ep = setup_err_bufs e ((log_ext (X_free O_send_cq) ep)\<lparr>ep_send_cq := False\<rparr>)"

definition setup_err_recv_cq :: "errno \<Rightarrow> urp_endpoint \<Rightarrow> errno option \<times> urp_endpoint" where
  "setup_err_recv_cq e ep = setup_err_send_cq e ((log_ext (X_free O_recv_cq) ep)\<lparr>ep_recv_cq := False\<rparr>)"

definition setup_queues :: "env \<Rightarrow> urp_endpoint \<Rightarrow> errno option \<times> urp_endpoint" where
  "setup_queues ev ep =
    (case kalloc ev O_send_cq ep of
       (Some e, ep) \<Rightarrow> setup_err_bufs e (ep\<lparr>ep_send_cq := False\<rparr>)
     | (None, ep) \<Rightarrow>
       (case kalloc ev O_recv_cq (ep\<lparr>ep_send_cq := True\<rparr>) of
          (Some e, ep) \<Rightarrow> setup_err_send_cq e (ep\<lparr>ep_recv_cq := False\<rparr>)
        | (None, ep) \<Rightarrow>
          let ep = ep\<lparr>ep_recv_cq := True\<rparr>
          in if urp_ep_is_fast ep then (None, ep)
             else (case urp_srq_create ev ep of
                     (Some e, ep) \<Rightarrow> setup_err_recv_cq e ep
                   | (None, ep) \<Rightarrow> (None, ep))))"

definition urp_endpoint_setup_shared :: "env \<Rightarrow> urp_endpoint \<Rightarrow> errno option \<times> urp_endpoint" where
  "urp_endpoint_setup_shared ev ep =
    (if ep_pd ep then (None, ep)
     else case kalloc ev O_pd (ep\<lparr>ep_ib_dev := True\<rparr>) of
       (Some e, ep) \<Rightarrow> (Some e, ep\<lparr>ep_pd := False\<rparr>)
     | (None, ep) \<Rightarrow>
       (case urp_bufs_init ev (ep\<lparr>ep_pd := True\<rparr>) of
          (Some e, ep) \<Rightarrow> setup_err_pd e ep
        | (None, ep) \<Rightarrow> setup_queues ev ep))"

section \<open>Queue pairs\<close>

definition urp_qp_zero :: urp_qp where
  "urp_qp_zero = \<lparr> q_cm_id = None, q_qp = None, q_index = 0, q_established = False,
     q_accept_slot_held = False, q_peer_is_fast = False, q_peer_supports_window = False,
     q_peer_supports_tstamp = False, q_credit = urp_credit_init 0, q_tx_bytes = 0, q_rx_bytes = 0,
     q_tx_frames = 0, q_rx_frames = 0, q_probe_seq = 0, q_consecutive_misses = 0,
     q_consecutive_pongs = 0, q_last_ping_ns = 0, q_rtt_ewma_ns = 0,
     q_health = URP_QP_STATE_QUALIFYING, q_connect_attempts = 0 \<rparr>"

definition urp_qps_init :: "env \<Rightarrow> urp_endpoint \<Rightarrow> errno option \<times> urp_endpoint" where
  "urp_qps_init ev ep =
    (if ep_num_qps ep = 0 then (Some EINVAL, ep)
     else case kalloc ev O_qps ep of
       (Some _, ep) \<Rightarrow> (Some ENOMEM, ep\<lparr>ep_qps := None\<rparr>)
     | (None, ep) \<Rightarrow>
         (None, ep\<lparr>ep_qps := Some (map (\<lambda>i. urp_qp_zero\<lparr>q_index := of_nat i,
                      q_credit := urp_credit_init (ucast (ep_num_bufs ep div 2)),
                      q_health := URP_QP_STATE_QUALIFYING, q_connect_attempts := 0\<rparr>)
                    [0..<unat (ep_num_qps ep)]),
                   ep_qps_connected := 0, ep_rr_counter := 0\<rparr>))"

definition urp_qps_destroy :: "urp_endpoint \<Rightarrow> urp_endpoint" where
  "urp_qps_destroy ep =
    (let ep = (case ep_qps ep of None \<Rightarrow> ep
               | Some qs \<Rightarrow>
                   log_ext (X_free O_qps)
                     (fold (\<lambda>i ep. log_ext (X_cancel (W_connect_retry i 0)) (log_ext (X_cancel (W_connect i)) ep))
                       [0..<unat (ep_num_qps ep)] ep))
     in ep\<lparr>ep_qps := None\<rparr>)"

definition qp_usable :: "urp_qp \<Rightarrow> bool" where
  "qp_usable q \<longleftrightarrow> q_established q \<and> q_qp q \<noteq> None
     \<and> q_health q \<noteq> URP_QP_STATE_DRAINING \<and> q_health q \<noteq> URP_QP_STATE_REMOVED"

primrec select_loop :: "nat \<Rightarrow> urp_endpoint \<Rightarrow> nat option \<times> urp_endpoint" where
  "select_loop 0 ep = (None, ep)"
| "select_loop (Suc n) ep =
    (let ep = ep\<lparr>ep_rr_counter := ep_rr_counter ep + 1\<rparr>;
         idx = unat (ep_rr_counter ep mod ep_num_qps ep)
     in if qp_usable (qps ep ! idx) then (Some idx, ep) else select_loop n ep)"

definition urp_qp_select_round_robin :: "urp_endpoint \<Rightarrow> nat option \<times> urp_endpoint" where
  "urp_qp_select_round_robin ep =
    (if ep_qps ep = None \<or> ep_num_qps ep = 0 then (None, ep)
     else select_loop (unat (ep_num_qps ep)) ep)"

definition urp_qp_index_of :: "urp_endpoint \<Rightarrow> nat \<Rightarrow> nat option" where
  "urp_qp_index_of ep qp =
    (case ep_qps ep of None \<Rightarrow> None
     | Some qs \<Rightarrow> find (\<lambda>i. q_qp (qs ! i) = Some qp) [0..<unat (ep_num_qps ep)])"

section \<open>Accounting of kernel objects\<close>

definition live_delta :: "kobj \<Rightarrow> ext \<Rightarrow> int" where
  "live_delta k x = (if x = X_alloc k then 1 else if x = X_free k then - 1 else 0)"

text \<open>Objects of a kind allocated and not yet freed.\<close>

definition live :: "kobj \<Rightarrow> urp_endpoint \<Rightarrow> int" where
  "live k ep = sum_list (map (live_delta k) (ep_trace ep))"

lemma live_log [simp]: "live k (log_ext x ep) = live k ep + live_delta k x"
  by (simp add: live_def log_ext_def)

lemma live_cong: "ep_trace ep = ep_trace ep' \<Longrightarrow> live k ep = live k ep'"
  by (simp add: live_def)

lemma live_delta_simps [simp]:
  "live_delta k (X_alloc k') = (if k = k' then 1 else 0)"
  "live_delta k (X_free k') = (if k = k' then - 1 else 0)"
  "live_delta k (X_alloc_fail k') = 0"
  "live_delta k (X_post_srq_recv i ls) = 0"
  "live_delta k (X_post_srq_recv_fail i) = 0"
  by (auto simp: live_delta_def)

text \<open>Two endpoints that differ only in the trace.\<close>

definition same_state :: "urp_endpoint \<Rightarrow> urp_endpoint \<Rightarrow> bool" where
  "same_state ep ep' \<longleftrightarrow> ep'\<lparr>ep_trace := []\<rparr> = ep\<lparr>ep_trace := []\<rparr>"

lemma same_state_iff: "same_state ep ep' \<longleftrightarrow> (\<exists>tr. ep' = ep\<lparr>ep_trace := tr\<rparr>)"
proof
  assume "same_state ep ep'"
  then have "(ep'\<lparr>ep_trace := []\<rparr>)\<lparr>ep_trace := ep_trace ep'\<rparr> = (ep\<lparr>ep_trace := []\<rparr>)\<lparr>ep_trace := ep_trace ep'\<rparr>"
    by (simp add: same_state_def)
  then show "\<exists>tr. ep' = ep\<lparr>ep_trace := tr\<rparr>" by auto
qed (auto simp: same_state_def)

lemma same_state_refl [simp, intro]: "same_state ep ep"
  by (simp add: same_state_def)

lemma same_state_trans [trans]: "same_state a b \<Longrightarrow> same_state b c \<Longrightarrow> same_state a c"
  by (simp add: same_state_def)

lemma same_state_log [simp, intro]: "same_state ep (log_ext x ep)"
  by (simp add: same_state_def log_ext_def)

lemma kalloc_effect:
  assumes "kalloc ev k ep = (r, ep')"
  shows "same_state ep ep'" "live k' ep' = live k' ep + (if r = None \<and> k' = k then 1 else 0)"
  using assms by (auto simp: kalloc_def split: option.splits)

abbreviation page_kinds :: "kobj set" where "page_kinds \<equiv> {O_page, O_dma}"

text \<open>What the backing of a buffer of n pages, and of a list of buffers, counts for.\<close>

definition backing_gain :: "nat \<Rightarrow> kobj \<Rightarrow> int" where
  "backing_gain n k = (if k \<in> page_kinds then int n else if k = O_arrays then 2 else 0)"

definition bufs_gain :: "urp_buffer list \<Rightarrow> kobj \<Rightarrow> int" where
  "bufs_gain bs k = sum_list (map (\<lambda>b. backing_gain (bf_num_chunks b) k) bs)"

lemma bufs_gain_simps [simp]:
  "bufs_gain [] k = 0" "bufs_gain (b # bs) k = backing_gain (bf_num_chunks b) k + bufs_gain bs k"
  "bufs_gain (bs @ cs) k = bufs_gain bs k + bufs_gain cs k" "bufs_gain (rev bs) k = bufs_gain bs k"
  by (simp_all add: bufs_gain_def rev_map[symmetric])

lemma bufs_gain_other: "k \<notin> {O_page, O_dma, O_arrays} \<Longrightarrow> bufs_gain bs k = 0"
  by (induction bs) (auto simp: backing_gain_def)

lemma backing_free_effect:
  "same_state ep (urp_buf_backing_free ep pages)"
  "live k (urp_buf_backing_free ep pages) = live k ep - backing_gain (length pages) k"
proof -
  have l: "same_state ep (backing_free_loop n ep) \<and>
    live k (backing_free_loop n ep) = live k ep - (if k \<in> page_kinds then int n else 0)" for n
  proof (induction n arbitrary: ep)
    case (Suc n)
    have "same_state ep (log_ext (X_free O_page) (log_ext (X_free O_dma) ep))"
      by (rule same_state_trans[OF same_state_log same_state_log])
    then show ?case using Suc[of "log_ext (X_free O_page) (log_ext (X_free O_dma) ep)"] same_state_trans
      by auto
  qed simp
  show "same_state ep (urp_buf_backing_free ep pages)" unfolding urp_buf_backing_free_def
    by (rule same_state_trans[OF _ same_state_trans[OF same_state_log same_state_log]]) (use l in simp)
  show "live k (urp_buf_backing_free ep pages) = live k ep - backing_gain (length pages) k"
    using l by (auto simp: urp_buf_backing_free_def backing_gain_def)
qed

lemma backing_alloc_loop_effect:
  assumes "backing_alloc_loop ev n pages ep = (r, ep')"
  shows "same_state ep ep'"
    "live k ep' = live k ep + (if r = None then - backing_gain (length pages) k
       else backing_gain n k - backing_gain 0 k)"
    "r = Some ps \<Longrightarrow> length ps = length pages + n"
proof -
  have "same_state ep ep' \<and>
    live k ep' = live k ep + (if r = None then - backing_gain (length pages) k
       else backing_gain n k - backing_gain 0 k) \<and>
    (\<forall>ps. r = Some ps \<longrightarrow> length ps = length pages + n)"
    using assms
  proof (induction n arbitrary: pages ep)
    case (Suc n)
    obtain r1 ep1 where a1: "kalloc ev O_page ep = (r1, ep1)" by force
    obtain r2 ep2 where a2: "kalloc ev O_dma ep1 = (r2, ep2)" by force
    note e1 = kalloc_effect[OF a1] and e2 = kalloc_effect[OF a2]
    have ss: "same_state ep ep2" by (rule same_state_trans[OF e1(1) e2(1)])
    consider "r1 \<noteq> None" | "r1 = None" "r2 \<noteq> None" | "r1 = None" "r2 = None" by blast
    then show ?case
    proof cases
      case 1
      then have "r = None" "ep' = urp_buf_backing_free ep1 pages" using Suc.prems a1 by auto
      then show ?thesis
        using e1 1 backing_free_effect(1)[of ep1 pages] backing_free_effect(2)[of k ep1 pages]
          same_state_trans[OF e1(1)] by auto
    next
      case 2
      then have "r = None" "ep' = urp_buf_backing_free (log_ext (X_free O_page) ep2) pages"
        using Suc.prems a1 a2 by auto
      moreover have "same_state ep (urp_buf_backing_free (log_ext (X_free O_page) ep2) pages)"
        by (rule same_state_trans[OF ss same_state_trans[OF same_state_log backing_free_effect(1)]])
      ultimately show ?thesis
        using e1 e2 2 backing_free_effect(2)[of k "log_ext (X_free O_page) ep2" pages] by auto
    next
      case 3
      then have "backing_alloc_loop ev n (pages @ [replicate (unat (ep_chunk_size ep2)) 0]) ep2 = (r, ep')"
        using Suc.prems a1 a2 by simp
      note IH = Suc.IH[OF this]
      have "same_state ep ep'" using IH same_state_trans[OF ss] by blast
      moreover have "live k ep' = live k ep + (if r = None then - backing_gain (length pages) k
         else backing_gain (Suc n) k - backing_gain 0 k)"
        using IH e1(2)[of k] e2(2)[of k] 3 by (cases "r = None") (auto simp: backing_gain_def split: if_splits)
      moreover have "\<forall>ps. r = Some ps \<longrightarrow> length ps = length pages + Suc n" using IH by auto
      ultimately show ?thesis by blast
    qed
  qed (auto simp: backing_gain_def)
  then show "same_state ep ep'"
    "live k ep' = live k ep + (if r = None then - backing_gain (length pages) k
       else backing_gain n k - backing_gain 0 k)"
    "r = Some ps \<Longrightarrow> length ps = length pages + n" by auto
qed

lemma bufs_free_all_effect:
  "same_state ep (bufs_free_all bs ep)"
  "live k (bufs_free_all bs ep) = live k ep - bufs_gain bs k"
proof -
  have "same_state ep (bufs_free_all bs ep) \<and> live k (bufs_free_all bs ep) = live k ep - bufs_gain bs k"
  proof (induction bs arbitrary: ep)
    case (Cons b bs)
    then show ?case
      using same_state_trans[OF backing_free_effect(1)[of ep "bf_pages b"]]
      by (simp add: bufs_free_all_def backing_free_effect(2))
  qed (simp add: bufs_free_all_def)
  then show "same_state ep (bufs_free_all bs ep)"
    "live k (bufs_free_all bs ep) = live k ep - bufs_gain bs k" by auto
qed

lemma backing_alloc_effect:
  assumes "urp_buf_backing_alloc ev ep = (r, ep')"
  shows "same_state ep ep'"
    "live k ep' = live k ep + (if r = None then 0 else backing_gain (unat (ep_num_chunks ep)) k)"
    "r = Some b \<Longrightarrow> bf_num_chunks b = unat (ep_num_chunks ep)"
proof -
  obtain r1 ep1 where a1: "kalloc ev O_arrays ep = (r1, ep1)" by force
  obtain r2 ep2 where a2: "kalloc ev O_arrays ep1 = (r2, ep2)" by force
  note e1 = kalloc_effect[OF a1] and e2 = kalloc_effect[OF a2]
  have ss: "same_state ep ep2" by (rule same_state_trans[OF e1(1) e2(1)])
  have "same_state ep ep'
    \<and> live k ep' = live k ep + (if r = None then 0 else backing_gain (unat (ep_num_chunks ep)) k)
    \<and> (r = Some b \<longrightarrow> bf_num_chunks b = unat (ep_num_chunks ep))"
  proof (cases "r1 = None \<and> r2 = None")
    case False
    then have r: "r = None" "ep' = (if r1 = None \<or> r2 = None then log_ext (X_free O_arrays) ep2 else ep2)"
      using assms a1 a2 by (auto simp: urp_buf_backing_alloc_def Let_def)
    then have "same_state ep ep'" using ss same_state_trans[OF ss same_state_log] by simp
    then show ?thesis using r e1(2) e2(2) False by auto
  next
    case True
    have nc: "ep_num_chunks ep2 = ep_num_chunks ep" using ss by (auto simp: same_state_iff)
    obtain r3 where l: "backing_alloc_loop ev (unat (ep_num_chunks ep)) [] ep2 = (r3, ep')"
      and r: "r = map_option (\<lambda>pages. \<lparr> bf_pages = pages,
          bf_sge_len = replicate (length pages) (ep_chunk_size ep') \<rparr>) r3"
      using assms True a1 a2 nc
      by (auto simp: urp_buf_backing_alloc_def Let_def split: prod.splits option.splits)
    note le = backing_alloc_loop_effect[OF l]
    have "same_state ep ep'" by (rule same_state_trans[OF ss le(1)])
    moreover have "live k ep' = live k ep + (if r = None then 0 else backing_gain (unat (ep_num_chunks ep)) k)"
      using le(2)[of k] e1(2) e2(2) True r by (cases r3) (auto simp: backing_gain_def)
    moreover have "r = Some b \<longrightarrow> bf_num_chunks b = unat (ep_num_chunks ep)" using le(3) r by auto
    ultimately show ?thesis by blast
  qed
  then show "same_state ep ep'"
    "live k ep' = live k ep + (if r = None then 0 else backing_gain (unat (ep_num_chunks ep)) k)"
    "r = Some b \<Longrightarrow> bf_num_chunks b = unat (ep_num_chunks ep)" by auto
qed

definition send_ids :: "urp_endpoint \<Rightarrow> nat set" where
  "send_ids ep = {0..<unat (ep_num_bufs ep) div 2}"

definition recv_ids :: "urp_endpoint \<Rightarrow> nat set" where
  "recv_ids ep = {unat (ep_num_bufs ep) div 2..<unat (ep_num_bufs ep)}"

lemma bufs_alloc_loop_effect:
  assumes "bufs_alloc_loop ev n bs ep = (ok, bs', ep')"
  shows "\<exists>tr sf rf. ep' = ep\<lparr>ep_send_free := sf, ep_recv_free := rf, ep_trace := tr\<rparr>
      \<and> (ok \<longrightarrow> length bs' = length bs + n
         \<and> sf = ep_send_free ep @ filter (\<lambda>i. i < unat (ep_num_bufs ep) div 2) [length bs..<length bs + n]
         \<and> rf = ep_recv_free ep @ filter (\<lambda>i. \<not> i < unat (ep_num_bufs ep) div 2) [length bs..<length bs + n])"
    "live k ep' = live k ep + (bufs_gain bs' k - bufs_gain bs k)"
proof -
  have "(\<exists>tr sf rf. ep' = ep\<lparr>ep_send_free := sf, ep_recv_free := rf, ep_trace := tr\<rparr>
      \<and> (ok \<longrightarrow> length bs' = length bs + n
         \<and> sf = ep_send_free ep @ filter (\<lambda>i. i < unat (ep_num_bufs ep) div 2) [length bs..<length bs + n]
         \<and> rf = ep_recv_free ep @ filter (\<lambda>i. \<not> i < unat (ep_num_bufs ep) div 2) [length bs..<length bs + n]))
    \<and> live k ep' = live k ep + (bufs_gain bs' k - bufs_gain bs k)"
    using assms
  proof (induction n arbitrary: bs ep)
    case 0
    then show ?case
      by (intro conjI exI[of _ "ep_trace ep"] exI[of _ "ep_send_free ep"] exI[of _ "ep_recv_free ep"]) auto
  next
    case (Suc n)
    obtain r ep1 where a: "urp_buf_backing_alloc ev ep = (r, ep1)" by force
    note e = backing_alloc_effect[OF a]
    obtain tr1 where ep1: "ep1 = ep\<lparr>ep_trace := tr1\<rparr>" using e(1) by (auto simp: same_state_iff)
    show ?case
    proof (cases r)
      case None
      then have "ok = False" "bs' = bs" "ep' = ep1" using Suc.prems a by auto
      then show ?thesis using e(2) None ep1
        by (intro conjI exI[of _ tr1] exI[of _ "ep_send_free ep"] exI[of _ "ep_recv_free ep"]) auto
    next
      case (Some b)
      define ep2 where "ep2 = (if length bs < unat (ep_num_bufs ep1) div 2
         then ep1\<lparr>ep_send_free := ep_send_free ep1 @ [length bs]\<rparr>
         else ep1\<lparr>ep_recv_free := ep_recv_free ep1 @ [length bs]\<rparr>)"
      have l: "bufs_alloc_loop ev n (bs @ [b]) ep2 = (ok, bs', ep')"
        using Suc.prems a Some by (simp add: ep2_def Let_def)
      have lv: "live k ep2 = live k ep1" by (rule live_cong) (simp add: ep2_def)
      have up: "[length bs..<length bs + Suc n] = length bs # [Suc (length bs)..<Suc (length bs) + n]"
        by (simp add: upt_conv_Cons del: upt_Suc)
      from Suc.IH[OF l] obtain tr sf rf where
        ep': "ep' = ep2\<lparr>ep_send_free := sf, ep_recv_free := rf, ep_trace := tr\<rparr>" and
        lists: "ok \<longrightarrow> length bs' = Suc (length bs) + n
         \<and> sf = ep_send_free ep2 @ filter (\<lambda>i. i < unat (ep_num_bufs ep2) div 2) [Suc (length bs)..<Suc (length bs) + n]
         \<and> rf = ep_recv_free ep2 @ filter (\<lambda>i. \<not> i < unat (ep_num_bufs ep2) div 2) [Suc (length bs)..<Suc (length bs) + n]" and
        lk: "live k ep' = live k ep2 + (bufs_gain bs' k - bufs_gain (bs @ [b]) k)"
        by auto
      have 1: "ep' = ep\<lparr>ep_send_free := sf, ep_recv_free := rf, ep_trace := tr\<rparr>"
        unfolding ep' ep2_def ep1 by simp
      have 2: "ok \<longrightarrow> length bs' = length bs + Suc n
         \<and> sf = ep_send_free ep @ filter (\<lambda>i. i < unat (ep_num_bufs ep) div 2) [length bs..<length bs + Suc n]
         \<and> rf = ep_recv_free ep @ filter (\<lambda>i. \<not> i < unat (ep_num_bufs ep) div 2) [length bs..<length bs + Suc n]"
        using lists unfolding up by (simp add: ep2_def ep1 split: if_splits)
      have 3: "live k ep' = live k ep + (bufs_gain bs' k - bufs_gain bs k)"
        using lk lv e(2,3) Some by simp
      from 1 2 3 show ?thesis by blast
    qed
  qed
  then show "\<exists>tr sf rf. ep' = ep\<lparr>ep_send_free := sf, ep_recv_free := rf, ep_trace := tr\<rparr>
      \<and> (ok \<longrightarrow> length bs' = length bs + n
         \<and> sf = ep_send_free ep @ filter (\<lambda>i. i < unat (ep_num_bufs ep) div 2) [length bs..<length bs + n]
         \<and> rf = ep_recv_free ep @ filter (\<lambda>i. \<not> i < unat (ep_num_bufs ep) div 2) [length bs..<length bs + n])"
    "live k ep' = live k ep + (bufs_gain bs' k - bufs_gain bs k)" by auto
qed

text \<open>What an initialised pool holds, by kind of object.\<close>

definition pool_gain :: "urp_endpoint \<Rightarrow> kobj \<Rightarrow> int" where
  "pool_gain ep k =
    bufs_gain (bufs ep) k + (if k \<in> {O_bufs, O_page_pool} then 1
     else if k = O_scratch \<and> ep_recv_scratch ep \<noteq> None then 1 else 0)"

definition ep_objs :: "urp_endpoint \<Rightarrow> bool \<times> bool \<times> bool \<times> bool \<times> urp_ep_kind \<times> u32" where
  "ep_objs ep = (ep_pd ep, ep_send_cq ep, ep_recv_cq ep, ep_srq ep, ep_kind ep, ep_num_bufs ep)"

definition no_pool :: "urp_endpoint \<Rightarrow> bool" where
  "no_pool ep \<longleftrightarrow> \<not> ep_page_pool ep \<and> ep_bufs ep = None \<and> ep_recv_scratch ep = None"

definition pool_ready :: "urp_endpoint \<Rightarrow> bool" where
  "pool_ready ep \<longleftrightarrow> ep_page_pool ep \<and> ep_bufs ep \<noteq> None
     \<and> length (bufs ep) = unat (ep_num_bufs ep)
     \<and> ep_send_free ep = [0..<unat (ep_num_bufs ep) div 2]
     \<and> ep_recv_free ep = [unat (ep_num_bufs ep) div 2..<unat (ep_num_bufs ep)]"

lemma same_stateE:
  assumes "same_state ep ep'"
  obtains tr where "ep' = ep\<lparr>ep_trace := tr\<rparr>"
  using assms by (auto simp: same_state_iff)

lemma bufs_init_err_effect:
  assumes "bufs_init_err bs ep = (r, ep')" "ep_recv_scratch ep = None"
  shows "r = Some ENOMEM" "no_pool ep'" "ep_objs ep' = ep_objs ep"
    "live k ep' = live k ep - (bufs_gain bs k + (if k \<in> {O_bufs, O_page_pool} then 1 else 0))"
proof -
  obtain tr where f: "bufs_free_all (rev bs) ep = ep\<lparr>ep_trace := tr\<rparr>"
    using bufs_free_all_effect(1) by (rule same_stateE)
  define ep1 where "ep1 = bufs_free_all (rev bs) ep"
  have ep': "ep' = (log_ext (X_free O_bufs) ((log_ext (X_free O_page_pool) ep1)\<lparr>ep_page_pool := False\<rparr>))\<lparr>ep_bufs := None\<rparr>"
    and "r = Some ENOMEM"
    using assms(1) by (simp_all add: bufs_init_err_def Let_def ep1_def)
  then show "r = Some ENOMEM" by simp
  have ep1: "ep1 = ep\<lparr>ep_trace := tr\<rparr>" by (simp add: ep1_def f)
  show "no_pool ep'" "ep_objs ep' = ep_objs ep"
    using assms(2) by (simp_all add: ep' ep1 no_pool_def ep_objs_def log_ext_def)
  have "live k ep' = live k (log_ext (X_free O_bufs) (log_ext (X_free O_page_pool) ep1))"
    by (rule live_cong) (simp add: ep' log_ext_def)
  then show "live k ep' = live k ep - (bufs_gain bs k + (if k \<in> {O_bufs, O_page_pool} then 1 else 0))"
    using bufs_free_all_effect(2)[of k "rev bs" ep] by (auto simp: ep1_def)
qed

lemma filter_upt_halves:
  "filter (\<lambda>i. i < n div 2) [0..<n] = [0..<n div 2]"
  "filter (\<lambda>i. \<not> i < n div 2) [0..<n] = [n div 2..<n]"
proof -
  have "[0..<n] = [0..<n div 2] @ [n div 2..<n]"
    using upt_add_eq_append[of 0 "n div 2" "n - n div 2"] by simp
  then show "filter (\<lambda>i. i < n div 2) [0..<n] = [0..<n div 2]"
    "filter (\<lambda>i. \<not> i < n div 2) [0..<n] = [n div 2..<n]"
    by (auto simp: filter_empty_conv filter_id_conv)
qed

definition init_outcome :: "urp_endpoint \<Rightarrow> errno option \<Rightarrow> urp_endpoint \<Rightarrow> bool" where
  "init_outcome ep r ep' \<longleftrightarrow> ep_objs ep' = ep_objs ep
    \<and> (if r = None then pool_ready ep' \<and> (\<forall>k. live k ep' = live k ep + pool_gain ep' k)
       else no_pool ep' \<and> (\<forall>k. live k ep' = live k ep))"

lemma bufs_init_finish_effect:
  assumes fin: "bufs_init_finish ev bs ep1 = (r, ep')"
    and pool: "ep_page_pool ep1" "ep_recv_scratch ep1 = None" "length bs = unat (ep_num_bufs ep1)"
      "ep_send_free ep1 = [0..<unat (ep_num_bufs ep1) div 2]"
      "ep_recv_free ep1 = [unat (ep_num_bufs ep1) div 2..<unat (ep_num_bufs ep1)]"
    and objs: "ep_objs ep1 = ep_objs ep"
    and live: "\<And>k. live k ep1 = live k ep + (bufs_gain bs k + (if k \<in> {O_bufs, O_page_pool} then 1 else 0))"
  shows "init_outcome ep r ep'"
proof -
  define ep2 where "ep2 = ep1\<lparr>ep_bufs := Some bs\<rparr>"
  have l2: "live k ep2 = live k ep1" for k by (rule live_cong) (simp add: ep2_def)
  have r2: "pool_ready ep2" "ep_objs ep2 = ep_objs ep" "bufs ep2 = bs" "ep_recv_scratch ep2 = None"
    using pool objs by (simp_all add: ep2_def pool_ready_def ep_objs_def)
  show ?thesis
  proof (cases "1 < ep_num_chunks ep2")
    case False
    then have "r = None" "ep' = ep2" using fin by (simp_all add: bufs_init_finish_def Let_def ep2_def)
    then show ?thesis using r2 l2 live by (simp add: init_outcome_def pool_gain_def)
  next
    case True
    obtain r3 ep3 where a: "kalloc ev O_scratch ep2 = (r3, ep3)" by force
    obtain tr where ep3: "ep3 = ep2\<lparr>ep_trace := tr\<rparr>" using kalloc_effect(1)[OF a] by (rule same_stateE)
    note l3 = kalloc_effect(2)[OF a]
    show ?thesis
    proof (cases r3)
      case None
      then have r: "r = None" and ep': "ep' = ep3\<lparr>ep_recv_scratch := Some (replicate (unat (ep_buf_size ep3)) 0)\<rparr>"
        using fin True a by (simp_all add: bufs_init_finish_def Let_def ep2_def)
      have "live k ep' = live k ep3" for k by (rule live_cong) (simp add: ep')
      then have "live k ep' = live k ep + pool_gain ep' k" for k
        using l3[of k] None l2 live r2(3) by (auto simp: pool_gain_def ep' ep3)
      then show ?thesis using r r2 by (simp add: init_outcome_def ep' ep3 pool_ready_def ep_objs_def)
    next
      case (Some e)
      then have err: "bufs_init_err bs ep3 = (r, ep')"
        using fin True a by (simp add: bufs_init_finish_def Let_def ep2_def)
      have "ep_recv_scratch ep3 = None" using r2(4) by (simp add: ep3)
      note ee = bufs_init_err_effect[OF err this]
      then show ?thesis using l3 l2 live Some r2(2) by (simp add: init_outcome_def) (simp add: ep3 ep_objs_def)
    qed
  qed
qed

lemma bufs_init_effect:
  assumes "urp_bufs_init ev ep = (r, ep')" "no_pool ep"
  shows "init_outcome ep r ep'"
proof -
  obtain nc cs where nc: "the (urp_resolve_chunks (da_page_size (ev_dev ev)) (ep_buf_size ep)
      (min (da_max_send_sge (ev_dev ev)) (min (da_max_recv_sge (ev_dev ev)) (da_max_srq_sge (ev_dev ev))))) = (nc, cs)"
    by force
  define ep0 where "ep0 = ep\<lparr>ep_num_chunks := nc, ep_chunk_size := cs,
                 ep_max_frame := ep_buf_size ep, ep_send_free := [], ep_recv_free := []\<rparr>"
  obtain r1 ep1 where a1: "kalloc ev O_bufs ep0 = (r1, ep1)" by force
  note e1 = kalloc_effect[OF a1]
  obtain tr1 where ep1: "ep1 = ep0\<lparr>ep_trace := tr1\<rparr>" using e1(1) by (rule same_stateE)
  obtain r2 ep2 where a2: "kalloc ev O_page_pool ep1 = (r2, ep2)" by force
  note e2 = kalloc_effect[OF a2]
  obtain tr2 where ep2: "ep2 = ep1\<lparr>ep_trace := tr2\<rparr>" using e2(1) by (rule same_stateE)
  obtain ok bs ep3 where a3: "bufs_alloc_loop ev (unat (ep_num_bufs ep2)) [] (ep2\<lparr>ep_page_pool := True\<rparr>) = (ok, bs, ep3)"
    using prod_cases3 by blast
  obtain tr3 sf rf where ep3: "ep3 = (ep2\<lparr>ep_page_pool := True\<rparr>)\<lparr>ep_send_free := sf, ep_recv_free := rf, ep_trace := tr3\<rparr>"
    and ok: "ok \<longrightarrow> length bs = unat (ep_num_bufs ep2)
         \<and> sf = filter (\<lambda>i. i < unat (ep_num_bufs ep2) div 2) [0..<unat (ep_num_bufs ep2)]
         \<and> rf = filter (\<lambda>i. \<not> i < unat (ep_num_bufs ep2) div 2) [0..<unat (ep_num_bufs ep2)]"
    using bufs_alloc_loop_effect(1)[OF a3] by (auto simp: ep2 ep1 ep0_def)
  have l0: "live k ep0 = live k ep" for k by (rule live_cong) (simp add: ep0_def)
  have l3: "live k ep3 = live k ep2 + bufs_gain bs k" for k
    using bufs_alloc_loop_effect(2)[OF a3, of k] live_cong[of "ep2\<lparr>ep_page_pool := True\<rparr>" ep2 k] by simp
  note np = assms(2)[unfolded no_pool_def]
  have init: "urp_bufs_init ev ep =
    (if r1 \<noteq> None then (Some ENOMEM, ep1)
     else if r2 \<noteq> None then (r2, log_ext (X_free O_bufs) (ep2\<lparr>ep_page_pool := False, ep_bufs := None\<rparr>))
     else if \<not> ok then bufs_init_err bs ep3 else bufs_init_finish ev bs ep3)"
    unfolding urp_bufs_init_def Let_def nc
    using a1 a2 a3 by (auto simp: ep0_def[symmetric] split: option.splits)
  have objs: "ep_objs ep1 = ep_objs ep" "ep_objs ep2 = ep_objs ep" "ep_objs ep3 = ep_objs ep"
    "no_pool ep1" "no_pool ep2" "ep_page_pool ep3" "ep_recv_scratch ep3 = None"
    using np by (simp_all add: ep3 ep2 ep1 ep0_def ep_objs_def no_pool_def)
  consider "r1 \<noteq> None" | "r1 = None" "r2 \<noteq> None" | "r1 = None" "r2 = None" "\<not> ok" | "r1 = None" "r2 = None" ok
    by blast
  then show ?thesis
  proof cases
    case 1
    then show ?thesis using assms(1) init e1(2) l0 objs by (auto simp: init_outcome_def)
  next
    case 2
    then have ep': "ep' = log_ext (X_free O_bufs) (ep2\<lparr>ep_page_pool := False, ep_bufs := None\<rparr>)" "r = r2"
      using assms(1) init by auto
    have "live k ep' = live k ep2 + live_delta k (X_free O_bufs)" for k
      using live_cong[of "ep2\<lparr>ep_page_pool := False, ep_bufs := None\<rparr>" ep2 k] by (simp add: ep')
    then have "live k ep' = live k ep" for k using 2 e1(2) e2(2) l0 by simp
    moreover have "no_pool ep'" "ep_objs ep' = ep_objs ep"
      using objs by (simp_all add: ep' no_pool_def ep_objs_def log_ext_def)
    ultimately show ?thesis using 2 ep'(2) by (auto simp: init_outcome_def)
  next
    case 3
    then have "bufs_init_err bs ep3 = (r, ep')" using assms(1) init by simp
    from bufs_init_err_effect[OF this objs(7)] show ?thesis
      using 3 objs l0 l3 e1(2) e2(2) by (simp add: init_outcome_def)
  next
    case 4
    then have fin: "bufs_init_finish ev bs ep3 = (r, ep')" using assms(1) init by simp
    have num: "ep_num_bufs ep3 = ep_num_bufs ep2" by (simp add: ep3)
    show ?thesis
      by (rule bufs_init_finish_effect[OF fin])
        (use 4 ok objs l0 l3 e1(2) e2(2) in \<open>simp_all add: num filter_upt_halves\<close>, simp_all add: ep3 filter_upt_halves)
  qed
qed

lemma bufs_cleanup_effect:
  assumes "ep_page_pool ep"
  shows "no_pool (urp_bufs_cleanup ep)" "ep_objs (urp_bufs_cleanup ep) = ep_objs ep"
    "live k (urp_bufs_cleanup ep) = live k ep - pool_gain ep k"
proof -
  define ep1 where "ep1 = bufs_free_all (bufs ep) ep"
  define ep2 where "ep2 = (if ep_recv_scratch ep1 \<noteq> None then log_ext (X_free O_scratch) ep1 else ep1)"
  obtain tr where ep1: "ep1 = ep\<lparr>ep_trace := tr\<rparr>"
    unfolding ep1_def using bufs_free_all_effect(1) by (rule same_stateE)
  have c: "urp_bufs_cleanup ep = (log_ext (X_free O_bufs) ((log_ext (X_free O_page_pool)
      (ep2\<lparr>ep_recv_scratch := None\<rparr>))\<lparr>ep_page_pool := False\<rparr>))\<lparr>ep_bufs := None\<rparr>"
    using assms by (simp add: urp_bufs_cleanup_def Let_def ep2_def ep1_def)
  show "no_pool (urp_bufs_cleanup ep)" "ep_objs (urp_bufs_cleanup ep) = ep_objs ep"
    unfolding c by (simp_all add: ep2_def ep1 no_pool_def ep_objs_def log_ext_def)
  have "live k (urp_bufs_cleanup ep) = live k (log_ext (X_free O_bufs) (log_ext (X_free O_page_pool) ep2))"
    unfolding c by (rule live_cong) (simp add: log_ext_def)
  moreover have "ep_recv_scratch ep1 = ep_recv_scratch ep" by (simp add: ep1)
  ultimately show "live k (urp_bufs_cleanup ep) = live k ep - pool_gain ep k"
    using bufs_free_all_effect(2)[of k "bufs ep" ep, folded ep1_def]
    by (auto simp: ep2_def pool_gain_def)
qed

text \<open>What the shared receive queue leaves alone: the pages, the send pool and the other objects.\<close>

definition pool_shape :: "urp_endpoint \<Rightarrow> _" where
  "pool_shape ep = (ep_page_pool ep, map_option (map bf_pages) (ep_bufs ep), ep_recv_scratch ep,
     ep_send_free ep, ep_pd ep, ep_send_cq ep, ep_recv_cq ep, ep_kind ep, ep_num_bufs ep)"

lemma pool_shape_gain: "pool_shape ep' = pool_shape ep \<Longrightarrow> ep_bufs ep \<noteq> None \<Longrightarrow> pool_gain ep' k = pool_gain ep k"
proof -
  assume s: "pool_shape ep' = pool_shape ep" and b: "ep_bufs ep \<noteq> None"
  then obtain bs bs' where bs: "ep_bufs ep = Some bs" "ep_bufs ep' = Some bs'" "map bf_pages bs' = map bf_pages bs"
    by (cases "ep_bufs ep'") (auto simp: pool_shape_def)
  have "bufs_gain bs k = sum_list (map (\<lambda>p. backing_gain (length p) k) (map bf_pages bs))" for bs
    by (simp add: bufs_gain_def comp_def)
  then have "bufs_gain bs' k = bufs_gain bs k" using bs(3) by metis
  then show ?thesis using s bs by (simp add: pool_gain_def pool_shape_def)
qed

lemma pool_shape_len:
  assumes "pool_shape ep' = pool_shape ep" "ep_bufs ep \<noteq> None"
  shows "ep_bufs ep' \<noteq> None" "length (bufs ep') = length (bufs ep)"
proof -
  obtain bs bs' where bs: "ep_bufs ep = Some bs" "ep_bufs ep' = Some bs'" "map bf_pages bs' = map bf_pages bs"
    using assms by (cases "ep_bufs ep'") (auto simp: pool_shape_def)
  show "ep_bufs ep' \<noteq> None" "length (bufs ep') = length (bufs ep)"
    using bs map_eq_imp_length_eq[OF bs(3)] by simp_all
qed

lemma post_srq_recv_effect:
  assumes "urp_post_srq_recv ev ep i = (r, ep')"
  shows "pool_shape ep' = pool_shape ep" "live k ep' = live k ep" "ep_srq ep' = ep_srq ep"
    "ep_recv_free ep' = ep_recv_free ep"
proof -
  define ls where "ls = srq_recv_sges (ep_chunk_size ep) (bf_num_chunks (bufs ep ! i)) (ep_buf_size ep)"
  define ep1 where "ep1 = upd_buf i (\<lambda>b. b\<lparr>bf_sge_len := ls\<rparr>) ep"
  have ep': "ep' = log_ext (if r = None then X_post_srq_recv i ls else X_post_srq_recv_fail i) ep1"
    using assms by (auto simp: urp_post_srq_recv_def Let_def ls_def ep1_def split: option.splits)
  have "map bf_pages (b[i := (b ! i)\<lparr>bf_sge_len := ls\<rparr>]) = map bf_pages b" for b :: "urp_buffer list"
    by (cases "i < length b") (auto simp: map_update list_update_same_conv list_update_beyond)
  then show "pool_shape ep' = pool_shape ep" "ep_srq ep' = ep_srq ep" "ep_recv_free ep' = ep_recv_free ep"
    by (simp_all add: ep' ep1_def pool_shape_def log_ext_def upd_buf_def option.map_comp comp_def)
  have "live k ep1 = live k ep" by (rule live_cong) (simp add: ep1_def upd_buf_def)
  then show "live k ep' = live k ep" by (simp add: ep')
qed

lemma srq_post_loop_effect:
  assumes "srq_post_loop ev n p ep = (r, ep')"
  shows "pool_shape ep' = pool_shape ep" "\<And>k. live k ep' = live k ep" "ep_srq ep' = ep_srq ep"
    "r = Inr q \<Longrightarrow> q = p + min n (length (ep_recv_free ep))
       \<and> ep_recv_free ep' = drop (min n (length (ep_recv_free ep))) (ep_recv_free ep)"
proof -
  have "pool_shape ep' = pool_shape ep \<and> (\<forall>k. live k ep' = live k ep) \<and> ep_srq ep' = ep_srq ep
    \<and> (\<forall>q. r = Inr q \<longrightarrow> q = p + min n (length (ep_recv_free ep))
       \<and> ep_recv_free ep' = drop (min n (length (ep_recv_free ep))) (ep_recv_free ep))"
    using assms
  proof (induction n arbitrary: p ep)
    case (Suc n)
    show ?case
    proof (cases "ep_recv_free ep")
      case Nil
      then show ?thesis using Suc.prems by (auto simp: urp_buf_alloc_recv_def)
    next
      case (Cons i rest)
      define ep1 where "ep1 = ep\<lparr>ep_recv_free := rest\<rparr>"
      obtain e ep2 where po: "urp_post_srq_recv ev ep1 i = (e, ep2)" by force
      note pe = post_srq_recv_effect[OF po]
      have b: "pool_shape ep2 = pool_shape ep" "\<And>k. live k ep2 = live k ep" "ep_srq ep2 = ep_srq ep"
        "ep_recv_free ep2 = rest"
        using pe live_cong[of ep1 ep] by (auto simp: ep1_def pool_shape_def)
      show ?thesis
      proof (cases e)
        case None
        then have "srq_post_loop ev n (Suc p) ep2 = (r, ep')"
          using Suc.prems Cons po by (simp add: urp_buf_alloc_recv_def ep1_def)
        from Suc.IH[OF this] show ?thesis using b Cons by simp
      next
        case (Some err)
        then have "r = Inl err" "ep' = urp_buf_free_recv ep2 i"
          using Suc.prems Cons po by (auto simp: urp_buf_alloc_recv_def ep1_def)
        moreover have "live k (urp_buf_free_recv ep2 i) = live k ep2" for k
          by (rule live_cong) (simp add: urp_buf_free_recv_def)
        ultimately show ?thesis using b by (simp add: urp_buf_free_recv_def pool_shape_def)
      qed
    qed
  qed auto
  then show "pool_shape ep' = pool_shape ep" "\<And>k. live k ep' = live k ep" "ep_srq ep' = ep_srq ep"
    "r = Inr q \<Longrightarrow> q = p + min n (length (ep_recv_free ep))
       \<and> ep_recv_free ep' = drop (min n (length (ep_recv_free ep))) (ep_recv_free ep)" by auto
qed

lemma srq_create_effect:
  assumes "urp_srq_create ev ep = (r, ep')" "\<not> ep_srq ep"
  defines "posted \<equiv> min (unat (min (ep_num_bufs ep div 2) (da_max_srq_wr (ev_dev ev)))) (length (ep_recv_free ep))"
  shows "pool_shape ep' = pool_shape ep" "live k ep' = live k ep + (if r = None \<and> k = O_srq then 1 else 0)"
    "ep_srq ep' \<longleftrightarrow> r = None"
    "r = None \<Longrightarrow> 0 < posted \<and> ep_recv_free ep' = drop posted (ep_recv_free ep)"
proof -
  define ep0 where "ep0 = ep\<lparr>ep_srq_pool_target := min (ep_num_bufs ep div 2) (da_max_srq_wr (ev_dev ev))\<rparr>"
  obtain r1 ep1 where a: "kalloc ev O_srq ep0 = (r1, ep1)" by force
  obtain tr where ep1: "ep1 = ep0\<lparr>ep_trace := tr\<rparr>" using kalloc_effect(1)[OF a] by (rule same_stateE)
  have l0: "live k ep0 = live k ep" for k by (rule live_cong) (simp add: ep0_def)
  note l1 = kalloc_effect(2)[OF a]
  have "pool_shape ep' = pool_shape ep \<and> live k ep' = live k ep + (if r = None \<and> k = O_srq then 1 else 0)
    \<and> (ep_srq ep' \<longleftrightarrow> r = None)
    \<and> (r = None \<longrightarrow> 0 < posted \<and> ep_recv_free ep' = drop posted (ep_recv_free ep))"
  proof (cases r1)
    case (Some e)
    then have "r = Some e" "ep' = ep1\<lparr>ep_srq := False\<rparr>"
      using assms(1,2) a by (auto simp: urp_srq_create_def Let_def ep0_def)
    moreover have "live k (ep1\<lparr>ep_srq := False\<rparr>) = live k ep1" by (rule live_cong) simp
    ultimately show ?thesis using l1 Some l0 by (simp add: ep1 ep0_def pool_shape_def)
  next
    case None
    define ep2 where "ep2 = ep1\<lparr>ep_srq := True\<rparr>"
    obtain q ep3 where lp: "srq_post_loop ev (unat (ep_srq_pool_target ep2)) 0 ep2 = (q, ep3)" by force
    note pe = srq_post_loop_effect[OF lp]
    have l2: "live k ep2 = live k ep1" for k by (rule live_cong) (simp add: ep2_def)
    have f2: "pool_shape ep2 = pool_shape ep" "ep_srq ep2" "ep_recv_free ep2 = ep_recv_free ep"
      "min (unat (ep_srq_pool_target ep2)) (length (ep_recv_free ep2)) = posted"
      by (simp_all add: ep2_def ep1 ep0_def pool_shape_def posted_def)
    have pi: "urp_srq_post_initial ev ep2 =
      (case q of Inl e \<Rightarrow> (Some e, ep3) | Inr p \<Rightarrow> (if p = 0 then Some ENOBUFS else None, ep3))"
      using lp by (simp add: urp_srq_post_initial_def split: sum.splits)
    have c: "urp_srq_create ev ep =
      (case q of Inl e \<Rightarrow> (Some e, (log_ext (X_free O_srq) ep3)\<lparr>ep_srq := False\<rparr>)
       | Inr p \<Rightarrow> if p = 0 then (Some ENOBUFS, (log_ext (X_free O_srq) ep3)\<lparr>ep_srq := False\<rparr>) else (None, ep3))"
      using assms(2) a None pi
      by (simp add: urp_srq_create_def Let_def ep0_def[symmetric] ep2_def[symmetric] split: sum.splits)
    have fail: "live k ((log_ext (X_free O_srq) ep3)\<lparr>ep_srq := False\<rparr>) = live k ep3 - (if k = O_srq then 1 else 0)"
      using live_cong[of "(log_ext (X_free O_srq) ep3)\<lparr>ep_srq := False\<rparr>" "log_ext (X_free O_srq) ep3" k] by simp
    have fs: "pool_shape ((log_ext (X_free O_srq) ep3)\<lparr>ep_srq := False\<rparr>) = pool_shape ep3"
      by (simp add: pool_shape_def log_ext_def)
    show ?thesis
      using assms(1) c fail fs pe(1-3) pe(4)[of "projr q"] f2 l0 l1 l2 None
      by (auto split: sum.splits if_splits)
  qed
  then show "pool_shape ep' = pool_shape ep" "live k ep' = live k ep + (if r = None \<and> k = O_srq then 1 else 0)"
    "ep_srq ep' \<longleftrightarrow> r = None"
    "r = None \<Longrightarrow> 0 < posted \<and> ep_recv_free ep' = drop posted (ep_recv_free ep)" by auto
qed

definition idle :: "urp_endpoint \<Rightarrow> bool" where
  "idle ep \<longleftrightarrow> no_pool ep \<and> \<not> ep_pd ep \<and> \<not> ep_send_cq ep \<and> \<not> ep_recv_cq ep \<and> \<not> ep_srq ep"

definition set_up :: "urp_endpoint \<Rightarrow> bool" where
  "set_up ep \<longleftrightarrow> ep_pd ep \<and> ep_send_cq ep \<and> ep_recv_cq ep \<and> ep_page_pool ep \<and> ep_bufs ep \<noteq> None
     \<and> length (bufs ep) = unat (ep_num_bufs ep)
     \<and> ep_send_free ep = [0..<unat (ep_num_bufs ep) div 2]
     \<and> (if urp_ep_is_fast ep then \<not> ep_srq ep
        else ep_srq ep \<and> (\<exists>j>0. ep_recv_free ep =
            drop j [unat (ep_num_bufs ep) div 2..<unat (ep_num_bufs ep)]))"

text \<open>
  A failing step below the pool frees the pool and the protection domain; \<open>unwound ep0 r\<close> says the
  result is an error with everything counted in \<^term>\<open>ep0\<close>'s pool and its domain freed.
\<close>

definition unwound :: "urp_endpoint \<Rightarrow> errno option \<times> urp_endpoint \<Rightarrow> bool" where
  "unwound ep0 r \<longleftrightarrow> fst r \<noteq> None \<and> idle (snd r)
     \<and> (\<forall>k. live k (snd r) = live k ep0 - pool_gain ep0 k - (if k = O_pd then 1 else 0))"

lemma setup_err_pd_effect:
  assumes "no_pool ep" "\<not> ep_send_cq ep" "\<not> ep_recv_cq ep" "\<not> ep_srq ep"
  shows "idle (snd (setup_err_pd e ep))" "live k (snd (setup_err_pd e ep)) = live k ep - (if k = O_pd then 1 else 0)"
proof -
  show "idle (snd (setup_err_pd e ep))"
    using assms by (simp add: idle_def setup_err_pd_def no_pool_def log_ext_def)
  have "live k (snd (setup_err_pd e ep)) = live k (log_ext (X_free O_pd) ep)"
    by (rule live_cong) (simp add: setup_err_pd_def)
  then show "live k (snd (setup_err_pd e ep)) = live k ep - (if k = O_pd then 1 else 0)" by simp
qed

lemma setup_err_bufs_unwound:
  assumes "ep_page_pool ep" "\<not> ep_send_cq ep" "\<not> ep_recv_cq ep" "\<not> ep_srq ep"
    and gain: "\<And>k. live k ep - pool_gain ep k = live k ep0 - pool_gain ep0 k"
  shows "unwound ep0 (setup_err_bufs e ep)"
proof -
  note c = bufs_cleanup_effect[OF assms(1)]
  have "\<not> ep_send_cq (urp_bufs_cleanup ep)" "\<not> ep_recv_cq (urp_bufs_cleanup ep)" "\<not> ep_srq (urp_bufs_cleanup ep)"
    using c(2) assms(2-4) by (simp_all add: ep_objs_def)
  note p = setup_err_pd_effect[OF c(1) this]
  show ?thesis using p c(3) gain by (simp add: unwound_def setup_err_bufs_def, simp add: setup_err_pd_def)
qed

lemma setup_err_send_cq_unwound:
  assumes "ep_page_pool ep" "\<not> ep_recv_cq ep" "\<not> ep_srq ep"
    and gain: "\<And>k. live k ep - pool_gain ep k = live k ep0 - pool_gain ep0 k + (if k = O_send_cq then 1 else 0)"
  shows "unwound ep0 (setup_err_send_cq e ep)"
proof -
  define ep' where "ep' = (log_ext (X_free O_send_cq) ep)\<lparr>ep_send_cq := False\<rparr>"
  have "live k ep' = live k (log_ext (X_free O_send_cq) ep)" for k by (rule live_cong) (simp add: ep'_def)
  moreover have "pool_gain ep' k = pool_gain ep k" for k by (simp add: pool_gain_def ep'_def log_ext_def)
  ultimately have "live k ep' - pool_gain ep' k = live k ep0 - pool_gain ep0 k" for k
    using gain[of k] by auto
  moreover have "ep_page_pool ep'" "\<not> ep_send_cq ep'" "\<not> ep_recv_cq ep'" "\<not> ep_srq ep'"
    using assms(1-3) by (simp_all add: ep'_def log_ext_def)
  ultimately show ?thesis unfolding setup_err_send_cq_def ep'_def[symmetric]
    by (intro setup_err_bufs_unwound)
qed

lemma setup_err_recv_cq_unwound:
  assumes "ep_page_pool ep" "\<not> ep_srq ep"
    and gain: "\<And>k. live k ep - pool_gain ep k = live k ep0 - pool_gain ep0 k + (if k \<in> {O_send_cq, O_recv_cq} then 1 else 0)"
  shows "unwound ep0 (setup_err_recv_cq e ep)"
proof -
  define ep' where "ep' = (log_ext (X_free O_recv_cq) ep)\<lparr>ep_recv_cq := False\<rparr>"
  have "live k ep' = live k (log_ext (X_free O_recv_cq) ep)" for k by (rule live_cong) (simp add: ep'_def)
  moreover have "pool_gain ep' k = pool_gain ep k" for k by (simp add: pool_gain_def ep'_def log_ext_def)
  ultimately have "live k ep' - pool_gain ep' k = live k ep0 - pool_gain ep0 k + (if k = O_send_cq then 1 else 0)" for k
    using gain[of k] by auto
  moreover have "ep_page_pool ep'" "\<not> ep_recv_cq ep'" "\<not> ep_srq ep'"
    using assms(1-2) by (simp_all add: ep'_def log_ext_def)
  ultimately show ?thesis unfolding setup_err_recv_cq_def ep'_def[symmetric]
    by (intro setup_err_send_cq_unwound)
qed

lemma setup_queues_effect:
  assumes "pool_ready ep" "ep_pd ep" "\<not> ep_send_cq ep" "\<not> ep_recv_cq ep" "\<not> ep_srq ep"
    and r: "setup_queues ev ep = (r, ep')"
  shows "if r = None then set_up ep' else unwound ep (r, ep')"
proof -
  obtain r3 ep3 where a3: "kalloc ev O_send_cq ep = (r3, ep3)" by force
  note l3 = kalloc_effect(2)[OF a3]
  obtain tr3 where ep3: "ep3 = ep\<lparr>ep_trace := tr3\<rparr>" using kalloc_effect(1)[OF a3] by (rule same_stateE)
  obtain r4 ep4 where a4: "kalloc ev O_recv_cq (ep3\<lparr>ep_send_cq := True\<rparr>) = (r4, ep4)" by force
  have l3': "live k (ep3\<lparr>ep_send_cq := b\<rparr>) = live k ep3" for k b by (rule live_cong) simp
  note l4 = kalloc_effect(2)[OF a4, unfolded l3']
  obtain tr4 where ep4: "ep4 = (ep3\<lparr>ep_send_cq := True\<rparr>)\<lparr>ep_trace := tr4\<rparr>"
    using kalloc_effect(1)[OF a4] by (rule same_stateE)
  have l5: "live k (ep4\<lparr>ep_recv_cq := b\<rparr>) = live k ep4" for k b by (rule live_cong) simp
  obtain r6 ep6 where a6: "urp_srq_create ev (ep4\<lparr>ep_recv_cq := True\<rparr>) = (r6, ep6)" by force
  have ns: "\<not> ep_srq (ep4\<lparr>ep_recv_cq := True\<rparr>)" using assms(5) by (simp add: ep4 ep3)
  note sc = srq_create_effect[OF a6 ns]
  have g: "pool_gain (ep3\<lparr>ep_send_cq := b\<rparr>) k = pool_gain ep k" "pool_gain (ep4\<lparr>ep_recv_cq := b\<rparr>) k = pool_gain ep k" for k b
    by (simp_all add: pool_gain_def ep4 ep3)
  have "ep_bufs (ep4\<lparr>ep_recv_cq := True\<rparr>) \<noteq> None" using assms(1) by (simp add: ep4 ep3 pool_ready_def)
  note g6 = pool_shape_gain[OF sc(1) this, unfolded g]
  have shape: "pool_shape ep6 = pool_shape (ep\<lparr>ep_send_cq := True, ep_recv_cq := True\<rparr>)"
    using sc(1) by (simp add: pool_shape_def ep4 ep3)
  have len: "length (bufs ep6) = length (bufs ep)" "ep_bufs ep6 \<noteq> None"
    using pool_shape_len[OF shape] assms(1) by (simp_all add: pool_ready_def)
  have pp: "ep_page_pool ep" using assms(1) by (simp add: pool_ready_def)
  consider (f3) e where "r3 = Some e" | (f4) e where "r3 = None" "r4 = Some e"
    | (fast) "r3 = None" "r4 = None" "urp_ep_is_fast ep"
    | (f6) e where "r3 = None" "r4 = None" "\<not> urp_ep_is_fast ep" "r6 = Some e"
    | (ok) "r3 = None" "r4 = None" "\<not> urp_ep_is_fast ep" "r6 = None" by (metis not_None_eq)
  then show ?thesis
  proof cases
    case f3
    then have "unwound ep (setup_err_bufs e (ep3\<lparr>ep_send_cq := False\<rparr>))"
      using assms pp by (intro setup_err_bufs_unwound) (simp_all add: l3' l3 g, simp_all add: ep3)
    then show ?thesis using r f3 a3 by (auto simp: setup_queues_def unwound_def)
  next
    case f4
    then have "unwound ep (setup_err_send_cq e (ep4\<lparr>ep_recv_cq := False\<rparr>))"
      using assms pp by (intro setup_err_send_cq_unwound) (simp_all add: l3' l3 l4 l5 g, simp_all add: ep4 ep3)
    then show ?thesis using r f4 a3 a4 by (auto simp: setup_queues_def unwound_def)
  next
    case fast
    then show ?thesis using r a3 a4 assms by (auto simp: setup_queues_def set_up_def pool_ready_def urp_ep_is_fast_def ep4 ep3)
  next
    case f6
    then have "unwound ep (setup_err_recv_cq e ep6)"
      using sc(3) shape pp
      by (intro setup_err_recv_cq_unwound) (simp_all add: l3' l3 l4 l5 g6 sc(2), simp_all add: pool_shape_def)
    then show ?thesis using r f6 a3 a4 a6
      by (auto simp: setup_queues_def unwound_def urp_ep_is_fast_def ep4 ep3)
  next
    case ok
    have rf: "ep_recv_free (ep4\<lparr>ep_recv_cq := True\<rparr>) = ep_recv_free ep" by (simp add: ep4 ep3)
    obtain j where "0 < j" "ep_recv_free ep6 = drop j (ep_recv_free ep)"
      using that conjunct1[OF sc(4)[OF ok(4)]] conjunct2[OF sc(4)[OF ok(4)]] unfolding rf by blast
    then have "\<exists>j>0. ep_recv_free ep6 = drop j [unat (ep_num_bufs ep) div 2..<unat (ep_num_bufs ep)]"
      using assms(1) by (metis pool_ready_def)
    then have "set_up ep6" using assms ok sc(3) shape len
      by (simp add: set_up_def pool_ready_def urp_ep_is_fast_def pool_shape_def del: drop_upt)
    then show ?thesis using ok r a3 a4 a6 by (auto simp: setup_queues_def urp_ep_is_fast_def ep4 ep3)
  qed
qed

text \<open>
  C24: setting up the shared objects of an endpoint is all or nothing.  Whichever allocation fails,
  down to a single page or mapping or the posting of a receive buffer, the error is returned with
  every object allocated on the way freed again, once; on success the protection domain, both
  completion queues and the buffer pool exist, the first half of the buffers is free for sending,
  and unless the endpoint is a fast one the shared receive queue exists with at least one buffer of
  the second half posted and the rest free for receiving.
\<close>

theorem setup_shared_all_or_nothing:
  assumes "idle ep"
  shows "case urp_endpoint_setup_shared ev ep of
      (Some e, ep') \<Rightarrow> idle ep' \<and> (\<forall>k. live k ep' = live k ep)
    | (None, ep') \<Rightarrow> set_up ep'"
proof -
  define ep0 where "ep0 = ep\<lparr>ep_ib_dev := True\<rparr>"
  obtain r1 ep1 where a1: "kalloc ev O_pd ep0 = (r1, ep1)" by force
  have "live k ep0 = live k ep" for k by (rule live_cong) (simp add: ep0_def)
  note l1 = kalloc_effect(2)[OF a1, unfolded this]
  obtain tr1 where ep1: "ep1 = ep\<lparr>ep_ib_dev := True, ep_trace := tr1\<rparr>"
    using kalloc_effect(1)[OF a1] unfolding ep0_def by (rule same_stateE)
  note a1 = a1[unfolded ep0_def]
  have l1': "live k (ep1\<lparr>ep_pd := b\<rparr>) = live k ep1" for k b by (rule live_cong) simp
  obtain r2 ep2 where a2: "urp_bufs_init ev (ep1\<lparr>ep_pd := True\<rparr>) = (r2, ep2)" by force
  have np1: "no_pool (ep1\<lparr>ep_pd := True\<rparr>)" using assms by (simp add: ep1 idle_def no_pool_def)
  note b = bufs_init_effect[OF a2 np1]
  have fl: "ep_pd ep2" "\<not> ep_send_cq ep2" "\<not> ep_recv_cq ep2" "\<not> ep_srq ep2"
    using b assms by (simp_all add: init_outcome_def ep_objs_def ep1 idle_def)
  obtain r3 ep3 where a3: "setup_queues ev ep2 = (r3, ep3)" by force
  have npd: "\<not> ep_pd ep" using assms by (simp add: idle_def)
  consider (f1) e where "r1 = Some e" | (f2) e where "r1 = None" "r2 = Some e" | (q) "r1 = None" "r2 = None"
    by (metis not_None_eq)
  then show ?thesis
  proof cases
    case f1
    then show ?thesis using l1 l1' assms npd a1 by (simp add: urp_endpoint_setup_shared_def idle_def no_pool_def, simp add: ep1)
  next
    case f2
    then have "no_pool ep2" using b by (simp add: init_outcome_def)
    note p = setup_err_pd_effect[OF this fl(2-4)]
    have "live k (snd (setup_err_pd e ep2)) = live k ep" for k
      using p(2)[of k e] b f2 l1 l1' by (simp add: init_outcome_def)
    then show ?thesis using p(1)[of e] f2 npd a1 a2
      by (simp add: urp_endpoint_setup_shared_def setup_err_pd_def)
  next
    case q
    then have pr: "pool_ready ep2" and lk: "live k ep2 = live k ep + (if k = O_pd then 1 else 0) + pool_gain ep2 k" for k
      using b l1 l1' by (simp_all add: init_outcome_def)
    show ?thesis using setup_queues_effect[OF pr fl a3] q npd a1 a2 a3 lk
      by (auto simp: urp_endpoint_setup_shared_def unwound_def split: option.splits if_splits)
  qed
qed

theorem setup_shared_all_or_nothing_witness:
  "idle sample_ep \<and> (case urp_endpoint_setup_shared sample_env sample_ep of
      (Some e, ep') \<Rightarrow> idle ep' \<and> (\<forall>k. live k ep' = live k sample_ep)
    | (None, ep') \<Rightarrow> set_up ep')"
proof -
  have "idle sample_ep" by (simp add: idle_def no_pool_def sample_ep_def)
  then show ?thesis using setup_shared_all_or_nothing[of sample_ep sample_env] by simp
qed

section \<open>The pools are index pools\<close>

definition send_inv :: "urp_endpoint \<Rightarrow> bool" where
  "send_inv ep \<longleftrightarrow> distinct (ep_send_free ep) \<and> set (ep_send_free ep) \<subseteq> send_ids ep"

definition recv_inv :: "urp_endpoint \<Rightarrow> bool" where
  "recv_inv ep \<longleftrightarrow> distinct (ep_recv_free ep) \<and> set (ep_recv_free ep) \<subseteq> recv_ids ep"

interpretation send_pool: index_pool send_inv send_ids "\<lambda>ep. set (ep_send_free ep)"
    urp_buf_alloc_send urp_buf_free_send
  by unfold_locales
    (auto simp: send_inv_def send_ids_def urp_buf_alloc_send_def urp_buf_free_send_def log_ext_def
      split: list.splits)

interpretation recv_pool: index_pool recv_inv recv_ids "\<lambda>ep. set (ep_recv_free ep)"
    urp_buf_alloc_recv urp_buf_free_recv
  by unfold_locales
    (auto simp: recv_inv_def recv_ids_def urp_buf_alloc_recv_def urp_buf_free_recv_def
      split: list.splits)

section \<open>Round robin\<close>

definition rr_at :: "urp_endpoint \<Rightarrow> nat \<Rightarrow> nat" where
  "rr_at ep k = unat ((ep_rr_counter ep + of_nat k) mod ep_num_qps ep)"

lemma find_map: "find P (map f xs) = map_option f (find (\<lambda>x. P (f x)) xs)"
  by (induction xs) auto

lemma select_loop_find:
  "select_loop m ep =
    (case find (\<lambda>k. qp_usable (qps ep ! rr_at ep k)) [1..<Suc m] of
       None \<Rightarrow> (None, ep\<lparr>ep_rr_counter := ep_rr_counter ep + of_nat m\<rparr>)
     | Some k \<Rightarrow> (Some (rr_at ep k), ep\<lparr>ep_rr_counter := ep_rr_counter ep + of_nat k\<rparr>))"
proof (induction m arbitrary: ep)
  case (Suc m)
  define ep1 where "ep1 = ep\<lparr>ep_rr_counter := ep_rr_counter ep + 1\<rparr>"
  have at: "rr_at ep (Suc k) = rr_at ep1 k" for k by (simp add: rr_at_def ep1_def add.assoc)
  have upt: "[1..<Suc (Suc m)] = 1 # map Suc [1..<Suc m]" by (simp add: upt_conv_Cons map_Suc_upt del: upt_Suc)
  have q: "qps ep1 = qps ep" by (simp add: ep1_def)
  have 1: "rr_at ep 1 = unat (ep_rr_counter ep1 mod ep_num_qps ep1)" by (simp add: rr_at_def ep1_def)
  have step: "select_loop (Suc m) ep = (if qp_usable (qps ep ! rr_at ep 1) then (Some (rr_at ep 1), ep1) else select_loop m ep1)"
    unfolding 1 by (simp add: Let_def ep1_def)
  have e: "ep1\<lparr>ep_rr_counter := ep_rr_counter ep1 + w\<rparr> = ep\<lparr>ep_rr_counter := ep_rr_counter ep + (1 + w)\<rparr>" for w
    by (simp add: ep1_def add.assoc)
  have e1: "ep1 = ep\<lparr>ep_rr_counter := ep_rr_counter ep + of_nat 1\<rparr>" by (simp add: ep1_def)
  show ?case
  proof (cases "qp_usable (qps ep ! rr_at ep 1)")
    case True
    then show ?thesis unfolding step upt by (simp only: find.simps if_True option.case) (simp add: ep1_def)
  next
    case False
    have "find (\<lambda>k. qp_usable (qps ep ! rr_at ep k)) [1..<Suc (Suc m)]
        = map_option Suc (find (\<lambda>k. qp_usable (qps ep1 ! rr_at ep1 k)) [1..<Suc m])"
      unfolding upt using False by (simp only: find.simps if_False find_map at q)
    then show ?thesis using False unfolding step Suc.IH
      by (simp add: e at del: upt_Suc split: option.splits)
  qed
qed simp

lemma rr_at_cyclic:
  assumes "0 < unat (ep_num_qps ep)" "k \<le> unat (ep_num_qps ep)"
    and "unat (ep_num_qps ep) dvd 2 ^ 32 \<or> unat (ep_rr_counter ep) + unat (ep_num_qps ep) < 2 ^ 32"
  shows "rr_at ep k = (unat (ep_rr_counter ep) + k) mod unat (ep_num_qps ep)"
proof -
  have "unat (ep_rr_counter ep + of_nat k) mod unat (ep_num_qps ep) = (unat (ep_rr_counter ep) + k) mod unat (ep_num_qps ep)"
  proof (cases "unat (ep_num_qps ep) dvd 2 ^ 32")
    case True
    have "unat (ep_rr_counter ep + of_nat k) = (unat (ep_rr_counter ep) + k) mod 2 ^ 32"
      by (simp add: unat_word_ariths unat_of_nat mod_simps)
    then show ?thesis using True by (simp add: mod_mod_cancel)
  next
    case False
    then have "unat (ep_rr_counter ep + of_nat k) = unat (ep_rr_counter ep) + k"
      using assms by (simp add: unat_word_ariths unat_of_nat)
    then show ?thesis by simp
  qed
  then show ?thesis by (simp add: rr_at_def unat_mod)
qed

lemma cyclic_cover:
  assumes "i < n"
  shows "\<exists>k\<in>{1..n}. (c + k) mod n = (i :: nat)"
proof -
  define k where "k = (i + (n - c mod n)) mod n"
  have "c + (i + (n - c mod n)) = i + n + (c - c mod n)"
    using assms mod_less_divisor[of n c] mod_less_eq_dividend[of c n] by linarith
  moreover have "n dvd c - c mod n" by (simp add: minus_mod_eq_mult_div)
  ultimately have "(c + (i + (n - c mod n))) mod n = i"
    using assms by (metis add.commute add.left_commute dvd_eq_mod_eq_0 mod_add_self2 mod_less mod_add_right_eq add.right_neutral)
  then have k: "(c + k) mod n = i" unfolding k_def by (simp add: mod_add_right_eq)
  show ?thesis
  proof (cases "k = 0")
    case True
    then show ?thesis using k assms by (intro bexI[of _ n]) auto
  next
    case False
    moreover have "k < n" using assms by (simp add: k_def)
    ultimately show ?thesis using k by (intro bexI[of _ k]) auto
  qed
qed

text \<open>
  C25: Round robin picks the first usable queue pair after the last one picked, going round.  While
  the counter does not wrap, and at any time when the number of queue pairs divides \<open>2 ^ 32\<close>, the
  choice fails only when no queue pair is usable, changes nothing but the counter, and skips exactly
  the unusable ones in between, so that with all of them usable consecutive choices take turns.
\<close>

theorem round_robin_first_usable:
  assumes "ep_qps ep = Some qs" "length qs = unat (ep_num_qps ep)" "0 < unat (ep_num_qps ep)"
    and "unat (ep_num_qps ep) dvd 2 ^ 32 \<or> unat (ep_rr_counter ep) + unat (ep_num_qps ep) < 2 ^ 32"
  defines "slot k \<equiv> (unat (ep_rr_counter ep) + k) mod unat (ep_num_qps ep)"
  shows "case urp_qp_select_round_robin ep of
      (None, _) \<Rightarrow> \<forall>q\<in>set qs. \<not> qp_usable q
    | (Some i, ep') \<Rightarrow> \<exists>k\<in>{1..unat (ep_num_qps ep)}. i = slot k \<and> i < length qs \<and> qp_usable (qs ! i)
        \<and> (\<forall>j\<in>{1..<k}. \<not> qp_usable (qs ! slot j))
        \<and> ep' = ep\<lparr>ep_rr_counter := ep_rr_counter ep + of_nat k\<rparr>"
proof -
  let ?n = "unat (ep_num_qps ep)"
  have at: "rr_at ep k = slot k" if "k \<le> ?n" for k using rr_at_cyclic[OF assms(3) that assms(4)] by (simp add: slot_def)
  have sel: "urp_qp_select_round_robin ep = select_loop ?n ep"
    using assms(1,3) by (auto simp: urp_qp_select_round_robin_def)
  show ?thesis
  proof (cases "find (\<lambda>k. qp_usable (qps ep ! rr_at ep k)) [1..<Suc ?n]")
    case None
    then have un: "\<not> qp_usable (qs ! slot k)" if "k \<in> {1..?n}" for k
      using that at assms(1) by (auto simp: find_None_iff simp del: upt_Suc)
    have "\<not> qp_usable (qs ! i)" if "i < length qs" for i
      using cyclic_cover[of i ?n "unat (ep_rr_counter ep)"] that assms(2) un by (auto simp: slot_def)
    then show ?thesis using None unfolding sel select_loop_find by (auto simp: in_set_conv_nth simp del: upt_Suc)
  next
    case (Some k)
    obtain j where j: "j < length [1..<Suc ?n]" "qp_usable (qps ep ! rr_at ep k)" "k = [1..<Suc ?n] ! j"
        "\<forall>l<j. \<not> qp_usable (qps ep ! rr_at ep ([1..<Suc ?n] ! l))"
      using Some unfolding find_Some_iff by blast
    have kj: "k = Suc j" "j < ?n" using j(1,3) by (simp_all del: upt_Suc)
    have "\<not> qp_usable (qs ! slot l)" if "l \<in> {1..<k}" for l
    proof -
      have "[1..<Suc ?n] ! (l - 1) = l" "l - 1 < j" "l \<le> ?n" using that kj by (auto simp del: upt_Suc)
      then show ?thesis using j(4) at[of l] assms(1) by (metis option.sel)
    qed
    moreover have "slot k < length qs" using assms(2,3) by (simp add: slot_def)
    moreover have "rr_at ep k = slot k" "k \<in> {1..?n}" using at[of k] kj by simp_all
    moreover from this have "urp_qp_select_round_robin ep =
        (Some (slot k), ep\<lparr>ep_rr_counter := ep_rr_counter ep + of_nat k\<rparr>)"
      unfolding sel select_loop_find Some by simp
    ultimately show ?thesis using j(2) assms(1) by auto
  qed
qed

definition sample_qp :: "nat \<Rightarrow> bool \<Rightarrow> urp_qp" where
  "sample_qp i up = urp_qp_zero\<lparr>q_index := of_nat i, q_qp := Some (100 + i), q_established := up,
     q_health := URP_QP_STATE_ACTIVE, q_credit := urp_credit_init 4\<rparr>"

definition sample_rr :: urp_endpoint where
  "sample_rr = sample_ep\<lparr>ep_qps := Some [sample_qp 0 True, sample_qp 1 False]\<rparr>"

theorem round_robin_first_usable_witness:
  "\<exists>k\<in>{1..2}. urp_qp_select_round_robin sample_rr =
      (Some (k mod 2), sample_rr\<lparr>ep_rr_counter := of_nat k\<rparr>) \<and> qp_usable (qps sample_rr ! (k mod 2))"
proof -
  have [simp]: "ep_num_qps sample_rr = 2" "ep_rr_counter sample_rr = 0"
    "ep_qps sample_rr = Some [sample_qp 0 True, sample_qp 1 False]"
    by (simp_all add: sample_rr_def sample_ep_def)
  have u: "qp_usable (sample_qp 0 True)" by (simp add: qp_usable_def sample_qp_def)
  note t = round_robin_first_usable[of sample_rr "[sample_qp 0 True, sample_qp 1 False]"]
  obtain r ep' where sel: "urp_qp_select_round_robin sample_rr = (r, ep')" by force
  have "r \<noteq> None" using t u by (cases r) (auto simp: sel)
  then obtain i where r: "r = Some i" by blast
  then obtain k where k: "k \<in> {1..2}" "i = k mod 2" "qp_usable ([sample_qp 0 True, sample_qp 1 False] ! i)"
      "ep' = sample_rr\<lparr>ep_rr_counter := of_nat k\<rparr>"
    using t by (auto simp: sel)
  have "qp_usable (qps sample_rr ! (k mod 2))" using k(2,3) by simp
  then show ?thesis unfolding sel r k(4) k(2) using k(1) by (intro bexI[of _ k] conjI refl)
qed

text \<open>The indices a scan looks at, in its order.\<close>

lemma round_robin_find:
  assumes "ep_qps ep = Some qs" "0 < unat (ep_num_qps ep)"
  shows "fst (urp_qp_select_round_robin ep) =
    find (\<lambda>i. qp_usable (qs ! i)) (map (rr_at ep) [1..<Suc (unat (ep_num_qps ep))])"
proof -
  have "urp_qp_select_round_robin ep = select_loop (unat (ep_num_qps ep)) ep"
    using assms by (auto simp: urp_qp_select_round_robin_def)
  then show ?thesis using assms(1) by (simp add: select_loop_find find_map del: upt_Suc split: option.split)
qed

text \<open>
  C26: Round robin can miss the only usable queue pair.  Whenever the number of queue pairs does not
  divide \<open>2 ^ 32\<close> (three, say), a scan that starts with the counter two below its wrap looks at the
  remainder of \<open>2 ^ 32 - 1\<close> and then at 0, 1, 2 and so on, returns the first usable one of these, and
  never looks at the last queue pair: if that is the only usable one, it reports that there is none.
\<close>

theorem round_robin_wrap_misses:
  assumes "ep_qps ep = Some qs" "ep_num_qps ep = n" "\<not> unat n dvd 2 ^ 32" "n \<noteq> 0" "ep_rr_counter ep = 4294967294"
  shows "fst (urp_qp_select_round_robin ep) =
      find (\<lambda>i. qp_usable (qs ! i)) ((2 ^ 32 - 1) mod unat n # [0..<unat n - 1]) \<and>
    unat n - 1 \<notin> set ((2 ^ 32 - 1) mod unat n # [0..<unat n - 1]) \<and>
    ((\<forall>i<unat n - 1. \<not> qp_usable (qs ! i)) \<longrightarrow> fst (urp_qp_select_round_robin ep) = None)"
proof -
  have n: "0 < unat n" using assms(4) by (simp add: unat_gt_0)
  have first: "rr_at ep 1 = (2 ^ 32 - 1) mod unat n" by (simp add: rr_at_def assms(2,5) unat_mod)
  have later: "rr_at ep (Suc (Suc j)) = j" if "j < unat n - 1" for j
  proof -
    have "j < 2 ^ 32" using that unat_bound[of n] by simp
    moreover have e: "(4294967294 :: u32) + of_nat (Suc (Suc j)) = of_nat j" by simp
    ultimately show ?thesis using that unfolding rr_at_def assms(2,5) e by (simp add: unat_mod unat_of_nat)
  qed
  have "map (rr_at ep) [1..<Suc (unat n)] = (2 ^ 32 - 1) mod unat n # [0..<unat n - 1]"
  proof (rule nth_equalityI)
    fix i assume "i < length (map (rr_at ep) [1..<Suc (unat n)])"
    then show "map (rr_at ep) [1..<Suc (unat n)] ! i = ((2 ^ 32 - 1) mod unat n # [0..<unat n - 1]) ! i"
      using first later by (cases i) (simp_all del: upt_Suc)
  qed (use n in simp)
  then have f: "fst (urp_qp_select_round_robin ep) =
      find (\<lambda>i. qp_usable (qs ! i)) ((2 ^ 32 - 1) mod unat n # [0..<unat n - 1])"
    using round_robin_find[OF assms(1)] n assms(2) by simp
  have miss: "(2 ^ 32 - 1) mod unat n \<noteq> unat n - 1"
  proof
    assume "(2 ^ 32 - 1) mod unat n = unat n - 1"
    then have "Suc ((2 ^ 32 - 1) mod unat n) = unat n" using n by simp
    then have "Suc (2 ^ 32 - 1) mod unat n = 0" by (simp only: mod_Suc) simp
    then show False using assms(3) by (simp add: dvd_eq_mod_eq_0)
  qed
  moreover have "(2 ^ 32 - 1) mod unat n < unat n" using n by simp
  ultimately have "(2 ^ 32 - 1) mod unat n < unat n - 1" by linarith
  then show ?thesis using miss unfolding f by (auto simp: find_None_iff)
qed

theorem round_robin_wrap_misses_witness:
  "qp_usable (sample_qp 2 True) \<and> fst (urp_qp_select_round_robin (sample_ep\<lparr>ep_num_qps := 3,
     ep_qps := Some [sample_qp 0 False, sample_qp 1 False, sample_qp 2 True], ep_rr_counter := 4294967294\<rparr>)) = None"
proof -
  let ?qs = "[sample_qp 0 False, sample_qp 1 False, sample_qp 2 True]"
  let ?ep = "sample_ep\<lparr>ep_num_qps := 3, ep_qps := Some ?qs, ep_rr_counter := 4294967294\<rparr>"
  have u: "\<forall>i<unat (3 :: u32) - 1. \<not> qp_usable (?qs ! i)"
    by (auto simp: qp_usable_def sample_qp_def less_2_cases_iff)
  have d: "\<not> unat (3 :: u32) dvd 2 ^ 32" by (simp add: dvd_eq_mod_eq_0)
  have z: "(3 :: u32) \<noteq> 0" by simp
  have ep: "ep_qps ?ep = Some ?qs" "ep_num_qps ?ep = 3" "ep_rr_counter ?ep = 4294967294" by simp_all
  have "fst (urp_qp_select_round_robin ?ep) = None"
    using round_robin_wrap_misses[OF ep(1,2) d z ep(3)] u by blast
  then show ?thesis by (simp add: qp_usable_def sample_qp_def)
qed

end
