(* ===== verification/Urp_Stream.thy ===== *)
theory Urp_Stream
  imports Urp_Queues
begin

text \<open>
  The stream table of an endpoint (kernel/urp\_stream.c), with the start and stop of a stream's
  transmit thread (kernel/urp\_pump.c) and the connection of its backend socket
  (kernel/urp\_socket.c).  A stream pointer is the key of the stream in the table: a looked-up
  pointer is valid as long as the entry exists.  RCU-deferred freeing is freeing here.
\<close>

section \<open>Table operations\<close>

definition upd_stream :: "u32 \<Rightarrow> (urp_stream \<Rightarrow> urp_stream) \<Rightarrow> urp_endpoint \<Rightarrow> urp_endpoint" where
  "upd_stream sid f ep = ep\<lparr>ep_streams := ht_update (ep_streams ep) sid f\<rparr>"

definition urp_streams_init :: "env \<Rightarrow> urp_endpoint \<Rightarrow> errno option \<times> urp_endpoint" where
  "urp_streams_init ev ep =
    (case kalloc ev O_streams ep of
       (Some e, ep) \<Rightarrow> (Some e, ep)
     | (None, ep) \<Rightarrow>
         (None, ep\<lparr>ep_streams := [], ep_streams_inited := True, ep_pending_reap := 0,
                   ep_next_stream_id := (if ep_is_initiator ep then 1 else 2)\<rparr>))"

definition urp_stream_next_id :: "urp_endpoint \<Rightarrow> u32 \<times> urp_endpoint" where
  "urp_stream_next_id ep = (ep_next_stream_id ep, ep\<lparr>ep_next_stream_id := ep_next_stream_id ep + 2\<rparr>)"

definition urp_stream_rcu_free :: "urp_endpoint \<Rightarrow> urp_endpoint" where
  "urp_stream_rcu_free ep = log_ext (X_free O_stream) (log_ext (X_free O_reorder) ep)"

fun max_rtt :: "u64 \<Rightarrow> urp_qp list \<Rightarrow> u64" where
  "max_rtt rtt [] = rtt"
| "max_rtt rtt (q # qs) = max_rtt (if q_rtt_ewma_ns q > rtt then q_rtt_ewma_ns q else rtt) qs"

definition urp_ep_repr_rtt_ns :: "urp_endpoint \<Rightarrow> u64" where
  "urp_ep_repr_rtt_ns ep =
    (let rtt = max_rtt 0 (take (unat (ep_num_qps ep)) (qps ep))
     in if rtt \<noteq> 0 then rtt else URP_WINDOW_FALLBACK_RTT_NS)"

text \<open>
  Inserting into the table may fail in the table itself, which the environment decides, or because
  the key is taken.
\<close>

definition stream_insert ::
    "env \<Rightarrow> urp_endpoint \<Rightarrow> u32 \<Rightarrow> urp_stream \<Rightarrow> (u32 \<times> urp_stream) list result" where
  "stream_insert ev ep sid s =
    (case ev_alloc ev (ep_trace ep) O_streams of
       Some e \<Rightarrow> Inl e
     | None \<Rightarrow> ht_insert (ep_streams ep) sid s)"

definition stream_new :: "urp_endpoint \<Rightarrow> u32 \<Rightarrow> u64 \<Rightarrow> urp_reorder \<Rightarrow> urp_stream" where
  "stream_new ep sid window rb =
    \<lparr> s_id = sid, s_state = URP_STREAM_STATE_SYN_SENT, s_tx_seq = 0, s_tx_bytes = 0,
      s_rx_bytes = 0, s_credit = urp_credit_init (ucast (ep_num_bufs ep div 2)),
      s_reorder = rb, s_window_bytes = window, s_tx_bytes_acked = 0,
      s_last_window_grant = 0, s_uds_sock = None, s_tx_thread = False, s_tx_done = False \<rparr>"

definition urp_stream_create ::
    "env \<Rightarrow> urp_endpoint \<Rightarrow> u32 \<Rightarrow> u32 result \<times> urp_endpoint" where
  "urp_stream_create ev ep stream_id =
    (if \<not> ep_streams_inited ep then (Inl EINVAL, ep)
     else case kalloc ev O_stream ep of
       (Some _, ep) \<Rightarrow> (Inl ENOMEM, ep)
     | (None, ep) \<Rightarrow>
         let (sid, ep) = (if stream_id \<noteq> 0 then (stream_id, ep) else urp_stream_next_id ep);
             window = urp_window_for_stream (ucast (sy_window_bytes (ev_sysctl ev))) (ep_buf_size ep)
               (ep_num_bufs ep) (ep_link_mbps ep) (urp_ep_repr_rtt_ns ep);
             (r, ep) = kalloc ev O_reorder ep
         in case urp_reorder_alloc (r = None) 0 (urp_reorder_depth_for_window window) of
              None \<Rightarrow> (Inl ENOMEM, log_ext (X_free O_stream) ep)
            | Some rb \<Rightarrow>
                (case stream_insert ev ep sid (stream_new ep sid window rb) of
                   Inl e \<Rightarrow> (Inl e, log_ext (X_free O_stream) (log_ext (X_free O_reorder) ep))
                 | Inr t \<Rightarrow> (Inr sid, ep\<lparr>ep_streams := t\<rparr>)))"

definition urp_stream_lookup :: "urp_endpoint \<Rightarrow> u32 \<Rightarrow> urp_stream option" where
  "urp_stream_lookup ep stream_id =
    (if \<not> ep_streams_inited ep then None else ht_lookup (ep_streams ep) stream_id)"

section \<open>Transmit thread and backend socket of a stream\<close>

definition urp_stream_pump_start :: "env \<Rightarrow> urp_endpoint \<Rightarrow> u32 \<Rightarrow> errno option \<times> urp_endpoint" where
  "urp_stream_pump_start ev ep sid =
    (case ht_lookup (ep_streams ep) sid of
       None \<Rightarrow> (None, ep)
     | Some s \<Rightarrow>
         if s_tx_thread s then (None, ep)
         else case ev_kthread_run ev (ep_trace ep) of
           Some e \<Rightarrow> (Some e, upd_stream sid (\<lambda>s. s\<lparr>s_tx_thread := False\<rparr>) (log_ext X_kthread_run ep))
         | None \<Rightarrow> (None, upd_stream sid (\<lambda>s. s\<lparr>s_tx_thread := True\<rparr>) (log_ext X_kthread_run ep)))"

text \<open>The stream may already have left the table when its thread is stopped.\<close>

definition urp_stream_pump_stop :: "urp_endpoint \<Rightarrow> urp_stream \<Rightarrow> urp_endpoint \<times> urp_stream" where
  "urp_stream_pump_stop ep s =
    (if s_tx_thread s then (log_ext X_kthread_stop ep, s\<lparr>s_tx_thread := False\<rparr>) else (ep, s))"

definition sock_create :: "env \<Rightarrow> urp_endpoint \<Rightarrow> nat result \<times> urp_endpoint" where
  "sock_create ev ep =
    (case kalloc ev O_sock ep of
       (Some e, ep) \<Rightarrow> (Inl e, ep)
     | (None, ep) \<Rightarrow> (Inr (ev_new_handle ev (ep_trace ep)), ep))"

definition sock_release :: "nat \<Rightarrow> urp_endpoint \<Rightarrow> urp_endpoint" where
  "sock_release sk ep = log_ext (X_free O_sock) (log_ext (X_sock_release sk) ep)"

definition urp_stream_connect_uds ::
    "env \<Rightarrow> urp_endpoint \<Rightarrow> u32 \<Rightarrow> string \<Rightarrow> errno option \<times> urp_endpoint" where
  "urp_stream_connect_uds ev ep sid path =
    (case sock_create ev ep of
       (Inl e, ep) \<Rightarrow> (Some e, ep)
     | (Inr sk, ep) \<Rightarrow>
         let r = ev_connect ev (ep_trace ep); ep = log_ext (X_sock_connect sk path) ep
         in case r of
              Some e \<Rightarrow> (Some e, sock_release sk ep)
            | None \<Rightarrow> (None, upd_stream sid (\<lambda>s. s\<lparr>s_uds_sock := Some sk\<rparr>) ep))"

definition urp_stream_destroy :: "urp_endpoint \<Rightarrow> u32 \<Rightarrow> urp_endpoint" where
  "urp_stream_destroy ep sid =
    (case ht_lookup (ep_streams ep) sid of
       None \<Rightarrow> ep
     | Some s \<Rightarrow>
         let ep = ep\<lparr>ep_streams := ht_remove (ep_streams ep) sid\<rparr>;
             ep = (case s_uds_sock s of None \<Rightarrow> ep | Some sk \<Rightarrow> log_ext (X_sock_shutdown sk SHUT_RDWR) ep);
             (ep, s) = urp_stream_pump_stop ep s;
             ep = (case s_uds_sock s of None \<Rightarrow> ep | Some sk \<Rightarrow> sock_release sk ep)
         in urp_stream_rcu_free ep)"

definition urp_streams_reap :: "urp_endpoint \<Rightarrow> urp_endpoint" where
  "urp_streams_reap ep =
    (if \<not> ep_streams_inited ep then ep
     else if ep_pending_reap ep = 0 then ep
     else fold (\<lambda>sid ep. urp_stream_destroy ep sid)
            (map fst (filter (\<lambda>e. s_tx_done (snd e)) (ep_streams ep))) (ep\<lparr>ep_pending_reap := 0\<rparr>))"

section \<open>Events of the peer\<close>

definition urp_stream_rx_syn :: "env \<Rightarrow> urp_endpoint \<Rightarrow> u32 \<Rightarrow> u32 result \<times> urp_endpoint" where
  "urp_stream_rx_syn ev ep stream_id =
    (case urp_stream_lookup ep stream_id of
       Some s \<Rightarrow>
         let t = urp_stream_next_state (s_state s) URP_STREAM_EV_RX_SYN
         in if \<not> tr_accepted t then (Inl EEXIST, ep)
            else (Inr stream_id, upd_stream stream_id (\<lambda>s. s\<lparr>s_state := tr_next t\<rparr>) ep)
     | None \<Rightarrow>
         (case urp_stream_create ev ep stream_id of
            (Inl e, ep) \<Rightarrow> (Inl e, ep)
          | (Inr sid, ep) \<Rightarrow>
              (Inr sid, upd_stream sid (\<lambda>s. s\<lparr>s_state := URP_STREAM_STATE_SYN_RECEIVED\<rparr>) ep)))"

definition urp_stream_needs_backend :: "urp_endpoint \<Rightarrow> urp_stream option \<Rightarrow> bool" where
  "urp_stream_needs_backend ep s =
    (case s of None \<Rightarrow> False
     | Some s \<Rightarrow> s_uds_sock s = None \<and> \<not> ep_is_initiator ep \<and> ep_connect_path ep \<noteq> [])"

definition urp_stream_open_backend :: "env \<Rightarrow> urp_endpoint \<Rightarrow> u32 \<Rightarrow> urp_endpoint" where
  "urp_stream_open_backend ev ep sid =
    (case ht_lookup (ep_streams ep) sid of
       None \<Rightarrow> ep
     | Some s \<Rightarrow>
         if s_uds_sock s \<noteq> None then ep
         else case urp_stream_connect_uds ev ep sid (ep_connect_path ep) of
           (None, ep) \<Rightarrow> snd (urp_stream_pump_start ev ep sid)
         | (Some _, ep) \<Rightarrow> ep)"

definition urp_stream_rx_fin :: "urp_endpoint \<Rightarrow> u32 \<Rightarrow> errno option \<times> urp_endpoint" where
  "urp_stream_rx_fin ep sid =
    (case ht_lookup (ep_streams ep) sid of
       None \<Rightarrow> (Some EINVAL, ep)
     | Some s \<Rightarrow>
         let t = urp_stream_next_state (s_state s) URP_STREAM_EV_RX_FIN;
             ep = (case s_uds_sock s of
                     Some sk \<Rightarrow> if tr_actions t AND URP_STREAM_ACT_SHUTDOWN_WR \<noteq> 0
                                then log_ext (X_sock_shutdown sk SHUT_WR) ep else ep
                   | None \<Rightarrow> ep)
         in (None, upd_stream sid (\<lambda>s. s\<lparr>s_state := tr_next t\<rparr>) ep))"

definition urp_stream_rx_rst :: "urp_endpoint \<Rightarrow> u32 \<Rightarrow> errno option \<times> urp_endpoint" where
  "urp_stream_rx_rst ep sid =
    (case ht_lookup (ep_streams ep) sid of
       None \<Rightarrow> (Some EINVAL, ep)
     | Some s \<Rightarrow>
         let t = urp_stream_next_state (s_state s) URP_STREAM_EV_RX_RST;
             ep = upd_stream sid (\<lambda>s. s\<lparr>s_state := tr_next t\<rparr>) ep;
             ep = (case s_uds_sock s of
                     Some sk \<Rightarrow> if tr_actions t AND URP_STREAM_ACT_SHUTDOWN_RDWR \<noteq> 0
                                then log_ext (X_sock_shutdown sk SHUT_RDWR) ep else ep
                   | None \<Rightarrow> ep)
         in (None, if tr_actions t AND URP_STREAM_ACT_DESTROY \<noteq> 0
                   then urp_stream_destroy ep sid else ep))"

definition urp_stream_tx_fin :: "urp_endpoint \<Rightarrow> u32 \<Rightarrow> urp_endpoint" where
  "urp_stream_tx_fin ep sid =
    upd_stream sid (\<lambda>s. s\<lparr>s_state := tr_next (urp_stream_next_state (s_state s) URP_STREAM_EV_TX_FIN)\<rparr>) ep"

text \<open>The result carries the stream the caller continues with, if any.\<close>

definition dispatch_found ::
    "env \<Rightarrow> urp_endpoint \<Rightarrow> u32 \<Rightarrow> u8 \<Rightarrow> u32 result \<times> urp_endpoint" where
  "dispatch_found ev ep stream_id flags =
    (if flags AND URP_DATA_FLAG_SYN \<noteq> 0 then urp_stream_rx_syn ev ep stream_id
     else case urp_stream_lookup ep stream_id of
       Some s \<Rightarrow> (Inr stream_id, ep)
     | None \<Rightarrow>
         if flags AND URP_DATA_FLAG_RST \<noteq> 0 then (Inl ENOENT, ep)
         else urp_stream_rx_syn ev ep stream_id)"

definition urp_stream_rx_dispatch ::
    "env \<Rightarrow> urp_endpoint \<Rightarrow> u32 \<Rightarrow> u8 \<Rightarrow> u32 option result \<times> urp_endpoint" where
  "urp_stream_rx_dispatch ev ep stream_id flags =
    (case dispatch_found ev ep stream_id flags of
       (Inl e, ep) \<Rightarrow> (Inl e, ep)
     | (Inr sid, ep) \<Rightarrow>
         if flags AND URP_DATA_FLAG_RST \<noteq> 0 then (Inr None, snd (urp_stream_rx_rst ep sid))
         else (Inr (Some sid),
               if flags AND URP_DATA_FLAG_FIN \<noteq> 0 then snd (urp_stream_rx_fin ep sid) else ep))"

section \<open>Teardown of the table\<close>

lemma ht_remove_head_less: "length (ht_remove ((k, v) # t) k) < Suc (length t)"
  by (simp add: ht_remove_def le_imp_less_Suc length_filter_le)

text \<open>The calls that take a stream down, in their order.\<close>

definition teardown_calls :: "urp_stream \<Rightarrow> ext list" where
  "teardown_calls s =
    (case s_uds_sock s of None \<Rightarrow> [] | Some sk \<Rightarrow> [X_sock_shutdown sk SHUT_RDWR])
    @ (if s_tx_thread s then [X_kthread_stop] else [])
    @ (case s_uds_sock s of None \<Rightarrow> [] | Some sk \<Rightarrow> [X_sock_release sk, X_free O_sock])
    @ [X_free O_reorder, X_free O_stream]"

lemma urp_stream_destroy_eq:
  "urp_stream_destroy ep sid =
    (case ht_lookup (ep_streams ep) sid of
       None \<Rightarrow> ep
     | Some s \<Rightarrow> ep\<lparr>ep_streams := ht_remove (ep_streams ep) sid, ep_trace := ep_trace ep @ teardown_calls s\<rparr>)"
  by (simp add: urp_stream_destroy_def urp_stream_pump_stop_def teardown_calls_def sock_release_def
      urp_stream_rcu_free_def log_ext_def Let_def split: option.splits)

function destroy_all_loop :: "urp_endpoint \<Rightarrow> urp_endpoint" where
  "destroy_all_loop ep =
    (case ep_streams ep of
       [] \<Rightarrow> ep
     | (sid, s) # _ \<Rightarrow> destroy_all_loop (urp_stream_destroy ep sid))"
  by pat_completeness auto
termination
  by (relation "measure (\<lambda>ep. length (ep_streams ep))")
    (auto simp: urp_stream_destroy_eq ht_lookup_def ht_remove_head_less)

declare destroy_all_loop.simps [simp del]

definition urp_streams_destroy_all :: "urp_endpoint \<Rightarrow> urp_endpoint" where
  "urp_streams_destroy_all ep =
    (if \<not> ep_streams_inited ep then ep
     else (log_ext (X_free O_streams) (destroy_all_loop ep))\<lparr>ep_streams_inited := False\<rparr>)"

section \<open>Teardown\<close>

lemma ht_remove_head:
  assumes "ht_inv ((k, v) # t)"
  shows "ht_remove ((k, v) # t) k = t"
proof -
  have "k \<notin> fst ` set t" using assms by (simp add: ht_inv_def)
  then show ?thesis by (auto simp: ht_remove_def filter_id_conv)
qed

lemma destroy_all_loop_eq:
  "ht_inv (ep_streams ep) \<Longrightarrow> destroy_all_loop ep =
    ep\<lparr>ep_streams := [], ep_trace := ep_trace ep @ concat (map (teardown_calls \<circ> snd) (ep_streams ep))\<rparr>"
proof (induction "ep_streams ep" arbitrary: ep)
  case Nil
  then show ?case by (simp add: destroy_all_loop.simps)
next
  case (Cons e t)
  obtain sid s where e: "e = (sid, s)" by force
  have str: "ep_streams ep = (sid, s) # t" using Cons.hyps(2) e by simp
  define ep1 where "ep1 = urp_stream_destroy ep sid"
  have ep1: "ep1 = ep\<lparr>ep_streams := t, ep_trace := ep_trace ep @ teardown_calls s\<rparr>"
    using ht_remove_head[of sid s t] Cons.prems str by (simp add: ep1_def urp_stream_destroy_eq ht_lookup_def)
  have "ht_inv t" using Cons.prems str by (simp add: ht_inv_def)
  then have "destroy_all_loop ep1 =
      ep1\<lparr>ep_streams := [], ep_trace := ep_trace ep1 @ concat (map (teardown_calls \<circ> snd) (ep_streams ep1))\<rparr>"
    by (intro Cons.hyps(1)) (simp_all add: ep1)
  then show ?case by (simp add: destroy_all_loop.simps[of ep] str ep1_def[symmetric]) (simp add: ep1 str)
qed

text \<open>
  C28: Tearing down the stream table ends, and takes every stream down exactly once: the table is
  empty afterwards, and the calls made are, stream by stream, the shutdown of its socket, then the
  join of its transmit thread, then the release of the socket and of its memory, so that no thread
  is joined while it may still be blocked on an open socket.
\<close>

theorem destroy_all_tears_down_each_stream_once:
  assumes "ep_streams_inited ep" "ht_inv (ep_streams ep)"
  shows "urp_streams_destroy_all ep =
    ep\<lparr>ep_streams := [], ep_streams_inited := False,
       ep_trace := ep_trace ep @ concat (map (teardown_calls \<circ> snd) (ep_streams ep)) @ [X_free O_streams]\<rparr>"
  using assms by (simp add: urp_streams_destroy_all_def destroy_all_loop_eq log_ext_def)

definition sample_stream :: "u32 \<Rightarrow> nat option \<Rightarrow> bool \<Rightarrow> urp_stream" where
  "sample_stream sid sk thr = (stream_new sample_ep sid 512 example_rb)\<lparr>s_uds_sock := sk, s_tx_thread := thr\<rparr>"

theorem destroy_all_tears_down_each_stream_once_witness:
  "ep_trace (urp_streams_destroy_all (sample_ep\<lparr>ep_streams_inited := True,
      ep_streams := [(1, sample_stream 1 (Some 7) True), (3, sample_stream 3 None False)]\<rparr>)) =
    [X_sock_shutdown 7 SHUT_RDWR, X_kthread_stop, X_sock_release 7, X_free O_sock, X_free O_reorder,
     X_free O_stream, X_free O_reorder, X_free O_stream, X_free O_streams]"
  using destroy_all_tears_down_each_stream_once[of "sample_ep\<lparr>ep_streams_inited := True,
      ep_streams := [(1, sample_stream 1 (Some 7) True), (3, sample_stream 3 None False)]\<rparr>"]
  by (simp add: ht_inv_def teardown_calls_def sample_stream_def stream_new_def) (simp add: sample_ep_def)

section \<open>Invariant of the table\<close>

text \<open>
  Every entry is stored under its own identifier, its reorder buffer is as deep as its window
  requires, and its transmit thread runs only with a socket; an initiator allocates odd
  identifiers and an acceptor even ones; and exactly one stream and one reorder buffer is allocated
  per entry.
\<close>

definition stream_wf :: "u32 \<Rightarrow> urp_stream \<Rightarrow> bool" where
  "stream_wf k s \<longleftrightarrow> s_id s = k \<and> ro_max_buffered (s_reorder s) = urp_reorder_depth_for_window (s_window_bytes s)
     \<and> (s_tx_thread s \<longrightarrow> s_uds_sock s \<noteq> None)"

definition streams_ok :: "urp_endpoint \<Rightarrow> bool" where
  "streams_ok ep \<longleftrightarrow> ht_inv (ep_streams ep) \<and> (\<forall>(k, s)\<in>set (ep_streams ep). stream_wf k s)
     \<and> ep_streams_inited ep \<and> (bit (ep_next_stream_id ep) 0 \<longleftrightarrow> ep_is_initiator ep)
     \<and> live O_stream ep = int (length (ep_streams ep)) \<and> live O_reorder ep = int (length (ep_streams ep))"

lemma live_delta_other [simp]:
  "live_delta k (X_sock_shutdown sk how) = 0" "live_delta k (X_sock_release sk) = 0"
  "live_delta k (X_sock_connect sk path) = 0" "live_delta k X_kthread_run = 0"
  "live_delta k X_kthread_stop = 0" "live_delta k X_wake_send_wq = 0" "live_delta k X_clock = 0"
  "live_delta k (X_post_send qp i d) = 0" "live_delta k (X_post_send_fail qp i) = 0"
  "live_delta k (X_sendmsg sk d) = 0" "live_delta k (X_sendmsg_fail sk) = 0"
  by (simp_all add: live_delta_def)

lemma streams_ok_cong:
  assumes "streams_ok ep" "ep_streams ep' = ep_streams ep" "ep_streams_inited ep' = ep_streams_inited ep"
    "ep_next_stream_id ep' = ep_next_stream_id ep" "ep_is_initiator ep' = ep_is_initiator ep"
    "live O_stream ep' = live O_stream ep" "live O_reorder ep' = live O_reorder ep"
  shows "streams_ok ep'"
  using assms by (simp add: streams_ok_def)

lemma streams_ok_log:
  assumes "streams_ok ep" "live_delta O_stream x = 0" "live_delta O_reorder x = 0"
  shows "streams_ok (log_ext x ep)"
  by (rule streams_ok_cong[OF assms(1)]) (simp_all add: assms(2,3), simp_all add: log_ext_def)

lemma streams_ok_upd:
  assumes "streams_ok ep"
    and wf: "\<And>s. ht_lookup (ep_streams ep) sid = Some s \<Longrightarrow> stream_wf sid s \<Longrightarrow> stream_wf sid (f s)"
  shows "streams_ok (upd_stream sid f ep)"
proof -
  let ?t = "ht_update (ep_streams ep) sid f"
  have "stream_wf sid (f s)" if "(sid, s) \<in> set (ep_streams ep)" for s
    using that assms(1) wf[of s] by (auto simp: streams_ok_def ht_inv_def ht_lookup_def)
  moreover have "live k (upd_stream sid f ep) = live k ep" for k by (rule live_cong) (simp add: upd_stream_def)
  ultimately have "\<forall>(k, s)\<in>set ?t. stream_wf k s" and lv: "live k (upd_stream sid f ep) = live k ep" for k
    using assms(1) by (fastforce simp: streams_ok_def ht_update_def)+
  moreover have "ht_inv ?t" using assms(1) ht.upd_lookup[of "ep_streams ep" sid f] by (simp add: streams_ok_def)
  moreover have "length ?t = length (ep_streams ep)" by (simp add: ht_update_def)
  ultimately show ?thesis using assms(1) lv by (simp add: streams_ok_def) (simp add: upd_stream_def)
qed

lemma streams_ok_kalloc:
  assumes "kalloc ev k ep = (r, ep')" "streams_ok ep" "k \<noteq> O_stream" "k \<noteq> O_reorder"
  shows "streams_ok ep'"
proof -
  obtain tr where ep': "ep' = ep\<lparr>ep_trace := tr\<rparr>" using kalloc_effect(1)[OF assms(1)] by (rule same_stateE)
  show ?thesis
    by (rule streams_ok_cong[OF assms(2)])
      (use kalloc_effect(2)[OF assms(1)] assms(3,4) in simp_all, simp_all add: ep')
qed

lemma live_teardown:
  "sum_list (map (live_delta k) (teardown_calls s)) =
    (if k = O_stream \<or> k = O_reorder then - 1 else if k = O_sock \<and> s_uds_sock s \<noteq> None then - 1 else 0)"
  by (auto simp: teardown_calls_def split: option.splits)

lemma ht_remove_length:
  assumes "ht_inv t" "ht_lookup t k = Some v"
  shows "Suc (length (ht_remove t k)) = length t"
  using assms
proof (induction t)
  case (Cons e t)
  show ?case
  proof (cases "fst e = k")
    case True
    then show ?thesis using ht_remove_head[of k "snd e" t] Cons.prems(1) by (cases e) auto
  next
    case False
    then show ?thesis using Cons by (cases e) (auto simp: ht_remove_def ht_inv_def ht_lookup_def)
  qed
qed (simp add: ht_lookup_def)

lemma streams_ok_destroy:
  assumes "streams_ok ep"
  shows "streams_ok (urp_stream_destroy ep sid)"
proof (cases "ht_lookup (ep_streams ep) sid")
  case None
  then show ?thesis using assms by (simp add: urp_stream_destroy_eq)
next
  case (Some s)
  let ?ep = "ep\<lparr>ep_streams := ht_remove (ep_streams ep) sid, ep_trace := ep_trace ep @ teardown_calls s\<rparr>"
  have inv: "ht_inv (ep_streams ep)" using assms by (simp add: streams_ok_def)
  have "live k ?ep = live k ep - 1" if "k = O_stream \<or> k = O_reorder" for k
    using live_teardown[of k s] that by (auto simp: live_def)
  moreover have "int (length (ep_streams ep)) = int (length (ht_remove (ep_streams ep) sid)) + 1"
    using ht_remove_length[OF inv Some] by simp
  moreover have "\<forall>(k, s)\<in>set (ht_remove (ep_streams ep) sid). stream_wf k s"
    using assms by (auto simp: streams_ok_def ht_remove_def)
  ultimately have "streams_ok ?ep"
    using assms ht.rem_lookup[OF inv, of sid] by (simp add: streams_ok_def)
  then show ?thesis using Some by (simp add: urp_stream_destroy_eq)
qed

lemma reorder_depth_pos: "urp_reorder_depth_for_window w \<noteq> 0"
  using unat_reorder_depth[of w] by auto

lemma stream_create_outcome:
  assumes "urp_stream_create ev ep sid = (r, ep')" "ht_inv (ep_streams ep)"
  obtains (err) e n tr where "r = Inl e" "ep' = ep\<lparr>ep_next_stream_id := n, ep_trace := tr\<rparr>"
      "bit n 0 = bit (ep_next_stream_id ep) 0" "\<And>k. live k ep' = live k ep"
  | (ok) sid' n tr s where "r = Inr sid'" "sid \<noteq> 0 \<Longrightarrow> sid' = sid" "sid = 0 \<Longrightarrow> sid' = ep_next_stream_id ep"
      "ep' = ep\<lparr>ep_next_stream_id := n, ep_trace := tr, ep_streams := (sid', s) # ep_streams ep\<rparr>"
      "bit n 0 = bit (ep_next_stream_id ep) 0" "ht_lookup (ep_streams ep) sid' = None"
      "stream_wf sid' s" "s_state s = URP_STREAM_STATE_SYN_SENT" "s_uds_sock s = None" "s_tx_thread s = False"
      "urp_reorder_alloc True 0 (urp_reorder_depth_for_window (s_window_bytes s)) = Some (s_reorder s)"
      "\<And>k. live k ep' = live k ep + (if k = O_stream \<or> k = O_reorder then 1 else 0)"
proof (cases "ep_streams_inited ep")
  case False
  then have "r = Inl EINVAL" "ep' = ep" using assms(1) by (auto simp: urp_stream_create_def)
  then show ?thesis by (intro err[where e = EINVAL and n = "ep_next_stream_id ep" and tr = "ep_trace ep"]) simp_all
next
  case True
  obtain r1 ep1 where a1: "kalloc ev O_stream ep = (r1, ep1)" by force
  note l1 = kalloc_effect(2)[OF a1]
  obtain tr1 where ep1: "ep1 = ep\<lparr>ep_trace := tr1\<rparr>" using kalloc_effect(1)[OF a1] by (rule same_stateE)
  show ?thesis
  proof (cases r1)
    case (Some e)
    then have "r = Inl ENOMEM" "ep' = ep1" using assms(1) True a1 by (auto simp: urp_stream_create_def)
    then show ?thesis using Some l1
      by (intro err[where e = ENOMEM and n = "ep_next_stream_id ep" and tr = tr1]) (simp_all, simp_all add: ep1)
  next
    case None
    define n where "n = (if sid \<noteq> 0 then ep_next_stream_id ep else ep_next_stream_id ep + 2)"
    define i where "i = (if sid \<noteq> 0 then sid else ep_next_stream_id ep)"
    have par: "bit n 0 = bit (ep_next_stream_id ep) 0" by (simp add: n_def bit_0)
    define ep2 where "ep2 = ep1\<lparr>ep_next_stream_id := n\<rparr>"
    have nx: "(if sid \<noteq> 0 then (sid, ep1) else urp_stream_next_id ep1) = (i, ep2)"
      by (auto simp: i_def n_def ep2_def urp_stream_next_id_def ep1)
    have l2: "live k ep2 = live k ep1" for k by (rule live_cong) (simp add: ep2_def)
    obtain r3 ep3 where a3: "kalloc ev O_reorder ep2 = (r3, ep3)" by force
    note l3 = kalloc_effect(2)[OF a3]
    obtain tr3 where ep3: "ep3 = ep2\<lparr>ep_trace := tr3\<rparr>" using kalloc_effect(1)[OF a3] by (rule same_stateE)
    define w where "w = urp_window_for_stream (ucast (sy_window_bytes (ev_sysctl ev))) (ep_buf_size ep2)
               (ep_num_bufs ep2) (ep_link_mbps ep2) (urp_ep_repr_rtt_ns ep2)"
    have c: "urp_stream_create ev ep sid =
       (case urp_reorder_alloc (r3 = None) 0 (urp_reorder_depth_for_window w) of
              None \<Rightarrow> (Inl ENOMEM, log_ext (X_free O_stream) ep3)
            | Some rb \<Rightarrow>
                (case stream_insert ev ep3 i (stream_new ep3 i w rb) of
                   Inl e \<Rightarrow> (Inl e, log_ext (X_free O_stream) (log_ext (X_free O_reorder) ep3))
                 | Inr t \<Rightarrow> (Inr i, ep3\<lparr>ep_streams := t\<rparr>)))"
      using True a1 None nx a3 unfolding w_def by (simp add: urp_stream_create_def Let_def)
    have l: "live k ep3 = live k ep + (if k = O_stream \<or> k = O_reorder \<and> r3 = None then 1 else 0)" for k
      using l1 l2 l3 None by auto
    define rb where "rb = the (urp_reorder_alloc True 0 (urp_reorder_depth_for_window w))"
    have al: "urp_reorder_alloc b 0 (urp_reorder_depth_for_window w) = (if b then Some rb else None)" for b
      using reorder_depth_pos[of w] by (simp add: rb_def urp_reorder_alloc_def)
    have e3: "ep3 = ep\<lparr>ep_next_stream_id := n, ep_trace := tr3\<rparr>" by (simp add: ep3 ep2_def ep1)
    consider (x) e where "r3 = Some e" | (y) e where "r3 = None" "stream_insert ev ep3 i (stream_new ep3 i w rb) = Inl e"
      | (z) t where "r3 = None" "stream_insert ev ep3 i (stream_new ep3 i w rb) = Inr t" by (metis not_None_eq obj_sumE)
    then show ?thesis
    proof cases
      case x
      then have "r = Inl ENOMEM" "ep' = log_ext (X_free O_stream) ep3" using assms(1) c al by auto
      then show ?thesis using l x par
        by (intro err[where e = ENOMEM and n = n and tr = "tr3 @ [X_free O_stream]"]) (auto, simp_all add: log_ext_def e3)
    next
      case y
      then have "r = Inl e" "ep' = log_ext (X_free O_stream) (log_ext (X_free O_reorder) ep3)" using assms(1) c al by auto
      then show ?thesis using l y par
        by (intro err[where e = e and n = n and tr = "tr3 @ [X_free O_reorder, X_free O_stream]"])
          (auto, simp_all add: log_ext_def e3)
    next
      case z
      have str: "ep_streams ep3 = ep_streams ep" by (simp add: e3)
      have t: "ht_lookup (ep_streams ep) i = None" "t = (i, stream_new ep3 i w rb) # ep_streams ep"
        using z(2) unfolding stream_insert_def str by (auto simp: ht_insert_def split: option.splits)
      have r: "r = Inr i" "ep' = ep3\<lparr>ep_streams := t\<rparr>" using assms(1) c al z by auto
      have lk: "live k ep' = live k ep3" for k by (rule live_cong) (simp add: r(2))
      have rb: "urp_reorder_alloc True 0 (urp_reorder_depth_for_window w) = Some rb" using al[of True] by simp
      then have "ro_max_buffered rb = urp_reorder_depth_for_window w"
        by (auto simp: urp_reorder_alloc_def split: if_splits)
      then have wf: "stream_wf i (stream_new ep3 i w rb)" by (simp add: stream_wf_def stream_new_def)
      define s0 where "s0 = stream_new ep3 i w rb"
      have fs: "s_state s0 = URP_STREAM_STATE_SYN_SENT" "s_uds_sock s0 = None" "s_tx_thread s0 = False"
        "urp_reorder_alloc True 0 (urp_reorder_depth_for_window (s_window_bytes s0)) = Some (s_reorder s0)"
        using rb by (simp_all add: s0_def stream_new_def)
      have eq: "ep' = ep\<lparr>ep_next_stream_id := n, ep_trace := tr3, ep_streams := (i, s0) # ep_streams ep\<rparr>"
        unfolding r(2) t(2) s0_def[symmetric] by (simp add: e3)
      have lv: "live k ep' = live k ep + (if k = O_stream \<or> k = O_reorder then 1 else 0)" for k
        using l[of k] z(1) lk by simp
      show ?thesis
        by (rule ok[OF r(1) _ _ eq par t(1) wf[folded s0_def] fs lv]) (simp_all add: i_def)
    qed
  qed
qed

lemma streams_ok_create:
  assumes "streams_ok ep" "urp_stream_create ev ep sid = (r, ep')"
  shows "streams_ok ep'"
proof -
  have inv: "ht_inv (ep_streams ep)" using assms(1) by (simp add: streams_ok_def)
  show ?thesis using assms(2) inv
  proof (cases rule: stream_create_outcome)
    case (err e n tr)
    have "live O_stream ep' = live O_stream ep" "live O_reorder ep' = live O_reorder ep" using err(4) by auto
    then show ?thesis using assms(1) err(2,3) by (simp add: streams_ok_def)
  next
    case (ok sid' n tr s)
    have "live O_stream ep' = live O_stream ep + 1" "live O_reorder ep' = live O_reorder ep + 1" using ok(12) by auto
    moreover have "ht_inv ((sid', s) # ep_streams ep)"
      using inv ok(6) by (simp add: ht_inv_def ht_lookup_def map_of_eq_None_iff)
    ultimately show ?thesis using assms(1) ok(4,5,7) by (simp add: streams_ok_def)
  qed
qed

lemma stream_wf_state [simp]: "stream_wf k (s\<lparr>s_state := st\<rparr>) = stream_wf k s"
  by (simp add: stream_wf_def)

lemma streams_ok_rx_syn:
  assumes "streams_ok ep" "urp_stream_rx_syn ev ep sid = (r, ep')"
  shows "streams_ok ep'"
proof (cases "urp_stream_lookup ep sid")
  case (Some s)
  then show ?thesis using assms
    by (auto simp: urp_stream_rx_syn_def Let_def intro!: streams_ok_upd split: if_splits)
next
  case None
  obtain r1 ep1 where c: "urp_stream_create ev ep sid = (r1, ep1)" by force
  have "streams_ok ep1" by (rule streams_ok_create[OF assms(1) c])
  then show ?thesis using assms(2) None c
    by (auto simp: urp_stream_rx_syn_def intro!: streams_ok_upd split: sum.splits)
qed

lemma streams_ok_rx_fin: "streams_ok ep \<Longrightarrow> streams_ok (snd (urp_stream_rx_fin ep sid))"
  by (auto simp: urp_stream_rx_fin_def Let_def intro!: streams_ok_upd streams_ok_log split: option.splits)

lemma streams_ok_rx_rst: "streams_ok ep \<Longrightarrow> streams_ok (snd (urp_stream_rx_rst ep sid))"
  by (auto simp: urp_stream_rx_rst_def Let_def intro!: streams_ok_destroy streams_ok_upd streams_ok_log
      split: option.splits)

lemma streams_ok_dispatch:
  assumes "streams_ok ep" "urp_stream_rx_dispatch ev ep sid fl = (r, ep')"
  shows "streams_ok ep'"
proof -
  obtain r1 ep1 where d: "dispatch_found ev ep sid fl = (r1, ep1)" by force
  obtain r2 ep2 where y: "urp_stream_rx_syn ev ep sid = (r2, ep2)" by force
  have "ep1 = ep \<or> ep1 = ep2"
    using d y by (auto simp: dispatch_found_def split: if_splits option.splits)
  then have "streams_ok ep1" using streams_ok_rx_syn[OF assms(1) y] assms(1) by auto
  then show ?thesis using assms(2) d streams_ok_rx_fin[of ep1] streams_ok_rx_rst[of ep1]
    by (auto simp: urp_stream_rx_dispatch_def split: sum.splits if_splits)
qed

lemma streams_ok_open_backend:
  assumes "streams_ok ep"
  shows "streams_ok (urp_stream_open_backend ev ep sid)"
proof -
  obtain r ep1 where c: "urp_stream_connect_uds ev ep sid (ep_connect_path ep) = (r, ep1)" by force
  obtain r0 ep0 where k: "kalloc ev O_sock ep = (r0, ep0)" by force
  have ok0: "streams_ok ep0" using streams_ok_kalloc[OF k assms] by simp
  have ok1: "streams_ok ep1" using c k ok0
    by (auto simp: urp_stream_connect_uds_def sock_create_def sock_release_def Let_def stream_wf_def
        intro!: streams_ok_upd streams_ok_log split: option.splits prod.splits)
  have look: "ht_lookup (ep_streams ep1) sid = Some s \<Longrightarrow> r = None \<Longrightarrow> s_uds_sock s \<noteq> None" for s
    using c by (auto simp: urp_stream_connect_uds_def Let_def upd_stream_def ht_lookup_update
        split: option.splits prod.splits sum.splits)
  have "streams_ok (snd (urp_stream_pump_start ev ep1 sid))" if "r = None"
    using ok1 look[OF _ that]
    by (auto simp: urp_stream_pump_start_def stream_wf_def log_ext_def[of _ ep1]
        intro!: streams_ok_upd streams_ok_log[unfolded log_ext_def] split: option.splits)
  then show ?thesis using assms ok1 c
    by (auto simp: urp_stream_open_backend_def split: option.splits)
qed

text \<open>The operations on the table, in any order, as steps.\<close>

inductive stream_step :: "env \<Rightarrow> urp_endpoint \<Rightarrow> urp_endpoint \<Rightarrow> bool" for ev where
  create: "urp_stream_create ev ep sid = (r, ep') \<Longrightarrow> stream_step ev ep ep'"
| dispatch: "urp_stream_rx_dispatch ev ep sid flags = (r, ep') \<Longrightarrow> stream_step ev ep ep'"
| backend: "stream_step ev ep (urp_stream_open_backend ev ep sid)"
| fin: "stream_step ev ep (urp_stream_tx_fin ep sid)"
| destroy: "stream_step ev ep (urp_stream_destroy ep sid)"
| reap: "stream_step ev ep (urp_streams_reap ep)"

lemma streams_ok_reap: "streams_ok ep \<Longrightarrow> streams_ok (urp_streams_reap ep)"
proof -
  assume ok: "streams_ok ep"
  have "streams_ok ep1 \<Longrightarrow> streams_ok (fold (\<lambda>sid ep. urp_stream_destroy ep sid) ids ep1)" for ids ep1
    by (induction ids arbitrary: ep1) (simp_all add: streams_ok_destroy)
  moreover have "streams_ok (ep\<lparr>ep_pending_reap := 0\<rparr>)"
  proof (rule streams_ok_cong[OF ok])
    show "live O_stream (ep\<lparr>ep_pending_reap := 0\<rparr>) = live O_stream ep"
      "live O_reorder (ep\<lparr>ep_pending_reap := 0\<rparr>) = live O_reorder ep" by (rule live_cong, simp)+
  qed simp_all
  ultimately show ?thesis using ok by (simp add: urp_streams_reap_def)
qed

lemma streams_ok_step: "stream_step ev ep ep' \<Longrightarrow> streams_ok ep \<Longrightarrow> streams_ok ep'"
proof (induction rule: stream_step.induct)
  case (fin ep sid)
  then show ?case unfolding urp_stream_tx_fin_def by (intro streams_ok_upd) simp_all
qed (auto intro: streams_ok_create streams_ok_dispatch streams_ok_open_backend streams_ok_destroy streams_ok_reap)

text \<open>
  C27: The stream table stays well formed.  From its initialisation on, under any sequence of
  creations, frames of the peer, backend connections, local closes, resets and reaps, with any of
  the kernel's calls failing, every stream is stored once and under its own identifier, its reorder
  buffer is as deep as its window requires, it has a transmit thread only with a socket, the
  allocator's parity tells the initiator from the acceptor, and one stream and one reorder buffer is
  allocated per entry, so that tearing the table down leaves none allocated.
\<close>

theorem stream_table_well_formed:
  assumes "urp_streams_init ev ep0 = (None, ep1)" "live O_stream ep0 = 0" "live O_reorder ep0 = 0"
    and "(stream_step ev)\<^sup>*\<^sup>* ep1 ep"
  shows "streams_ok ep \<and> live O_stream (urp_streams_destroy_all ep) = 0
    \<and> live O_reorder (urp_streams_destroy_all ep) = 0"
proof -
  obtain r ep' where a: "kalloc ev O_streams ep0 = (r, ep')" by force
  note l = kalloc_effect(2)[OF a]
  have ep1: "ep1 = ep'\<lparr>ep_streams := [], ep_streams_inited := True, ep_pending_reap := 0,
                   ep_next_stream_id := (if ep_is_initiator ep' then 1 else 2)\<rparr>"
    using assms(1) a by (auto simp: urp_streams_init_def split: option.splits)
  have l1: "live k ep1 = live k ep'" for k by (rule live_cong) (simp add: ep1)
  then have "streams_ok ep1" using l assms(2,3) by (simp add: streams_ok_def) (simp add: ep1 ht_inv_def bit_0)
  with assms(4) have ok: "streams_ok ep" by (induction rule: rtranclp_induct) (auto intro: streams_ok_step)
  have "live k (urp_streams_destroy_all ep) = 0" if "k = O_stream \<or> k = O_reorder" for k
  proof -
    have "sum_list (map (live_delta k) (concat (map (teardown_calls \<circ> snd) t))) = - int (length t)"
      for t :: "(u32 \<times> urp_stream) list"
      using that by (induction t) (auto simp: live_teardown)
    then show ?thesis
      using ok that by (auto simp: streams_ok_def urp_streams_destroy_all_def destroy_all_loop_eq log_ext_def live_def)
  qed
  then show ?thesis using ok by blast
qed

definition sample_streams :: urp_endpoint where
  "sample_streams = sample_ep\<lparr>ep_qps := Some [sample_qp 0 True, sample_qp 1 True], ep_streams_inited := True,
     ep_next_stream_id := 2, ep_trace := [X_alloc O_streams]\<rparr>"

theorem stream_table_well_formed_witness:
  "urp_streams_init sample_env (sample_ep\<lparr>ep_qps := Some [sample_qp 0 True, sample_qp 1 True]\<rparr>) = (None, sample_streams) \<and>
   (let ep = snd (urp_stream_rx_dispatch sample_env sample_streams 1 URP_DATA_FLAG_SYN)
    in streams_ok ep \<and> live O_stream (urp_streams_destroy_all ep) = 0
       \<and> live O_reorder (urp_streams_destroy_all ep) = 0)"
proof -
  let ?ep0 = "sample_ep\<lparr>ep_qps := Some [sample_qp 0 True, sample_qp 1 True]\<rparr>"
  let ?r = "urp_stream_rx_dispatch sample_env sample_streams 1 URP_DATA_FLAG_SYN"
  have i: "urp_streams_init sample_env ?ep0 = (None, sample_streams)"
    by (simp add: urp_streams_init_def kalloc_def log_ext_def sample_streams_def sample_ep_def sample_env_def)
  have "stream_step sample_env sample_streams (snd ?r)"
    by (rule stream_step.dispatch[where r = "fst ?r"]) simp
  then have st: "(stream_step sample_env)\<^sup>*\<^sup>* sample_streams (snd ?r)" by blast
  have "live k ?ep0 = 0" for k by (simp add: live_def sample_ep_def)
  then show ?thesis using stream_table_well_formed[OF i _ _ st] i by (simp add: Let_def)
qed

abbreviation closing_states :: "urp_stream_state set" where
  "closing_states \<equiv> {URP_STREAM_STATE_FIN_WAIT, URP_STREAM_STATE_CLOSE_WAIT, URP_STREAM_STATE_CLOSED}"

lemma rx_syn_effect:
  assumes "ht_inv (ep_streams ep)" "ep_streams_inited ep" "sid \<noteq> 0" "urp_stream_rx_syn ev ep sid = (r, ep')"
  shows "k \<noteq> sid \<Longrightarrow> ht_lookup (ep_streams ep') k = ht_lookup (ep_streams ep) k"
    "r = Inr k \<Longrightarrow> k = sid \<and> ht_lookup (ep_streams ep') sid \<noteq> None"
    "r = Inl e \<Longrightarrow> ep_streams ep' = ep_streams ep"
    "r = Inl e \<Longrightarrow> ht_lookup (ep_streams ep) sid = Some s \<Longrightarrow> e = EEXIST \<and> s_state s \<in> closing_states"
proof -
  have "(\<forall>k. k \<noteq> sid \<longrightarrow> ht_lookup (ep_streams ep') k = ht_lookup (ep_streams ep) k) \<and>
    (\<forall>k. r = Inr k \<longrightarrow> k = sid \<and> ht_lookup (ep_streams ep') sid \<noteq> None) \<and>
    (\<forall>e. r = Inl e \<longrightarrow> ep_streams ep' = ep_streams ep) \<and>
    (\<forall>e. r = Inl e \<longrightarrow> ht_lookup (ep_streams ep) sid = Some s \<longrightarrow> e = EEXIST \<and> s_state s \<in> closing_states)"
  proof (cases "ht_lookup (ep_streams ep) sid")
    case (Some s')
    then show ?thesis using assms(2-4)
      by (cases "s_state s'")
        (auto simp: urp_stream_rx_syn_def urp_stream_lookup_def Let_def sm_defs upd_stream_def ht_lookup_update)
  next
    case None
    obtain r1 ep1 where c: "urp_stream_create ev ep sid = (r1, ep1)" by force
    have y: "urp_stream_rx_syn ev ep sid = (case r1 of Inl e \<Rightarrow> (Inl e, ep1) | Inr sid \<Rightarrow>
        (Inr sid, upd_stream sid (\<lambda>s. s\<lparr>s_state := URP_STREAM_STATE_SYN_RECEIVED\<rparr>) ep1))"
      using None c by (auto simp: urp_stream_rx_syn_def urp_stream_lookup_def split: sum.splits)
    from c assms(1) show ?thesis
    proof (cases rule: stream_create_outcome)
      case (err e n tr)
      then show ?thesis using y assms(4) None by simp
    next
      case (ok sid' n tr s0)
      then have "sid' = sid" using assms(3) by simp
      then show ?thesis using ok(1,4) y assms(4) None
        by (auto simp: upd_stream_def ht_lookup_update) (auto simp: ht_lookup_def)
    qed
  qed
  then show "k \<noteq> sid \<Longrightarrow> ht_lookup (ep_streams ep') k = ht_lookup (ep_streams ep) k"
    "r = Inr k \<Longrightarrow> k = sid \<and> ht_lookup (ep_streams ep') sid \<noteq> None"
    "r = Inl e \<Longrightarrow> ep_streams ep' = ep_streams ep"
    "r = Inl e \<Longrightarrow> ht_lookup (ep_streams ep) sid = Some s \<Longrightarrow> e = EEXIST \<and> s_state s \<in> closing_states"
    by blast+
qed

lemma rx_fin_lookup:
  "ht_lookup (ep_streams (snd (urp_stream_rx_fin ep sid))) k =
    (if k = sid then map_option (\<lambda>s. s\<lparr>s_state := tr_next (urp_stream_next_state (s_state s) URP_STREAM_EV_RX_FIN)\<rparr>)
       (ht_lookup (ep_streams ep) k) else ht_lookup (ep_streams ep) k)"
  by (auto simp: urp_stream_rx_fin_def Let_def upd_stream_def ht_lookup_update log_ext_def split: option.splits)

lemma rx_rst_lookup:
  "ht_lookup (ep_streams (snd (urp_stream_rx_rst ep sid))) k =
    (if k = sid then None else ht_lookup (ep_streams ep) k)"
  by (auto simp: urp_stream_rx_rst_def Let_def upd_stream_def ht_lookup_update ht_lookup_remove log_ext_def
      urp_stream_destroy_eq sm_defs split: option.splits)

lemma flags_or_syn:
  "(flags OR URP_DATA_FLAG_SYN) AND URP_DATA_FLAG_SYN \<noteq> 0"
  "(flags OR URP_DATA_FLAG_SYN) AND URP_DATA_FLAG_RST = flags AND URP_DATA_FLAG_RST"
  "(flags OR URP_DATA_FLAG_SYN) AND URP_DATA_FLAG_FIN = flags AND URP_DATA_FLAG_FIN"
  by (simp_all add: frame_consts bit.conj_disj_distrib2)

lemma dispatch_unknown:
  assumes "ht_lookup (ep_streams ep) sid = None" "ep_streams_inited ep"
  shows "flags AND URP_DATA_FLAG_RST \<noteq> 0 \<Longrightarrow> flags AND URP_DATA_FLAG_SYN = 0 \<Longrightarrow>
      urp_stream_rx_dispatch ev ep sid flags = (Inl ENOENT, ep)"
    "flags AND URP_DATA_FLAG_RST = 0 \<Longrightarrow>
      urp_stream_rx_dispatch ev ep sid flags = urp_stream_rx_dispatch ev ep sid (flags OR URP_DATA_FLAG_SYN)"
proof -
  assume "flags AND URP_DATA_FLAG_RST \<noteq> 0" "flags AND URP_DATA_FLAG_SYN = 0"
  then show "urp_stream_rx_dispatch ev ep sid flags = (Inl ENOENT, ep)"
    using assms by (simp add: urp_stream_rx_dispatch_def dispatch_found_def urp_stream_lookup_def)
next
  assume "flags AND URP_DATA_FLAG_RST = 0"
  then have "dispatch_found ev ep sid flags = urp_stream_rx_syn ev ep sid"
    using assms by (simp add: dispatch_found_def urp_stream_lookup_def)
  moreover have "dispatch_found ev ep sid (flags OR URP_DATA_FLAG_SYN) = urp_stream_rx_syn ev ep sid"
    using flags_or_syn(1) unfolding dispatch_found_def by (rule if_P)
  ultimately show "urp_stream_rx_dispatch ev ep sid flags = urp_stream_rx_dispatch ev ep sid (flags OR URP_DATA_FLAG_SYN)"
    unfolding urp_stream_rx_dispatch_def by (simp only: flags_or_syn)
qed



end
