(* ===== verification/Urp_Pump.thy ===== *)
theory Urp_Pump
  imports Urp_Stream
begin

text \<open>
  The transmit side (kernel/urp\_pump.c): the threads that read a socket, frame what they read and
  post it, the window gate with its stall budget, and the frames the module sends on its own:
  probes, their answers and the two kinds of credit grants.  A thread that blocks lets the other
  threads run: what they do to the endpoint meanwhile is a parameter, applied at each blocking
  call to the buffer the thread holds, if any, and the state.  The reaction to missed probes and the teardown of the single legacy connection
  (kernel/urp\_rdma.c, kernel/urp\_socket.c) are here because the probe ticker calls them.
\<close>

type_synonym interference = "nat option \<Rightarrow> urp_endpoint \<Rightarrow> urp_endpoint"

section \<open>Clocks and in-place writes\<close>

definition ktime_get_ns :: "env \<Rightarrow> urp_endpoint \<Rightarrow> u64 \<times> urp_endpoint" where
  "ktime_get_ns ev ep = (ev_ktime ev (ep_trace ep), log_ext X_clock ep)"

definition ktime_get_real_ns :: "env \<Rightarrow> urp_endpoint \<Rightarrow> u64 \<times> urp_endpoint" where
  "ktime_get_real_ns ev ep = (ev_ktime_real ev (ep_trace ep), log_ext X_clock ep)"

text \<open>A function applied to the buffer from an offset on, as through a pointer into it.\<close>

definition at_off :: "nat \<Rightarrow> (bytes \<Rightarrow> bytes) \<Rightarrow> bytes \<Rightarrow> bytes" where
  "at_off n f d = take n d @ f (drop n d)"

text \<open>Reading a socket into a list of kvecs fills them in order.\<close>

fun kvec_store :: "bytes list \<Rightarrow> kvec list \<Rightarrow> bytes \<Rightarrow> bytes list" where
  "kvec_store chunks [] d = chunks"
| "kvec_store chunks ((j, off, len) # kvs) d =
    kvec_store (chunks[j := write_at (chunks ! j) (unat off) (take (unat len) d)]) kvs (drop (unat len) d)"

definition recvmsg_kvecs ::
    "env \<Rightarrow> urp_endpoint \<Rightarrow> nat \<Rightarrow> nat \<Rightarrow> kvec list \<Rightarrow> u32 \<Rightarrow> bytes result \<times> urp_endpoint" where
  "recvmsg_kvecs ev ep sk i kvs max_len =
    (case ev_recvmsg ev (ep_trace ep) of
       Inl e \<Rightarrow> (Inl e, log_ext (X_recvmsg_fail sk) ep)
     | Inr d \<Rightarrow>
         let d = take (unat max_len) d
         in (Inr d, log_ext (X_recvmsg sk d)
               (upd_buf i (\<lambda>b. b\<lparr>bf_pages := kvec_store (bf_pages b) kvs d\<rparr>) ep)))"

section \<open>Stamping\<close>

definition urp_tx_maybe_stamp ::
    "env \<Rightarrow> urp_endpoint \<Rightarrow> nat \<Rightarrow> u64 \<Rightarrow> u32 \<Rightarrow> u32 \<times> urp_endpoint" where
  "urp_tx_maybe_stamp ev ep i seq len =
    (let period = sy_latency_sample_period (ev_sysctl ev)
     in if \<not> ep_tstamp_negotiated ep \<or> bf_num_chunks (bufs ep ! i) \<noteq> 1 \<or> period = 0
           \<or> seq mod ucast period \<noteq> 0
        then (0, ep)
        else
          let ep = upd_data i (\<lambda>d. put_u8 (get_u8 d 13 OR URP_DATA_FLAG_TSTAMP) d 13) ep;
              (t, ep) = ktime_get_real_ns ev ep;
              ep = upd_data i (\<lambda>d. urp_frame_tstamp_encode d (unat (URP_FRAME_HEADER_SIZE + len)) t) ep
          in (URP_TSTAMP_TRAILER_LEN, ep))"

definition stat_stall :: "urp_endpoint \<Rightarrow> urp_endpoint" where
  "stat_stall = upd_stats (\<lambda>st. st\<lparr>stat_credit_stalls := stat_credit_stalls st + 1\<rparr>)"

definition stat_tx :: "u32 \<Rightarrow> nat \<Rightarrow> urp_endpoint \<Rightarrow> urp_endpoint" where
  "stat_tx len q ep =
    upd_qp q (\<lambda>q. q\<lparr>q_tx_bytes := q_tx_bytes q + ucast len, q_tx_frames := q_tx_frames q + 1\<rparr>)
      (upd_stats (\<lambda>st. st\<lparr>stat_tx_bytes := stat_tx_bytes st + ucast len,
                          stat_tx_frames := stat_tx_frames st + 1\<rparr>) ep)"

section \<open>The legacy single-connection pump\<close>

text \<open>
  One iteration of the thread's loop; the result tells whether the loop continues.
\<close>

definition urp_tx_iter ::
    "env \<Rightarrow> interference \<Rightarrow> urp_endpoint \<Rightarrow> bool \<times> urp_endpoint" where
  "urp_tx_iter ev itf ep =
    (case urp_buf_alloc_send ep of
       (None, ep) \<Rightarrow> (True, itf None ep)
     | (Some i, ep) \<Rightarrow>
         let kvs = urp_frame_fill_kvecs (ep_chunk_size ep) (bf_num_chunks (bufs ep ! i)) (ep_buf_size ep);
             (r, ep) = recvmsg_kvecs ev (itf (Some i) ep) (the (c_uds_sock (ep_conn ep))) i kvs
                         (urp_ep_tx_max_payload (ep_buf_size ep))
         in case r of
              Inl e \<Rightarrow>
                let ep = urp_buf_free_send ep i
                in (False, if e \<noteq> ERESTARTSYS \<and> e \<noteq> EAGAIN
                           then ep\<lparr>ep_conn := (ep_conn ep)\<lparr>c_active := False\<rparr>\<rparr> else ep)
            | Inr [] \<Rightarrow> (False, urp_buf_free_send ep i)
            | Inr d \<Rightarrow>
                let len = of_nat (length d);
                    seq = c_seq (ep_conn ep);
                    ep = ep\<lparr>ep_conn := (ep_conn ep)\<lparr>c_seq := seq + 1\<rparr>\<rparr>;
                    ep = upd_data i (\<lambda>b. urp_frame_encode b 0 seq URP_FRAME_TYPE_DATA 0 0 len) ep;
                    (tstamp, ep) = urp_tx_maybe_stamp ev ep i seq len
                in case urp_qp_select_round_robin ep of
                     (None, ep) \<Rightarrow> (True, itf None (urp_buf_free_send ep i))
                   | (Some q, ep) \<Rightarrow>
                       let ep = (case urp_credit_consume (q_credit (qps ep ! q)) of
                                   Inl _ \<Rightarrow> stat_stall ep
                                 | Inr cr \<Rightarrow> upd_qp q (\<lambda>q. q\<lparr>q_credit := cr\<rparr>) ep);
                           (ret, ep) = urp_post_frame ev ep (the (q_qp (qps ep ! q))) i
                                         (URP_FRAME_HEADER_SIZE + len + tstamp)
                       in if ret \<noteq> None
                          then (False, ep\<lparr>ep_conn := (ep_conn ep)\<lparr>c_active := False\<rparr>\<rparr>)
                          else (True, stat_tx len q ep))"

primrec urp_tx_thread_fn ::
    "env \<Rightarrow> interference \<Rightarrow> nat \<Rightarrow> urp_endpoint \<Rightarrow> urp_endpoint option" where
  "urp_tx_thread_fn ev itf 0 ep = None"
| "urp_tx_thread_fn ev itf (Suc n) ep =
    (if ev_kthread_should_stop ev (ep_trace ep) \<or> \<not> c_active (ep_conn ep) then Some ep
     else case urp_tx_iter ev itf ep of
       (True, ep) \<Rightarrow> urp_tx_thread_fn ev itf n ep
     | (False, ep) \<Rightarrow> Some ep)"

definition urp_pump_start :: "env \<Rightarrow> urp_endpoint \<Rightarrow> errno option \<times> urp_endpoint" where
  "urp_pump_start ev ep =
    (let r = ev_kthread_run ev (ep_trace ep); ep = log_ext X_kthread_run ep
     in (r, ep\<lparr>ep_conn := (ep_conn ep)\<lparr>c_tx_thread := (r = None)\<rparr>\<rparr>))"

definition urp_pump_stop :: "urp_endpoint \<Rightarrow> urp_endpoint" where
  "urp_pump_stop ep =
    (let ep = ep\<lparr>ep_conn := (ep_conn ep)\<lparr>c_active := False\<rparr>\<rparr>
     in if c_tx_thread (ep_conn ep)
        then let ep = log_ext X_kthread_stop ep in ep\<lparr>ep_conn := (ep_conn ep)\<lparr>c_tx_thread := False\<rparr>\<rparr>
        else ep)"

definition urp_socket_conn_cleanup :: "urp_endpoint \<Rightarrow> urp_endpoint" where
  "urp_socket_conn_cleanup ep =
    (let sock = c_uds_sock (ep_conn ep)
     in if \<not> c_active (ep_conn ep) \<and> sock = None \<and> \<not> c_tx_thread (ep_conn ep) then ep
        else
          let ep = ep\<lparr>ep_conn := (ep_conn ep)\<lparr>c_active := False\<rparr>\<rparr>;
              ep = (case sock of None \<Rightarrow> ep | Some sk \<Rightarrow> log_ext (X_sock_shutdown sk SHUT_RDWR) ep);
              ep = urp_pump_stop ep
          in case sock of
               None \<Rightarrow> ep
             | Some sk \<Rightarrow> let ep = sock_release sk ep in ep\<lparr>ep_conn := (ep_conn ep)\<lparr>c_uds_sock := None\<rparr>\<rparr>)"

section \<open>The pump of a stream\<close>

definition stream_sock :: "u32 \<Rightarrow> urp_endpoint \<Rightarrow> nat option" where
  "stream_sock sid ep = (case ht_lookup (ep_streams ep) sid of None \<Rightarrow> None | Some s \<Rightarrow> s_uds_sock s)"

text \<open>
  An iteration in its stages.  First a send buffer: when the pool is empty the thread waits once and
  tries again.
\<close>

definition tx_get_buf :: "interference \<Rightarrow> urp_endpoint \<Rightarrow> nat option \<times> urp_endpoint" where
  "tx_get_buf itf ep =
    (case urp_buf_alloc_send ep of
       (Some i, ep) \<Rightarrow> (Some i, ep)
     | (None, ep) \<Rightarrow> urp_buf_alloc_send (itf None (log_ext X_wait_send_wq ep)))"

text \<open>The header, the sequence number and the stamp of a frame just read.\<close>

definition tx_frame ::
    "env \<Rightarrow> u32 \<Rightarrow> bool \<Rightarrow> nat \<Rightarrow> u32 \<Rightarrow> urp_endpoint \<Rightarrow> u32 \<times> urp_endpoint" where
  "tx_frame ev sid send_syn i len ep =
    (let flags = (if send_syn then URP_DATA_FLAG_SYN else 0);
         seq = (case ht_lookup (ep_streams ep) sid of Some s \<Rightarrow> s_tx_seq s | None \<Rightarrow> 0);
         ep = upd_stream sid (\<lambda>s. s\<lparr>s_tx_seq := s_tx_seq s + 1\<rparr>) ep;
         ep = upd_data i (\<lambda>b. urp_frame_encode b sid seq URP_FRAME_TYPE_DATA flags 0 len) ep
     in urp_tx_maybe_stamp ev ep i seq len)"

definition URP_WINDOW_STALL_BUDGET :: nat where "URP_WINDOW_STALL_BUDGET = 50"

definition stream_has_room :: "u32 \<Rightarrow> u32 \<Rightarrow> urp_endpoint \<Rightarrow> bool" where
  "stream_has_room sid len ep =
    (case ht_lookup (ep_streams ep) sid of
       None \<Rightarrow> False
     | Some s \<Rightarrow> urp_window_has_room (s_tx_bytes s) (s_tx_bytes_acked s) (s_window_bytes s) len)"

text \<open>
  The blocking part of the window gate, with the number of waits left: the frame goes on when there
  is room or the waits are used up, and the thread stops when it is told to, when the socket is
  gone or the connection is down.
\<close>

primrec gate_loop ::
    "env \<Rightarrow> interference \<Rightarrow> u32 \<Rightarrow> nat \<Rightarrow> u32 \<Rightarrow> nat \<Rightarrow> urp_endpoint \<Rightarrow> bool \<times> urp_endpoint" where
  "gate_loop ev itf sid i len 0 ep = (True, ep)"
| "gate_loop ev itf sid i len (Suc n) ep =
    (if stream_has_room sid len ep then (True, ep)
     else
       let ep = itf (Some i) (log_ext X_wait_send_wq ep)
       in if ev_kthread_should_stop ev (ep_trace ep) \<or> stream_sock sid ep = None \<or> \<not> ep_connected ep
          then (False, urp_buf_free_send ep i)
          else gate_loop ev itf sid i len n ep)"

definition tx_gate ::
    "env \<Rightarrow> interference \<Rightarrow> u32 \<Rightarrow> nat \<Rightarrow> u32 \<Rightarrow> urp_endpoint \<Rightarrow> bool \<times> urp_endpoint" where
  "tx_gate ev itf sid i len ep =
    (if ep_window_negotiated ep then
       if stream_has_room sid len ep then (True, ep)
       else gate_loop ev itf sid i len URP_WINDOW_STALL_BUDGET (stat_stall ep)
     else
       (True, case ht_lookup (ep_streams ep) sid of
                None \<Rightarrow> ep
              | Some s \<Rightarrow>
                  (case urp_credit_consume (s_credit s) of
                     Inl _ \<Rightarrow> stat_stall ep
                   | Inr cr \<Rightarrow> upd_stream sid (\<lambda>s. s\<lparr>s_credit := cr\<rparr>) ep)))"

datatype tx_next = Tx_continue bool | Tx_stop

definition tx_post ::
    "env \<Rightarrow> u32 \<Rightarrow> nat \<Rightarrow> nat \<Rightarrow> u32 \<Rightarrow> u32 \<Rightarrow> urp_endpoint \<Rightarrow> tx_next \<times> urp_endpoint" where
  "tx_post ev sid q i len tstamp ep =
    (let (ret, ep) = urp_post_frame ev ep (the (q_qp (qps ep ! q))) i (URP_FRAME_HEADER_SIZE + len + tstamp)
     in if ret \<noteq> None then (Tx_stop, ep)
        else (Tx_continue False,
              upd_stream sid (\<lambda>s. s\<lparr>s_tx_bytes := s_tx_bytes s + ucast len\<rparr>) (stat_tx len q ep)))"

definition tx_send ::
    "env \<Rightarrow> interference \<Rightarrow> u32 \<Rightarrow> bool \<Rightarrow> nat \<Rightarrow> u32 \<Rightarrow> urp_endpoint \<Rightarrow> tx_next \<times> urp_endpoint" where
  "tx_send ev itf sid send_syn i len ep =
    (let (tstamp, ep) = tx_frame ev sid send_syn i len ep
     in case urp_qp_select_round_robin ep of
          (None, ep) \<Rightarrow> (Tx_continue False, itf None (urp_buf_free_send ep i))
        | (Some q, ep) \<Rightarrow>
            (case tx_gate ev itf sid i len ep of
               (False, ep) \<Rightarrow> (Tx_stop, ep)
             | (True, ep) \<Rightarrow> tx_post ev sid q i len tstamp ep))"

definition tx_closed :: "u32 \<Rightarrow> nat \<Rightarrow> urp_endpoint \<Rightarrow> urp_endpoint" where
  "tx_closed sid i ep =
    (let ep = urp_stream_tx_fin (urp_buf_free_send ep i) sid;
         ep = upd_stream sid (\<lambda>s. s\<lparr>s_tx_done := True\<rparr>) ep
     in ep\<lparr>ep_pending_reap := ep_pending_reap ep + 1\<rparr>)"

definition urp_stream_tx_iter ::
    "env \<Rightarrow> interference \<Rightarrow> u32 \<Rightarrow> bool \<Rightarrow> urp_endpoint \<Rightarrow> tx_next \<times> urp_endpoint" where
  "urp_stream_tx_iter ev itf sid send_syn ep =
    (if stream_sock sid ep = None then (Tx_stop, ep)
     else case tx_get_buf itf ep of
       (None, ep) \<Rightarrow> (Tx_continue send_syn, ep)
     | (Some i, ep) \<Rightarrow>
         let kvs = urp_frame_fill_kvecs (ep_chunk_size ep) (bf_num_chunks (bufs ep ! i)) (ep_buf_size ep);
             (r, ep) = recvmsg_kvecs ev (itf (Some i) ep) (the (stream_sock sid ep)) i kvs
                         (urp_ep_tx_max_payload (ep_buf_size ep))
         in case r of
              Inl _ \<Rightarrow> (Tx_stop, tx_closed sid i ep)
            | Inr d \<Rightarrow>
                if d = [] then (Tx_stop, tx_closed sid i ep)
                else tx_send ev itf sid send_syn i (of_nat (length d)) ep)"

text \<open>The thread with a bound on its iterations; the result tells whether it has ended.\<close>

primrec urp_stream_tx_fn ::
    "env \<Rightarrow> interference \<Rightarrow> u32 \<Rightarrow> nat \<Rightarrow> bool \<Rightarrow> urp_endpoint \<Rightarrow> bool \<times> urp_endpoint" where
  "urp_stream_tx_fn ev itf sid 0 send_syn ep = (False, ep)"
| "urp_stream_tx_fn ev itf sid (Suc n) send_syn ep =
    (if ev_kthread_should_stop ev (ep_trace ep) then (True, ep)
     else case urp_stream_tx_iter ev itf sid send_syn ep of
       (Tx_stop, ep) \<Rightarrow> (True, ep)
     | (Tx_continue syn, ep) \<Rightarrow> urp_stream_tx_fn ev itf sid n syn ep)"

section \<open>Lost sessions\<close>

definition qp_session_lost :: "nat \<Rightarrow> urp_endpoint \<Rightarrow> urp_endpoint" where
  "qp_session_lost i ep =
    (let ep = upd_qp i (\<lambda>q. q\<lparr>q_established := False\<rparr>) ep;
         ep = ep\<lparr>ep_qps_connected := ep_qps_connected ep - 1\<rparr>
     in if ep_qps_connected ep < ep_num_qps ep \<and> ep_connected ep
        then log_ext (X_cm_done False) (ep\<lparr>ep_connected := False\<rparr>) else ep)"

definition retry_or_fail :: "env \<Rightarrow> nat \<Rightarrow> bool \<Rightarrow> urp_endpoint \<Rightarrow> urp_endpoint" where
  "retry_or_fail ev i cleanup ep =
    (let q = qps ep ! i; sy = ev_sysctl ev
     in if urp_should_retry_connect (ep_is_initiator ep) (q_connect_attempts q) (sy_connect_max_attempts sy)
        then
          let delay = urp_connect_backoff_ms (q_connect_attempts q) (sy_connect_backoff_base_ms sy)
                        (sy_connect_backoff_ceil_ms sy);
              ep = upd_qp i (\<lambda>q. q\<lparr>q_connect_attempts := q_connect_attempts q + 1\<rparr>) ep;
              ep = (if cleanup then urp_socket_conn_cleanup ep else ep)
          in log_ext (X_schedule (W_connect_retry i delay)) ep
        else
          log_ext (X_cm_done True) (ep\<lparr>ep_connect_failed := True, ep_cm_status := Some ETIMEDOUT\<rparr>))"

definition urp_connect_retry_on_silent_drop :: "env \<Rightarrow> nat \<Rightarrow> urp_endpoint \<Rightarrow> urp_endpoint" where
  "urp_connect_retry_on_silent_drop ev i ep =
    (let ep = qp_session_lost i ep in retry_or_fail ev i (q_index (qps ep ! i) = 0) ep)"

section \<open>Probes and grants\<close>

definition ping_missed :: "nat \<Rightarrow> urp_endpoint \<Rightarrow> bool \<times> urp_endpoint" where
  "ping_missed i ep =
    (if q_last_ping_ns (qps ep ! i) = 0 then (False, ep)
     else
       let ep = upd_qp i (\<lambda>q. q\<lparr>q_consecutive_misses := q_consecutive_misses q + 1, q_consecutive_pongs := 0\<rparr>) ep;
           q = qps ep ! i
       in if q_consecutive_misses q \<ge> URP_QP_MISS_THRESHOLD \<and> q_health q = URP_QP_STATE_ACTIVE
          then (urp_silent_drop_should_reconnect (ep_is_initiator ep) (q_established q),
                upd_qp i (\<lambda>q. q\<lparr>q_health := URP_QP_STATE_DRAINING\<rparr>) ep)
          else (False, ep))"

definition urp_emit_ping_on :: "env \<Rightarrow> urp_endpoint \<Rightarrow> nat \<Rightarrow> errno option \<times> urp_endpoint" where
  "urp_emit_ping_on ev ep i =
    (let q = qps ep ! i
     in if \<not> q_established q \<or> q_qp q = None then (None, ep)
        else case ping_missed i ep of
          (True, ep) \<Rightarrow> (None, urp_connect_retry_on_silent_drop ev i ep)
        | (False, ep) \<Rightarrow>
            (case urp_buf_alloc_send ep of
               (None, ep) \<Rightarrow> (Some ENOBUFS, ep)
             | (Some b, ep) \<Rightarrow>
                 let (now_mono, ep) = ktime_get_ns ev ep;
                     (now_real, ep) = ktime_get_real_ns ev ep;
                     ep = upd_qp i (\<lambda>q. q\<lparr>q_probe_seq := q_probe_seq q + 1, q_last_ping_ns := now_mono\<rparr>) ep;
                     pseq = q_probe_seq (qps ep ! i);
                     ep = upd_data b (\<lambda>d. urp_frame_encode d 0 (ucast pseq) URP_FRAME_TYPE_PROBE 0 0
                            URP_PING_PAYLOAD_SIZE) ep;
                     ep = upd_data b (at_off 20 (\<lambda>d. urp_ping_encode d pseq
                            (ucast (q_index (qps ep ! i))) now_mono now_real)) ep
                 in urp_post_frame ev ep (the (q_qp q)) b (URP_FRAME_HEADER_SIZE + URP_PING_PAYLOAD_SIZE)))"

definition URP_PROBE_INTERVAL_MS :: nat where "URP_PROBE_INTERVAL_MS = 250"

definition urp_probe_work_fn :: "env \<Rightarrow> urp_endpoint \<Rightarrow> urp_endpoint" where
  "urp_probe_work_fn ev ep =
    (if \<not> ep_probe_active ep \<or> ep_state ep \<noteq> URP_STATE_ACTIVE then ep
     else
       let ep = (if ep_qps ep \<noteq> None \<and> urp_should_emit_probes (ep_is_initiator ep) (ep_num_qps ep)
                 then fold (\<lambda>i ep. if q_peer_is_fast (qps ep ! i) then ep else snd (urp_emit_ping_on ev ep i))
                        [0..<unat (ep_num_qps ep)] ep
                 else ep)
       in log_ext (X_schedule W_probe) ep)"

definition urp_probe_work_start :: "urp_endpoint \<Rightarrow> urp_endpoint" where
  "urp_probe_work_start ep = log_ext (X_schedule W_probe) (ep\<lparr>ep_probe_active := True\<rparr>)"

definition urp_probe_work_stop :: "urp_endpoint \<Rightarrow> urp_endpoint" where
  "urp_probe_work_stop ep =
    (if ep_probe_active ep then log_ext (X_cancel W_probe) (ep\<lparr>ep_probe_active := False\<rparr>) else ep)"

definition urp_emit_pong_on ::
    "env \<Rightarrow> urp_endpoint \<Rightarrow> nat option \<Rightarrow> bytes \<Rightarrow> errno option \<times> urp_endpoint" where
  "urp_emit_pong_on ev ep qp ping_payload =
    (case qp of None \<Rightarrow> (Some EINVAL, ep)
     | Some qp \<Rightarrow>
         (case urp_buf_alloc_send ep of
            (None, ep) \<Rightarrow> (Some ENOBUFS, ep)
          | (Some b, ep) \<Rightarrow>
              let (t_recv_real, ep) = ktime_get_real_ns ev ep;
                  (t_pong_mono, ep) = ktime_get_ns ev ep;
                  t_pong_real = t_recv_real;
                  ep = upd_data b (\<lambda>d. urp_frame_encode d 0 0 URP_FRAME_TYPE_PROBE URP_PROBE_FLAG_PONG 0
                         URP_PONG_PAYLOAD_SIZE) ep;
                  ep = upd_data b (at_off 20 (\<lambda>d. urp_pong_encode d ping_payload t_recv_real t_pong_mono
                         t_pong_real)) ep
              in urp_post_frame ev ep qp b (URP_FRAME_HEADER_SIZE + URP_PONG_PAYLOAD_SIZE)))"

definition urp_emit_credit_frame ::
    "env \<Rightarrow> urp_endpoint \<Rightarrow> nat \<Rightarrow> u32 \<Rightarrow> u16 \<Rightarrow> errno option \<times> urp_endpoint" where
  "urp_emit_credit_frame ev ep q stream_id grants =
    (case q_qp (qps ep ! q) of
       None \<Rightarrow> (None, ep)
     | Some qp \<Rightarrow>
         if grants = 0 then (None, ep)
         else case urp_buf_alloc_send ep of
           (None, ep) \<Rightarrow> (Some ENOBUFS, stat_stall ep)
         | (Some b, ep) \<Rightarrow>
             let ep = upd_data b (\<lambda>d. urp_frame_encode d stream_id 0 URP_FRAME_TYPE_CONTROL
                        URP_CTRL_FLAG_CREDIT grants 0) ep
             in urp_post_frame ev ep qp b URP_FRAME_HEADER_SIZE)"

definition urp_emit_credit_bytes_frame ::
    "env \<Rightarrow> urp_endpoint \<Rightarrow> nat \<Rightarrow> u32 \<Rightarrow> u64 \<Rightarrow> errno option \<times> urp_endpoint" where
  "urp_emit_credit_bytes_frame ev ep q stream_id cumulative_bytes =
    (case q_qp (qps ep ! q) of
       None \<Rightarrow> (None, ep)
     | Some qp \<Rightarrow>
         (case urp_buf_alloc_send ep of
            (None, ep) \<Rightarrow> (Some ENOBUFS, stat_stall ep)
          | (Some b, ep) \<Rightarrow>
              let ep = upd_data b (\<lambda>d. urp_frame_encode d stream_id 0 URP_FRAME_TYPE_CONTROL
                         URP_CTRL_FLAG_CREDIT_BYTES 0 URP_CREDIT_BYTES_PAYLOAD_SIZE) ep;
                  ep = upd_data b (at_off 20 (\<lambda>d. urp_credit_bytes_encode d cumulative_bytes)) ep
              in urp_post_frame ev ep qp b (URP_FRAME_HEADER_SIZE + URP_CREDIT_BYTES_PAYLOAD_SIZE)))"

section \<open>What a read leaves in a buffer\<close>

lemma kvec_store_loop:
  assumes "\<forall>c\<in>set chunks. length c = unat cs" "j + n = length chunks" "off < cs"
    "length d \<le> unat r" "unat off + length d \<le> length (concat (drop j chunks))"
  defines "w \<equiv> kvec_store chunks (fill_kvecs_loop cs j n off r) d"
  shows "map length w = map length chunks \<and> take j w = take j chunks
    \<and> concat (drop j w) = write_at (concat (drop j chunks)) (unat off) d"
  using assms(1-5) unfolding w_def
proof (induction n arbitrary: chunks j off r d)
  case 0
  then show ?case by simp
next
  case (Suc n)
  show ?case
  proof (cases "r = 0")
    case True
    with Suc.prems show ?thesis by simp
  next
    case False
    define tk where "tk = min r (cs - off)"
    define c where "c = write_at (chunks ! j) (unat off) (take (unat tk) d)"
    define chunks' where "chunks' = chunks[j := c]"
    have j: "j < length chunks" using Suc.prems(2) by simp
    have len: "length (chunks ! j) = unat cs" using Suc.prems(1) j by simp
    have lt: "unat off < unat cs" using Suc.prems(3) by (simp add: word_less_nat_alt)
    have tk: "unat tk = min (unat r) (unat cs - unat off)"
      using Suc.prems(3) by (simp add: tk_def unat_min unat_sub)
    have fit: "unat off + length (take (unat tk) d) \<le> length (chunks ! j)" using len lt tk by simp
    have c: "length c = unat cs" using len length_write_at[OF fit] by (simp only: c_def)
    have dj: "drop j chunks = chunks ! j # drop (Suc j) chunks" using j by (simp add: Cons_nth_drop_Suc)
    have r': "unat (r - tk) = unat r - unat tk" by (intro unat_sub) (simp add: tk_def)
    have all': "\<forall>x\<in>set chunks'. length x = unat cs"
      using Suc.prems(1) c by (auto simp: chunks'_def dest: set_update_subset_insert[THEN subsetD])
    have dr: "drop (Suc j) chunks' = drop (Suc j) chunks" by (simp add: chunks'_def)
    have "unat off + length d \<le> unat cs + length (concat (drop (Suc j) chunks))"
      using Suc.prems(5) len unfolding dj by simp
    then have "length (drop (unat tk) d) \<le> length (concat (drop (Suc j) chunks))"
      using tk Suc.prems(4) by (cases "unat r \<le> unat cs - unat off") auto
    then have IH: "map length (kvec_store chunks' (fill_kvecs_loop cs (Suc j) n 0 (r - tk)) (drop (unat tk) d)) =
        map length chunks'"
      "take (Suc j) (kvec_store chunks' (fill_kvecs_loop cs (Suc j) n 0 (r - tk)) (drop (unat tk) d)) = take (Suc j) chunks'"
      "concat (drop (Suc j) (kvec_store chunks' (fill_kvecs_loop cs (Suc j) n 0 (r - tk)) (drop (unat tk) d))) =
        write_at (concat (drop (Suc j) chunks)) 0 (drop (unat tk) d)"
      using Suc.IH[where chunks = chunks' and j = "Suc j" and off = 0 and r = "r - tk" and d = "drop (unat tk) d"] Suc.prems(2,4) all' lt r' dr
      by (simp_all add: chunks'_def word_less_nat_alt)
    let ?w = "kvec_store chunks' (fill_kvecs_loop cs (Suc j) n 0 (r - tk)) (drop (unat tk) d)"
    have eq: "kvec_store chunks (fill_kvecs_loop cs j (Suc n) off r) d = ?w"
      using False by (simp add: Let_def tk_def[symmetric] c_def[symmetric] chunks'_def[symmetric])
    have ml: "map length ?w = map length chunks"
      using IH(1) len c by (simp add: chunks'_def map_update) (metis len list_update_id nth_map j)
    then have jw: "j < length ?w" using j by (metis length_map)
    have "?w ! j = take (Suc j) ?w ! j" by simp
    also have "\<dots> = c" using IH(2) j by (simp add: chunks'_def)
    finally have dw: "drop j ?w = c # drop (Suc j) ?w" using jw by (metis Cons_nth_drop_Suc)
    have "take j ?w = take j (take (Suc j) ?w)" by simp
    also have "\<dots> = take j chunks" using IH(2) by (simp add: chunks'_def)
    finally have tw: "take j ?w = take j chunks" .
    have "concat (drop j ?w) = write_at (concat (drop j chunks)) (unat off) d"
    proof (cases "length d \<le> unat tk")
      case True
      then have "write_at (chunks ! j) (unat off) d @ concat (drop (Suc j) chunks) =
          write_at (chunks ! j @ concat (drop (Suc j) chunks)) (unat off) d"
        using fit by (intro write_at_concat_head) simp
      with True IH(3) show ?thesis unfolding dw unfolding dj by (simp add: c_def)
    next
      case False
      then have tk': "unat tk = unat cs - unat off" using tk Suc.prems(4) by simp
      have "write_at (chunks ! j) (unat off) (take (unat tk) d) @
          write_at (concat (drop (Suc j) chunks)) 0 (drop (unat tk) d) =
          write_at (chunks ! j @ concat (drop (Suc j) chunks)) (unat off) (take (unat tk) d @ drop (unat tk) d)"
        using False tk' len lt \<open>length (drop (unat tk) d) \<le> _\<close> by (intro write_at_concat_split) simp_all
      then show ?thesis using IH(3) unfolding dw unfolding dj by (simp add: c_def)
    qed
    then show ?thesis using ml tw unfolding eq by blast
  qed
qed

text \<open>The bytes of a data frame, and those of the frames a stream's thread may post.\<close>

definition data_frame :: "u32 \<Rightarrow> u64 \<Rightarrow> u8 \<Rightarrow> bytes \<Rightarrow> bytes" where
  "data_frame sid seq fl d = frame_header sid seq URP_FRAME_TYPE_DATA fl 0 (of_nat (length d)) @ d"

definition is_tx_frame :: "u32 \<Rightarrow> u64 \<Rightarrow> bool \<Rightarrow> bytes \<Rightarrow> bytes \<Rightarrow> bool" where
  "is_tx_frame sid seq syn d fr \<longleftrightarrow>
    (let fl = (if syn then URP_DATA_FLAG_SYN else 0)
     in fr = data_frame sid seq fl d \<or>
        (\<exists>t :: u64. fr = data_frame sid seq (fl OR URP_DATA_FLAG_TSTAMP) d @ le_bytes 8 t))"

definition pages_ok :: "u32 \<Rightarrow> nat \<Rightarrow> bytes list \<Rightarrow> bool" where
  "pages_ok cs n pages \<longleftrightarrow> length pages = n \<and> (\<forall>c\<in>set pages. length c = unat cs)"

definition geom_ok :: "u32 \<Rightarrow> u32 \<Rightarrow> nat \<Rightarrow> bool" where
  "geom_ok bs cs n \<longleftrightarrow> 68 \<le> unat bs \<and> unat bs \<le> 2 ^ 20 \<and> unat bs \<le> n * unat cs \<and> 0 < n \<and> 20 < unat cs"

lemma pages_okD:
  assumes "pages_ok cs n pages"
  shows "length pages = n" "i < n \<Longrightarrow> length (pages ! i) = unat cs" "length (concat pages) = n * unat cs"
proof -
  have "map length pages = replicate n (unat cs)"
    using assms by (auto simp: pages_ok_def intro: nth_equalityI)
  then show "length (concat pages) = n * unat cs" by (simp add: length_concat sum_list_replicate)
qed (use assms in \<open>auto simp: pages_ok_def\<close>)

lemma pages_ok_map: "map length q = map length p \<Longrightarrow> pages_ok cs n p \<Longrightarrow> pages_ok cs n q"
  by (metis (no_types, lifting) pages_ok_def in_set_conv_nth length_map nth_map)

lemma concat_update_head:
  assumes "p \<noteq> []" "0 + length h \<le> length (p ! 0)"
  shows "concat (p[0 := write_at (p ! 0) 0 h]) = write_at (concat p) 0 h"
  using assms by (cases p) (simp_all add: write_at_concat_head)

lemma fill_pages:
  assumes "pages_ok cs n p" "geom_ok bs cs n" "length d \<le> unat (urp_ep_max_payload bs)"
  defines "q \<equiv> kvec_store p (urp_frame_fill_kvecs cs n bs) d"
  shows "pages_ok cs n q" "concat q = write_at (concat p) 20 d"
proof -
  have l: "unat (urp_ep_max_payload bs) = unat bs - 20"
    using assms(2) by (intro tx_max_payload_bounds) (simp add: geom_ok_def)
  have "map length q = map length p \<and> take 0 q = take 0 p
      \<and> concat (drop 0 q) = write_at (concat (drop 0 p)) (unat (20 :: u32)) d"
    unfolding q_def urp_frame_fill_kvecs_def urp_frame_fill_kvecs_len_def frame_consts
    using assms(1-3) pages_okD[OF assms(1)] l
    by (intro kvec_store_loop) (auto simp: pages_ok_def geom_ok_def word_less_nat_alt)
  then show "pages_ok cs n q" "concat q = write_at (concat p) 20 d"
    using pages_ok_map[OF _ assms(1)] by simp_all
qed

lemma head_pages:
  fixes sid pl :: u32 and seq :: u64 and ty fl :: u8 and cr :: u16
  assumes "pages_ok cs n p" "geom_ok bs cs n"
  defines "q \<equiv> p[0 := urp_frame_encode (p ! 0) sid seq ty fl cr pl]"
  shows "pages_ok cs n q" "concat q = write_at (concat p) 0 (frame_header sid seq ty fl cr pl)"
proof -
  have "0 < n" "20 \<le> length (p ! 0)" "p \<noteq> []"
    using assms(2) pages_okD[OF assms(1)] by (auto simp: geom_ok_def)
  then show "concat q = write_at (concat p) 0 (frame_header sid seq ty fl cr pl)"
    by (simp add: q_def urp_frame_encode_layout concat_update_head)
  show "pages_ok cs n q"
    using \<open>20 \<le> _\<close> \<open>0 < n\<close> pages_okD[OF assms(1)] assms(1)
    by (intro pages_ok_map[OF _ assms(1)]) (simp add: q_def map_update list_update_same_conv)
qed

lemma stamp_flags:
  assumes "20 \<le> length b"
  shows "put_u8 (get_u8 (write_at b 0 (frame_header sid seq ty fl cr pl)) 13 OR x)
      (write_at b 0 (frame_header sid seq ty fl cr pl)) 13 =
    write_at b 0 (frame_header sid seq ty (fl OR x) cr pl)"
proof -
  have "get_u8 (write_at b 0 (frame_header sid seq ty fl cr pl)) 13 = fl"
    using urp_frame_decode_encode(4)[OF assms, of sid seq ty fl cr pl]
    by (simp add: urp_frame_decode_flags_def urp_frame_encode_layout[OF assms])
  then show ?thesis
    using assms by (simp add: field_puts) (simp add: write_at_def frame_header_def)
qed

section \<open>What the thread of a stream leaves in the trace\<close>

definition is_data_of :: "u32 \<Rightarrow> bytes \<Rightarrow> bool" where
  "is_data_of sid fr \<longleftrightarrow> 20 \<le> length fr \<and> urp_frame_decode_type fr = URP_FRAME_TYPE_DATA
     \<and> urp_frame_decode_stream_id fr = sid"

definition reads :: "nat \<Rightarrow> ext list \<Rightarrow> bytes list" where
  "reads sk tr = concat (map (\<lambda>x. case x of X_recvmsg k d \<Rightarrow> if k = sk \<and> d \<noteq> [] then [d] else [] | _ \<Rightarrow> []) tr)"

definition frames :: "u32 \<Rightarrow> ext list \<Rightarrow> bytes list" where
  "frames sid tr = concat (map (\<lambda>x. case x of X_post_send q b fr \<Rightarrow> if is_data_of sid fr then [fr] else [] | _ \<Rightarrow> []) tr)"

lemma reads_simps [simp]:
  "reads sk [] = []" "reads sk (a @ b) = reads sk a @ reads sk b"
  by (simp_all add: reads_def)

lemma frames_simps [simp]:
  "frames sid [] = []" "frames sid (a @ b) = frames sid a @ frames sid b"
  by (simp_all add: frames_def)

text \<open>
  The geometry of the pool, the stream and its socket, and whether all queue pairs are up; a state in
  which the stream is at a sequence number, and the reads and frames recorded so far; and other
  threads that leave this stream's transmit side alone.
\<close>

definition all_up :: "urp_endpoint \<Rightarrow> bool" where
  "all_up ep \<longleftrightarrow> ep_qps ep \<noteq> None \<and> ep_num_qps ep \<noteq> 0 \<and>
     length (qps ep) = unat (ep_num_qps ep) \<and> (\<forall>q\<in>set (qps ep). qp_usable q)"

record tx_conf =
  t_bs :: u32
  t_cs :: u32
  t_n :: nat
  t_len :: nat
  t_sid :: u32
  t_sk :: nat
  t_up :: bool

definition tx_at :: "tx_conf \<Rightarrow> u64 \<Rightarrow> bytes list \<Rightarrow> bytes list \<Rightarrow> urp_endpoint \<Rightarrow> bool" where
  "tx_at g seq rs fs ep \<longleftrightarrow>
     ep_buf_size ep = t_bs g \<and> ep_chunk_size ep = t_cs g \<and>
     (\<exists>b. ep_bufs ep = Some b \<and> length b = t_len g \<and> (\<forall>i < t_len g. pages_ok (t_cs g) (t_n g) (bf_pages (b ! i)))) \<and>
     (\<forall>i\<in>set (ep_send_free ep). i < t_len g) \<and>
     (\<exists>s. ht_lookup (ep_streams ep) (t_sid g) = Some s \<and> s_tx_seq s = seq \<and> s_uds_sock s = Some (t_sk g)) \<and>
     reads (t_sk g) (ep_trace ep) = rs \<and> frames (t_sid g) (ep_trace ep) = fs \<and>
     (\<forall>d\<in>set rs. length d \<le> unat (t_bs g) - 28) \<and>
     (t_up g \<longrightarrow> all_up ep)"

definition undisturbed :: "tx_conf \<Rightarrow> interference \<Rightarrow> bool" where
  "undisturbed g itf \<longleftrightarrow> (\<forall>h ep seq rs fs. tx_at g seq rs fs ep \<longrightarrow>
     tx_at g seq rs fs (itf h ep) \<and> (\<forall>i. h = Some i \<longrightarrow> bufs (itf h ep) ! i = bufs ep ! i))"

lemma tx_at_pages: "tx_at g seq rs fs ep \<Longrightarrow> i < t_len g \<Longrightarrow> pages_ok (t_cs g) (t_n g) (bf_pages (bufs ep ! i))"
  by (auto simp: tx_at_def)

lemma tx_at_sock: "tx_at g seq rs fs ep \<Longrightarrow> stream_sock (t_sid g) ep = Some (t_sk g)"
  by (auto simp: tx_at_def stream_sock_def)

lemma tx_at_cong:
  assumes "tx_at g seq rs fs ep" "ep_buf_size ep' = ep_buf_size ep" "ep_chunk_size ep' = ep_chunk_size ep"
    "ep_bufs ep' = ep_bufs ep" "ep_send_free ep' = ep_send_free ep" "ep_streams ep' = ep_streams ep"
    "ep_trace ep' = ep_trace ep" "ep_qps ep' = ep_qps ep" "ep_num_qps ep' = ep_num_qps ep"
  shows "tx_at g seq rs fs ep'"
  using assms by (simp add: tx_at_def all_up_def)

lemma tx_at_log:
  "tx_at g seq rs fs ep \<Longrightarrow> reads (t_sk g) [x] = [] \<Longrightarrow> frames (t_sid g) [x] = [] \<Longrightarrow> tx_at g seq rs fs (log_ext x ep)"
  by (simp add: tx_at_def all_up_def log_ext_def)

lemma tx_at_alloc:
  assumes "tx_at g seq rs fs ep" "urp_buf_alloc_send ep = (r, ep')"
  shows "tx_at g seq rs fs ep'" "r = Some i \<Longrightarrow> i < t_len g" "ep_bufs ep' = ep_bufs ep"
  using assms by (auto simp: urp_buf_alloc_send_def tx_at_def all_up_def split: list.splits)

lemma tx_at_free: "tx_at g seq rs fs ep \<Longrightarrow> i < t_len g \<Longrightarrow> tx_at g seq rs fs (urp_buf_free_send ep i)"
  unfolding urp_buf_free_send_def
  by (rule tx_at_log) (auto simp: tx_at_def all_up_def reads_def frames_def)

lemma tx_at_upd_stream:
  assumes "tx_at g seq rs fs ep" "\<And>s. s_tx_seq (f s) = s_tx_seq s + w" "\<And>s. s_uds_sock (f s) = s_uds_sock s"
  shows "tx_at g (seq + w) rs fs (upd_stream (t_sid g) f ep)"
  using assms by (auto simp: tx_at_def all_up_def upd_stream_def ht_lookup_update)

lemma tx_at_upd_stream_other:
  assumes "tx_at g seq rs fs ep" "\<And>s. s_tx_seq (f s) = s_tx_seq s" "\<And>s. s_uds_sock (f s) = s_uds_sock s"
  shows "tx_at g seq rs fs (upd_stream (t_sid g) f ep)"
  using tx_at_upd_stream[where w = 0] assms by simp

lemma tx_at_upd_buf:
  assumes "tx_at g seq rs fs ep"
    "pages_ok (t_cs g) (t_n g) (bf_pages (bufs ep ! i)) \<Longrightarrow> pages_ok (t_cs g) (t_n g) (bf_pages (f (bufs ep ! i)))"
  shows "tx_at g seq rs fs (upd_buf i f ep)"
  using assms by (cases "i < t_len g") (auto simp: tx_at_def all_up_def upd_buf_def nth_list_update)

lemma bufs_upd_buf: "tx_at g seq rs fs ep \<Longrightarrow> i < t_len g \<Longrightarrow> bufs (upd_buf i f ep) ! i = f (bufs ep ! i)"
  by (auto simp: tx_at_def upd_buf_def)

lemma tx_at_stall: "tx_at g seq rs fs ep \<Longrightarrow> tx_at g seq rs fs (stat_stall ep)"
  by (erule tx_at_cong) (simp_all add: stat_stall_def upd_stats_def)

lemma all_up_upd_qp:
  assumes "all_up ep" "\<And>q. qp_usable q \<Longrightarrow> qp_usable (f q)"
  shows "all_up (upd_qp i f ep)"
proof -
  obtain qs where qs: "ep_qps ep = Some qs" using assms(1) by (auto simp: all_up_def)
  have "\<forall>q\<in>set (qs[i := f (qs ! i)]). qp_usable q"
  proof (cases "i < length qs")
    case True
    then show ?thesis
      using assms qs by (auto simp: all_up_def dest!: set_update_subset_insert[THEN subsetD])
  next
    case False
    then have "qs[i := f (qs ! i)] = qs" by (intro list_update_beyond) simp
    then show ?thesis using assms(1) qs by (simp add: all_up_def)
  qed
  then show ?thesis using assms(1) qs by (simp add: all_up_def upd_qp_def)
qed

lemma tx_at_stat_tx: "tx_at g seq rs fs ep \<Longrightarrow> tx_at g seq rs fs (stat_tx l q ep)"
proof -
  assume a: "tx_at g seq rs fs ep"
  define ep1 where "ep1 = upd_stats (\<lambda>st. st\<lparr>stat_tx_bytes := stat_tx_bytes st + ucast l, stat_tx_frames := stat_tx_frames st + 1\<rparr>) ep"
  have 1: "tx_at g seq rs fs ep1" by (rule tx_at_cong[OF a]) (simp_all add: ep1_def upd_stats_def)
  then have "t_up g \<longrightarrow> all_up (stat_tx l q ep)"
    unfolding stat_tx_def ep1_def[symmetric] by (auto intro!: all_up_upd_qp simp: tx_at_def) (simp add: qp_usable_def)
  then show ?thesis using 1 unfolding stat_tx_def ep1_def[symmetric] by (simp add: tx_at_def upd_qp_def)
qed

lemma select_frame:
  assumes "urp_qp_select_round_robin ep = (r, ep')"
  shows "\<exists>c. ep' = ep\<lparr>ep_rr_counter := c\<rparr>"
proof -
  have "\<exists>c. ep' = ep\<lparr>ep_rr_counter := c\<rparr>" if "select_loop m ep = (r, ep')" for m
    using that unfolding select_loop_find by (auto split: option.splits)
  moreover have "\<exists>c. ep = ep\<lparr>ep_rr_counter := c\<rparr>" by (rule exI[of _ "ep_rr_counter ep"]) simp
  ultimately show ?thesis using assms by (auto simp: urp_qp_select_round_robin_def split: if_splits)
qed

lemma tx_at_select: "tx_at g seq rs fs ep \<Longrightarrow> urp_qp_select_round_robin ep = (r, ep') \<Longrightarrow>
    tx_at g seq rs fs ep' \<and> ep_bufs ep' = ep_bufs ep"
  using select_frame[of ep r ep'] tx_at_cong[of g seq rs fs ep ep'] by auto

lemma recv_stage:
  assumes "tx_at g seq rs fs ep" "geom_ok (t_bs g) (t_cs g) (t_n g)" "i < t_len g"
    and "recvmsg_kvecs ev ep (t_sk g) i (urp_frame_fill_kvecs (t_cs g) (t_n g) (t_bs g))
           (urp_ep_tx_max_payload (t_bs g)) = (r, ep')"
  shows "case r of Inl _ \<Rightarrow> tx_at g seq rs fs ep'
    | Inr d \<Rightarrow> tx_at g seq (if d = [] then rs else rs @ [d]) fs ep' \<and> length d \<le> unat (t_bs g) - 28 \<and>
        take (length d) (drop 20 (concat (bf_pages (bufs ep' ! i)))) = d"
proof (cases "ev_recvmsg ev (ep_trace ep)")
  case (Inl e)
  then have "r = Inl e" "ep' = log_ext (X_recvmsg_fail (t_sk g)) ep" using assms(4) by (simp_all add: recvmsg_kvecs_def)
  then show ?thesis using assms(1) by (simp add: tx_at_log reads_def frames_def)
next
  case (Inr d0)
  define d where "d = take (unat (urp_ep_tx_max_payload (t_bs g))) d0"
  define ep1 where "ep1 = upd_buf i (\<lambda>b. b\<lparr>bf_pages := kvec_store (bf_pages b)
      (urp_frame_fill_kvecs (t_cs g) (t_n g) (t_bs g)) d\<rparr>) ep"
  have r: "r = Inr d" "ep' = log_ext (X_recvmsg (t_sk g) d) ep1"
    using assms(4) Inr by (simp_all add: recvmsg_kvecs_def d_def ep1_def Let_def)
  have pl: "unat (urp_ep_max_payload (t_bs g)) = unat (t_bs g) - 20"
      "unat (urp_ep_tx_max_payload (t_bs g)) = unat (t_bs g) - 28"
    using assms(2) by (simp_all add: tx_max_payload_bounds geom_ok_def)
  have ld: "length d \<le> unat (t_bs g) - 28" by (simp add: d_def pl)
  then have ld': "length d \<le> unat (urp_ep_max_payload (t_bs g))" by (simp add: pl)
  note ok = tx_at_pages[OF assms(1,3)]
  note fill = fill_pages[OF ok assms(2) ld']
  have "tx_at g seq rs fs ep1" unfolding ep1_def using fill(1) by (intro tx_at_upd_buf[OF assms(1)]) simp
  then have "tx_at g seq (if d = [] then rs else rs @ [d]) fs ep'"
    unfolding r using ld by (simp add: tx_at_def all_up_def log_ext_def) (auto simp: reads_def frames_def)
  moreover have "bf_pages (bufs ep' ! i) = kvec_store (bf_pages (bufs ep ! i))
      (urp_frame_fill_kvecs (t_cs g) (t_n g) (t_bs g)) d"
    using bufs_upd_buf[OF assms(1,3)] unfolding r by (simp add: log_ext_def ep1_def)
  moreover have "20 + length d \<le> length (concat (bf_pages (bufs ep ! i)))"
    unfolding pages_okD(3)[OF ok] using ld assms(2) unfolding geom_ok_def by linarith
  ultimately show ?thesis using ld fill(2) unfolding r by simp
qed

lemma is_tx_frame_data: "is_tx_frame sid seq syn d fr \<Longrightarrow> is_data_of sid fr"
proof -
  assume a: "is_tx_frame sid seq syn d fr"
  have "is_data_of sid (frame_header sid seq URP_FRAME_TYPE_DATA fl 0 pl @ x)" for fl pl x
  proof -
    have "urp_frame_encode (replicate 20 0 @ x) sid seq URP_FRAME_TYPE_DATA fl 0 pl =
        frame_header sid seq URP_FRAME_TYPE_DATA fl 0 pl @ x"
      by (simp add: urp_frame_encode_layout write_at_def)
    then show ?thesis
      using urp_frame_decode_encode(1,3)[of "replicate 20 0 @ x" sid seq URP_FRAME_TYPE_DATA fl 0 pl]
      by (simp add: is_data_of_def)
  qed
  then show ?thesis using a by (auto simp: is_tx_frame_def data_frame_def Let_def)
qed

lemma gate_loop_stage:
  assumes "undisturbed g itf" "i < t_len g" "tx_at g seq rs fs ep"
    "gate_loop ev itf (t_sid g) i len m ep = (ok, ep')"
  shows "tx_at g seq rs fs ep' \<and> bufs ep' ! i = bufs ep ! i"
  using assms(3,4)
proof (induction m arbitrary: ep)
  case (Suc m)
  define ep1 where "ep1 = itf (Some i) (log_ext X_wait_send_wq ep)"
  have "tx_at g seq rs fs (log_ext X_wait_send_wq ep)"
    using Suc.prems(1) by (rule tx_at_log) (simp_all add: reads_def frames_def)
  then have 1: "tx_at g seq rs fs ep1" "bufs ep1 ! i = bufs ep ! i"
    using assms(1) by (auto simp: undisturbed_def ep1_def log_ext_def)
  have "tx_at g seq rs fs (urp_buf_free_send ep1 i)" "ep_bufs (urp_buf_free_send ep1 i) = ep_bufs ep1"
    using tx_at_free[OF 1(1) assms(2)] by (simp_all add: urp_buf_free_send_def log_ext_def)
  then show ?case
    using Suc.IH[OF 1(1)] 1 Suc.prems by (auto simp: ep1_def[symmetric] Let_def split: if_splits)
qed simp

lemma gate_stage:
  assumes "undisturbed g itf" "i < t_len g" "tx_at g seq rs fs ep"
    "tx_gate ev itf (t_sid g) i len ep = (ok, ep')"
  shows "tx_at g seq rs fs ep' \<and> bufs ep' ! i = bufs ep ! i"
proof -
  have st: "bufs (stat_stall ep) = bufs ep" by (simp add: stat_stall_def upd_stats_def)
  have us: "tx_at g seq rs fs (upd_stream (t_sid g) (\<lambda>s. s\<lparr>s_credit := cr\<rparr>) ep)"
      "bufs (upd_stream (t_sid g) (\<lambda>s. s\<lparr>s_credit := cr\<rparr>) ep) = bufs ep" for cr
    by (rule tx_at_upd_stream_other[OF assms(3)]) (simp_all add: upd_stream_def)
  show ?thesis
    using assms(4) assms(3) gate_loop_stage[OF assms(1,2) tx_at_stall[OF assms(3)]] st us tx_at_stall[OF assms(3)]
    by (auto simp: tx_gate_def split: if_splits option.splits sum.splits)
qed

lemma post_stage:
  assumes "tx_at g seq rs fs ep" "i < t_len g"
    and "is_tx_frame (t_sid g) sq syn d (take (unat (URP_FRAME_HEADER_SIZE + len + ts)) (concat (bf_pages (bufs ep ! i))))"
    and "tx_post ev (t_sid g) q i len ts ep = (nx, ep')"
  shows "nx = Tx_stop \<and> tx_at g seq rs fs ep' \<or>
    nx = Tx_continue False \<and> (\<exists>fr. is_tx_frame (t_sid g) sq syn d fr \<and> tx_at g seq rs (fs @ [fr]) ep')"
proof -
  define fr where "fr = take (unat (URP_FRAME_HEADER_SIZE + len + ts)) (concat (bf_pages (bufs ep ! i)))"
  define lens where "lens = post_frame_sges (ep_chunk_size ep) (bf_num_chunks (bufs ep ! i)) (URP_FRAME_HEADER_SIZE + len + ts)"
  define ep1 where "ep1 = upd_buf i (\<lambda>b. b\<lparr>bf_sge_len := lens @ drop (length lens) (bf_sge_len b)\<rparr>) ep"
  have cs: "ep_chunk_size ep = t_cs g" using assms(1) by (simp add: tx_at_def)
  have "\<forall>c\<in>set (bf_pages (bufs ep ! i)). length c = unat (t_cs g)"
    using tx_at_pages[OF assms(1,2)] by (simp add: pages_ok_def)
  from post_frame_sges_bytes[OF this, of "URP_FRAME_HEADER_SIZE + len + ts"]
  have bytes: "sge_bytes (bf_pages (bufs ep ! i)) lens = fr" by (simp add: lens_def fr_def cs)
  have 1: "tx_at g seq rs fs ep1" unfolding ep1_def by (rule tx_at_upd_buf[OF assms(1)]) simp
  note isf = assms(3)[folded fr_def]
  show ?thesis
  proof (cases "ev_post_send ev (ep_trace ep1)")
    case None
    define qp where "qp = the (q_qp (qps ep ! q))"
    define ep2 where "ep2 = log_ext (X_post_send qp i fr) ep1"
    have 2: "tx_at g seq rs (fs @ [fr]) ep2"
      using 1 is_tx_frame_data[OF isf] by (simp add: ep2_def tx_at_def all_up_def log_ext_def) (simp add: reads_def frames_def)
    have nx: "nx = Tx_continue False" "ep' = upd_stream (t_sid g) (\<lambda>s. s\<lparr>s_tx_bytes := s_tx_bytes s + ucast len\<rparr>) (stat_tx len q ep2)"
      using assms(4) None bytes
      by (simp_all add: tx_post_def urp_post_frame_def lens_def[symmetric] ep1_def[symmetric] urp_post_frame_sg_def
          ep2_def Let_def qp_def)
    have "tx_at g seq rs (fs @ [fr]) ep'"
      unfolding nx by (rule tx_at_upd_stream_other[OF tx_at_stat_tx[OF 2]]) simp_all
    then show ?thesis using nx(1) isf by blast
  next
    case (Some e)
    have "nx = Tx_stop" "ep' = urp_buf_free_send (log_ext (X_post_send_fail (the (q_qp (qps ep ! q))) i) ep1) i"
      using assms(4) Some bytes
      by (simp_all add: tx_post_def urp_post_frame_def lens_def[symmetric] ep1_def[symmetric] urp_post_frame_sg_def
          Let_def)
    then show ?thesis using 1 assms(2) by (simp add: tx_at_free tx_at_log reads_def frames_def)
  qed
qed

lemma take_frame:
  assumes "length h = 20" "take (length d) (drop 20 b) = d" "20 + length d \<le> length b"
  shows "take (20 + length d) (write_at b 0 h) = h @ d"
  using assms by (simp add: write_at_def)

lemma take_trailer:
  assumes "length h = 20" "take (length d) (drop 20 b) = d" "20 + length d + length tr \<le> length b"
  shows "take (20 + length d + length tr) (write_at (write_at b 0 h) (20 + length d) tr) = h @ d @ tr"
proof -
  have "take (20 + length d) (write_at b 0 h) = h @ d" using assms by (intro take_frame) simp_all
  then show ?thesis using assms unfolding write_at_def[of "write_at b 0 h"] by simp
qed

lemma tx_at_upd_data:
  assumes "tx_at g seq rs fs ep" "i < t_len g" "length (f (bf_data (bufs ep ! i))) = length (bf_data (bufs ep ! i))"
  shows "tx_at g seq rs fs (upd_data i f ep)"
    "bf_pages (bufs (upd_data i f ep) ! i) = (bf_pages (bufs ep ! i))[0 := f (bf_data (bufs ep ! i))]"
proof -
  have "map length ((bf_pages (bufs ep ! i))[0 := f (bf_data (bufs ep ! i))]) = map length (bf_pages (bufs ep ! i))"
    using assms(3) by (cases "bf_pages (bufs ep ! i)") simp_all
  then show "tx_at g seq rs fs (upd_data i f ep)"
    unfolding upd_data_def by (intro tx_at_upd_buf[OF assms(1)]) (simp add: pages_ok_map)
  show "bf_pages (bufs (upd_data i f ep) ! i) = (bf_pages (bufs ep ! i))[0 := f (bf_data (bufs ep ! i))]"
    using bufs_upd_buf[OF assms(1,2)] by (simp add: upd_data_def)
qed

lemma tx_at_clock: "tx_at g seq rs fs ep \<Longrightarrow> ktime_get_real_ns ev ep = (t, ep') \<Longrightarrow> tx_at g seq rs fs ep' \<and> bufs ep' = bufs ep"
  by (auto simp: ktime_get_real_ns_def intro!: tx_at_log) (simp_all add: reads_def frames_def log_ext_def)

text \<open>A single page holds the whole slot, so a stamp behind the payload stays inside it.\<close>

lemma stamp_stage:
  assumes "tx_at g seq rs fs ep" "geom_ok (t_bs g) (t_cs g) (t_n g)" "i < t_len g"
    and "length d \<le> unat (t_bs g) - 28" "take (length d) (drop 20 b) = d"
    and "bf_pages (bufs ep ! i) = p[0 := write_at (p ! 0) 0 (frame_header sid sq ty fl 0 (of_nat (length d)))]"
    and "pages_ok (t_cs g) (t_n g) p" "b = concat p"
    and "urp_tx_maybe_stamp ev ep i sq (of_nat (length d)) = (ts, ep')"
  shows "tx_at g seq rs fs ep' \<and> ((ts = 0 \<and> take (20 + length d) (concat (bf_pages (bufs ep' ! i))) = frame_header sid sq ty fl 0 (of_nat (length d)) @ d)
    \<or> (ts = 8 \<and> (\<exists>t :: u64. take (28 + length d) (concat (bf_pages (bufs ep' ! i))) =
         frame_header sid sq ty (fl OR URP_DATA_FLAG_TSTAMP) 0 (of_nat (length d)) @ d @ le_bytes 8 t)))"
proof (cases "ts = 0 \<and> ep' = ep")
  case True
  have g: "0 < t_n g" "20 < unat (t_cs g)" "unat (t_bs g) \<le> t_n g * unat (t_cs g)" "68 \<le> unat (t_bs g)"
    using assms(2) by (simp_all add: geom_ok_def)
  have "concat (bf_pages (bufs ep ! i)) = write_at b 0 (frame_header sid sq ty fl 0 (of_nat (length d)))"
    unfolding assms(6,8) using g pages_okD[OF assms(7)] by (intro concat_update_head) auto
  moreover have "20 + length d \<le> length b" unfolding assms(8) pages_okD(3)[OF assms(7)] using g assms(4) by linarith
  ultimately show ?thesis using True assms(1) take_frame[OF length_frame_header assms(5)] by simp
next
  case False
  let ?h = "\<lambda>fl. frame_header sid sq ty fl 0 (of_nat (length d) :: u32)"
  have g: "68 \<le> unat (t_bs g)" "unat (t_bs g) \<le> 2 ^ 20" "unat (t_bs g) \<le> t_n g * unat (t_cs g)" "20 < unat (t_cs g)"
    using assms(2) by (simp_all add: geom_ok_def)
  have one: "length (bf_pages (bufs ep ! i)) = 1"
    using assms(9) False by (auto simp: urp_tx_maybe_stamp_def Let_def split: if_splits)
  then obtain c where c: "p = [c]" using assms(6) by (cases p) auto
  then have n: "t_n g = 1" "length c = unat (t_cs g)" using assms(7) by (auto simp: pages_ok_def)
  have d: "bf_data (bufs ep ! i) = write_at c 0 (?h fl)" using assms(6) c by simp
  have lc: "20 + length d + 8 \<le> length c" using g n assms(4) by simp
  define ep1 where "ep1 = upd_data i (\<lambda>d. put_u8 (get_u8 d 13 OR URP_DATA_FLAG_TSTAMP) d 13) ep"
  have 1: "tx_at g seq rs fs ep1" "bf_pages (bufs ep1 ! i) = [write_at c 0 (?h (fl OR URP_DATA_FLAG_TSTAMP))]"
  proof -
    have "length (put_u8 (get_u8 (bf_data (bufs ep ! i)) 13 OR URP_DATA_FLAG_TSTAMP) (bf_data (bufs ep ! i)) 13) =
        length (bf_data (bufs ep ! i))"
      unfolding d using lc by (subst stamp_flags) simp_all
    from tx_at_upd_data[where f = "\<lambda>d. put_u8 (get_u8 d 13 OR URP_DATA_FLAG_TSTAMP) d 13", OF assms(1,3) this]
    show "tx_at g seq rs fs ep1" "bf_pages (bufs ep1 ! i) = [write_at c 0 (?h (fl OR URP_DATA_FLAG_TSTAMP))]"
      using lc assms(6) c unfolding d by (simp_all add: ep1_def stamp_flags)
  qed
  obtain t ep2 where clk: "ktime_get_real_ns ev ep1 = (t, ep2)" by force
  note 2 = tx_at_clock[OF 1(1) clk]
  have off: "unat (URP_FRAME_HEADER_SIZE + (of_nat (length d) :: u32)) = 20 + length d"
    using assms(4) g by (simp add: frame_consts unat_of_nat unat_word_ariths)
  define ep3 where "ep3 = upd_data i (\<lambda>b. urp_frame_tstamp_encode b (unat (URP_FRAME_HEADER_SIZE + (of_nat (length d) :: u32))) t) ep2"
  have e: "ts = 8" "ep' = ep3"
    using assms(9) False clk
    by (auto simp: urp_tx_maybe_stamp_def Let_def ep1_def ep3_def URP_TSTAMP_TRAILER_LEN_def split: if_splits)
  have dat: "bf_data (bufs ep2 ! i) = write_at c 0 (?h (fl OR URP_DATA_FLAG_TSTAMP))" using 1(2) 2 by simp
  have put: "urp_frame_tstamp_encode (write_at c 0 (?h (fl OR URP_DATA_FLAG_TSTAMP))) (20 + length d) t =
      write_at (write_at c 0 (?h (fl OR URP_DATA_FLAG_TSTAMP))) (20 + length d) (le_bytes 8 t)"
    by (simp add: urp_frame_tstamp_encode_def field_puts del: le_bytes_numeral)
  have len: "length (urp_frame_tstamp_encode (bf_data (bufs ep2 ! i)) (unat (URP_FRAME_HEADER_SIZE + (of_nat (length d) :: u32))) t)
      = length (bf_data (bufs ep2 ! i))"
    unfolding dat off put using lc by simp
  note 3 = tx_at_upd_data[where f = "\<lambda>b. urp_frame_tstamp_encode b (unat (URP_FRAME_HEADER_SIZE + (of_nat (length d) :: u32))) t",
      OF conjunct1[OF 2] assms(3) len]
  have "bf_pages (bufs ep3 ! i) = [write_at (write_at c 0 (?h (fl OR URP_DATA_FLAG_TSTAMP))) (20 + length d) (le_bytes 8 t)]"
    using 3(2) 1(2) 2 unfolding ep3_def dat off put by simp
  moreover have "take (20 + length d + 8) (write_at (write_at c 0 (?h (fl OR URP_DATA_FLAG_TSTAMP))) (20 + length d) (le_bytes 8 t)) =
      ?h (fl OR URP_DATA_FLAG_TSTAMP) @ d @ le_bytes 8 t"
    using take_trailer[of "?h (fl OR URP_DATA_FLAG_TSTAMP)" d c "le_bytes 8 t"] lc assms(5,8) c by simp
  ultimately show ?thesis using 3(1) unfolding e ep3_def[symmetric] by (auto simp: add.commute add.left_commute)
qed

lemma frame_stage:
  assumes "tx_at g seq rs fs ep" "geom_ok (t_bs g) (t_cs g) (t_n g)" "i < t_len g"
    and "length d \<le> unat (t_bs g) - 28" "take (length d) (drop 20 (concat (bf_pages (bufs ep ! i)))) = d"
    and "tx_frame ev (t_sid g) syn i (of_nat (length d)) ep = (ts, ep')"
  shows "tx_at g (seq + 1) rs fs ep' \<and> is_tx_frame (t_sid g) seq syn d
    (take (unat (URP_FRAME_HEADER_SIZE + of_nat (length d) + ts)) (concat (bf_pages (bufs ep' ! i))))"
proof -
  define fl where "fl = (if syn then URP_DATA_FLAG_SYN else 0)"
  define ep1 where "ep1 = upd_stream (t_sid g) (\<lambda>s. s\<lparr>s_tx_seq := s_tx_seq s + 1\<rparr>) ep"
  let ?enc = "\<lambda>b. urp_frame_encode b (t_sid g) seq URP_FRAME_TYPE_DATA fl 0 (of_nat (length d))"
  obtain s where s: "ht_lookup (ep_streams ep) (t_sid g) = Some s" "s_tx_seq s = seq"
    using assms(1) by (auto simp: tx_at_def)
  have 1: "tx_at g (seq + 1) rs fs ep1" "bufs ep1 = bufs ep"
    unfolding ep1_def by (rule tx_at_upd_stream[OF assms(1)]) (simp_all add: upd_stream_def)
  note ok = tx_at_pages[OF assms(1,3)]
  have hd: "20 \<le> length (bf_data (bufs ep ! i))"
    using assms(2) pages_okD(2)[OF ok, of 0] by (simp add: geom_ok_def)
  have "length (?enc (bf_data (bufs ep1 ! i))) = length (bf_data (bufs ep1 ! i))" using hd 1(2) by simp
  note 2 = tx_at_upd_data[where f = ?enc, OF 1(1) assms(3) this]
  have st: "urp_tx_maybe_stamp ev (upd_data i ?enc ep1) i seq (of_nat (length d)) = (ts, ep')"
    using assms(6) s by (simp add: tx_frame_def fl_def[symmetric] ep1_def[symmetric] Let_def)
  have pg: "bf_pages (bufs (upd_data i ?enc ep1) ! i) = (bf_pages (bufs ep ! i))[0 := write_at (bf_data (bufs ep ! i)) 0
      (frame_header (t_sid g) seq URP_FRAME_TYPE_DATA fl 0 (of_nat (length d)))]"
    using 2(2) urp_frame_encode_layout[OF hd] 1(2) by simp
  have n: "length d < 2 ^ 20" using assms(2,4) unfolding geom_ok_def by linarith
  have u: "unat (URP_FRAME_HEADER_SIZE + (of_nat (length d) :: u32)) = 20 + length d"
    "unat (URP_FRAME_HEADER_SIZE + (of_nat (length d) :: u32) + 8) = 28 + length d"
    using n by (simp_all add: frame_consts unat_of_nat unat_word_ariths)
  note e = stamp_stage[OF 2(1) assms(2-5) pg ok refl st]
  then have "is_tx_frame (t_sid g) seq syn d
      (take (unat (URP_FRAME_HEADER_SIZE + of_nat (length d) + ts)) (concat (bf_pages (bufs ep' ! i))))"
    unfolding is_tx_frame_def Let_def fl_def[symmetric] data_frame_def by (auto simp: u)
  then show ?thesis using e by blast
qed

lemma select_all_up: "all_up ep \<Longrightarrow> urp_qp_select_round_robin ep = (r, ep') \<Longrightarrow> r \<noteq> None"
proof -
  assume a: "all_up ep" "urp_qp_select_round_robin ep = (r, ep')"
  obtain m where m: "unat (ep_num_qps ep) = Suc m" using a(1) by (cases "unat (ep_num_qps ep)") (auto simp: all_up_def unat_eq_0)
  have "unat ((ep_rr_counter ep + 1) mod ep_num_qps ep) < length (qps ep)" using a(1) m by (simp add: all_up_def unat_mod)
  then have "qp_usable (qps ep ! unat ((ep_rr_counter ep + 1) mod ep_num_qps ep))" using a(1) by (simp add: all_up_def)
  then show ?thesis using a m by (auto simp: urp_qp_select_round_robin_def all_up_def)
qed

lemma send_stage:
  assumes "undisturbed g itf" "tx_at g seq rs fs ep" "geom_ok (t_bs g) (t_cs g) (t_n g)" "i < t_len g"
    and "length d \<le> unat (t_bs g) - 28" "take (length d) (drop 20 (concat (bf_pages (bufs ep ! i)))) = d"
    and "tx_send ev itf (t_sid g) syn i (of_nat (length d)) ep = (nx, ep')"
  shows "tx_at g (seq + 1) rs fs ep' \<and> (nx = Tx_stop \<or> nx = Tx_continue False \<and> \<not> t_up g) \<or>
    nx = Tx_continue False \<and> (\<exists>fr. is_tx_frame (t_sid g) seq syn d fr \<and> tx_at g (seq + 1) rs (fs @ [fr]) ep')"
proof -
  obtain ts ep1 where f: "tx_frame ev (t_sid g) syn i (of_nat (length d)) ep = (ts, ep1)" by force
  note 1 = frame_stage[OF assms(2-6) f]
  obtain r ep2 where sel: "urp_qp_select_round_robin ep1 = (r, ep2)" by force
  have 2: "tx_at g (seq + 1) rs fs ep2" "bufs ep2 = bufs ep1" using tx_at_select[OF conjunct1[OF 1] sel] by simp_all
  show ?thesis
  proof (cases r)
    case None
    then have "\<not> t_up g" using select_all_up[OF _ sel] 1 by (auto simp: tx_at_def)
    moreover have "tx_at g (seq + 1) rs fs (itf None (urp_buf_free_send ep2 i))"
      using assms(1) tx_at_free[OF 2(1) assms(4)] by (simp add: undisturbed_def)
    ultimately show ?thesis using assms(7) None f sel by (simp add: tx_send_def)
  next
    case (Some q)
    obtain ok ep3 where gt: "tx_gate ev itf (t_sid g) i (of_nat (length d)) ep2 = (ok, ep3)" by force
    note 3 = gate_stage[OF assms(1,4) 2(1) gt]
    have eq: "(nx, ep') = (if ok then tx_post ev (t_sid g) q i (of_nat (length d)) ts ep3 else (Tx_stop, ep3))"
      using assms(7) Some f sel gt by (simp add: tx_send_def split: bool.splits)
    show ?thesis
    proof (cases ok)
      case True
      have "is_tx_frame (t_sid g) seq syn d
        (take (unat (URP_FRAME_HEADER_SIZE + of_nat (length d) + ts)) (concat (bf_pages (bufs ep3 ! i))))"
        using 1 2(2) 3 by simp
      moreover have "tx_post ev (t_sid g) q i (of_nat (length d)) ts ep3 = (nx, ep')" using eq True by simp
      ultimately show ?thesis using post_stage[OF conjunct1[OF 3] assms(4)] by blast
    next
      case False
      then show ?thesis using eq 3 by simp
    qed
  qed
qed

lemma get_buf_stage:
  assumes "undisturbed g itf" "tx_at g seq rs fs ep" "tx_get_buf itf ep = (r, ep')"
  shows "tx_at g seq rs fs ep'" "r = Some i \<Longrightarrow> i < t_len g"
proof -
  obtain r1 ep1 where 1: "urp_buf_alloc_send ep = (r1, ep1)" by force
  note a = tx_at_alloc[OF assms(2) 1]
  have "tx_at g seq rs fs (itf None (log_ext X_wait_send_wq ep1))"
    using assms(1) tx_at_log[OF a(1)] by (simp add: undisturbed_def reads_def frames_def)
  from tx_at_alloc[OF this] a assms(3) 1
  show "tx_at g seq rs fs ep'" "r = Some i \<Longrightarrow> i < t_len g"
    by (auto simp: tx_get_buf_def split: option.splits)
qed

lemma closed_stage: "tx_at g seq rs fs ep \<Longrightarrow> i < t_len g \<Longrightarrow> tx_at g seq rs fs (tx_closed (t_sid g) i ep)"
  unfolding tx_closed_def urp_stream_tx_fin_def Let_def
  by (rule tx_at_cong[OF tx_at_upd_stream_other[OF tx_at_upd_stream_other[OF tx_at_free]]]) simp_all

lemma iter_stage:
  assumes "undisturbed g itf" "tx_at g seq rs fs ep" "geom_ok (t_bs g) (t_cs g) (t_n g)"
    and "urp_stream_tx_iter ev itf (t_sid g) syn ep = (nx, ep')"
  obtains (idle) "tx_at g seq rs fs ep'" "nx = Tx_stop \<or> nx = Tx_continue syn"
  | (lost) d where "d \<noteq> []" "tx_at g (seq + 1) (rs @ [d]) fs ep'" "nx = Tx_stop \<or> nx = Tx_continue False \<and> \<not> t_up g"
  | (sent) d fr where "d \<noteq> []" "nx = Tx_continue False" "is_tx_frame (t_sid g) seq syn d fr"
      "tx_at g (seq + 1) (rs @ [d]) (fs @ [fr]) ep'"
proof -
  obtain r ep1 where b: "tx_get_buf itf ep = (r, ep1)" by force
  note 1 = get_buf_stage[OF assms(1,2) b]
  note sk = tx_at_sock[OF assms(2)] tx_at_sock[OF 1(1)]
  show ?thesis
  proof (cases r)
    case None
    then have "nx = Tx_continue syn" "ep' = ep1" using assms(4) b sk by (simp_all add: urp_stream_tx_iter_def)
    then show ?thesis using 1 by (intro idle) simp_all
  next
    case (Some i)
    have i: "i < t_len g" using 1(2) Some .
    have 2: "tx_at g seq rs fs (itf (Some i) ep1)" using assms(1) 1(1) by (simp add: undisturbed_def)
    have geo: "ep_buf_size ep1 = t_bs g" "ep_chunk_size ep1 = t_cs g" "bf_num_chunks (bufs ep1 ! i) = t_n g"
      using 1(1) tx_at_pages[OF 1(1) i] by (simp_all add: tx_at_def pages_ok_def)
    obtain x ep2 where rcv: "recvmsg_kvecs ev (itf (Some i) ep1) (t_sk g) i (urp_frame_fill_kvecs (t_cs g) (t_n g) (t_bs g))
        (urp_ep_tx_max_payload (t_bs g)) = (x, ep2)" by force
    note 3 = recv_stage[OF 2 assms(3) i rcv]
    have eq: "(nx, ep') = (case x of Inl _ \<Rightarrow> (Tx_stop, tx_closed (t_sid g) i ep2)
        | Inr d \<Rightarrow> if d = [] then (Tx_stop, tx_closed (t_sid g) i ep2)
                   else tx_send ev itf (t_sid g) syn i (of_nat (length d)) ep2)"
      using assms(4) b Some sk rcv by (simp add: urp_stream_tx_iter_def geo split: sum.splits)
    show ?thesis
    proof (cases "\<exists>d. x = Inr d \<and> d \<noteq> []")
      case True
      then obtain d where d: "x = Inr d" "d \<noteq> []" by blast
      have "tx_send ev itf (t_sid g) syn i (of_nat (length d)) ep2 = (nx, ep')" using eq d by simp
      from send_stage[OF assms(1) _ assms(3) i _ _ this] 3 d show ?thesis using lost sent by fastforce
    next
      case False
      then have "nx = Tx_stop" "ep' = tx_closed (t_sid g) i ep2" "tx_at g seq rs fs ep2"
        using eq 3 by (auto split: sum.splits)
      then show ?thesis using closed_stage[OF _ i] by (intro idle) simp_all
    qed
  qed
qed

text \<open>What a run may leave: a read is posted as a frame, lost for want of a queue pair, or the last one.\<close>

inductive tx_log :: "u32 \<Rightarrow> bool \<Rightarrow> u64 \<Rightarrow> bool \<Rightarrow> bool \<Rightarrow> bytes list \<Rightarrow> bytes list \<Rightarrow> bool" where
  log_none: "tx_log sid up seq syn e [] []"
| log_frame: "is_tx_frame sid seq syn d fr \<Longrightarrow> tx_log sid up (seq + 1) False e ds frs \<Longrightarrow>
    tx_log sid up seq syn e (d # ds) (fr # frs)"
| log_lost: "\<not> up \<Longrightarrow> tx_log sid up (seq + 1) False e ds frs \<Longrightarrow> tx_log sid up seq syn e (d # ds) frs"
| log_last: "tx_log sid up seq syn True [d] []"

lemma run_stage:
  assumes "undisturbed g itf" "geom_ok (t_bs g) (t_cs g) (t_n g)"
    and "tx_at g seq rs fs ep" "urp_stream_tx_fn ev itf (t_sid g) n syn ep = (ended, ep')"
  shows "\<exists>ds frs. tx_at g (seq + of_nat (length ds)) (rs @ ds) (fs @ frs) ep'
    \<and> tx_log (t_sid g) (t_up g) seq syn ended ds frs \<and> length ds \<le> n"
  using assms(3,4)
proof (induction n arbitrary: seq rs fs ep syn)
  case 0
  then show ?case by (intro exI[of _ "[]"]) (simp add: log_none)
next
  case (Suc n)
  show ?case
  proof (cases "ev_kthread_should_stop ev (ep_trace ep)")
    case True
    then show ?thesis using Suc.prems by (intro exI[of _ "[]"]) (simp add: log_none)
  next
    case False
    obtain nx ep1 where it: "urp_stream_tx_iter ev itf (t_sid g) syn ep = (nx, ep1)" by force
    have stop: "nx = Tx_stop \<Longrightarrow> ep1 = ep' \<and> ended" using Suc.prems(2) False it by simp
    have more: "nx = Tx_continue z \<Longrightarrow> urp_stream_tx_fn ev itf (t_sid g) n z ep1 = (ended, ep')" for z
      using Suc.prems(2) False it by simp
    from assms(1) Suc.prems(1) assms(2) it show ?thesis
    proof (cases rule: iter_stage)
      case idle
      show ?thesis
      proof (cases "nx = Tx_stop")
        case True
        then show ?thesis using idle(1) stop by (intro exI[of _ "[]"]) (simp add: log_none)
      next
        case False
        then have "nx = Tx_continue syn" using idle(2) by simp
        from Suc.IH[OF idle(1) more[OF this]] show ?thesis by (blast intro: le_SucI)
      qed
    next
      case (lost d)
      show ?thesis
      proof (cases "nx = Tx_stop")
        case True
        then show ?thesis using lost stop by - (rule exI[of _ "[d]"], rule exI[of _ "[]"], simp add: log_last)
      next
        case False
        then have nx: "nx = Tx_continue False" "\<not> t_up g" using lost by simp_all
        from Suc.IH[OF lost(2) more[OF nx(1)]] obtain ds frs where
          "tx_at g (seq + 1 + of_nat (length ds)) ((rs @ [d]) @ ds) (fs @ frs) ep'"
          "tx_log (t_sid g) (t_up g) (seq + 1) False ended ds frs" "length ds \<le> n" by blast
        then show ?thesis using nx
          by - (rule exI[of _ "d # ds"], rule exI[of _ frs], simp add: log_lost add.assoc)
      qed
    next
      case (sent d fr)
      from Suc.IH[OF sent(4) more[OF sent(2)]] obtain ds frs where
        "tx_at g (seq + 1 + of_nat (length ds)) ((rs @ [d]) @ ds) ((fs @ [fr]) @ frs) ep'"
        "tx_log (t_sid g) (t_up g) (seq + 1) False ended ds frs" "length ds \<le> n" by blast
      then show ?thesis using sent(3)
        by - (rule exI[of _ "d # ds"], rule exI[of _ "fr # frs"], simp add: log_frame add.assoc)
    qed
  qed
qed

lemma tx_log_indices:
  assumes "tx_log sid up seq syn e ds frs"
  shows "\<exists>ks. sorted_wrt (<) ks \<and> length ks = length frs \<and> (\<forall>k\<in>set ks. k < length ds)
    \<and> (\<forall>j < length frs. is_tx_frame sid (seq + of_nat (ks ! j)) (syn \<and> ks ! j = 0) (ds ! (ks ! j)) (frs ! j))
    \<and> (up \<longrightarrow> ks = [0..<length frs] \<and> (length ds = length frs \<or> e \<and> length ds = Suc (length frs)))"
  using assms
proof induction
  case (log_frame sid seq syn d fr up e ds frs)
  then obtain ks where ks: "sorted_wrt (<) ks" "length ks = length frs" "\<forall>k\<in>set ks. k < length ds"
    "\<forall>j < length frs. is_tx_frame sid (seq + 1 + of_nat (ks ! j)) False (ds ! (ks ! j)) (frs ! j)"
    "up \<longrightarrow> ks = [0..<length frs] \<and> (length ds = length frs \<or> e \<and> length ds = Suc (length frs))" by auto
  let ?ks = "0 # map Suc ks"
  have "is_tx_frame sid (seq + of_nat (?ks ! j)) (syn \<and> ?ks ! j = 0) ((d # ds) ! (?ks ! j)) ((fr # frs) ! j)"
    if "j < length (fr # frs)" for j
    using that log_frame(1) ks(2,4) by (cases j) (auto simp: add.assoc)
  moreover have "up \<longrightarrow> ?ks = [0..<length (fr # frs)]" using ks(5) by (auto simp: upt_conv_Cons map_Suc_upt simp del: upt_Suc)
  ultimately show ?case using ks by (intro exI[of _ ?ks]) (auto simp: sorted_wrt_map)
next
  case (log_lost up sid seq e ds frs syn d)
  then obtain ks where ks: "sorted_wrt (<) ks" "length ks = length frs" "\<forall>k\<in>set ks. k < length ds"
    "\<forall>j < length frs. is_tx_frame sid (seq + 1 + of_nat (ks ! j)) False (ds ! (ks ! j)) (frs ! j)" by auto
  then have "\<forall>j < length frs. is_tx_frame sid (seq + of_nat (map Suc ks ! j)) (syn \<and> map Suc ks ! j = 0)
      ((d # ds) ! (map Suc ks ! j)) (frs ! j)" by (auto simp: add.assoc)
  then show ?case using ks log_lost(1) by (intro exI[of _ "map Suc ks"]) (auto simp: sorted_wrt_map)
qed auto

text \<open>C30: What a stream's transmit thread puts on the wire is what it read, in order: over any run, and
  whatever the other threads do as long as they leave this stream's sequence number, socket and the
  buffer in hand alone, every frame posted is a data frame of the stream that carries exactly one read
  of the socket, its sequence number is the position of that read, only the first read is marked SYN,
  and the optional time stamp comes behind the payload.  When all queue pairs are up no read is skipped,
  and only a thread that has ended may have left its last read unsent.\<close>

theorem stream_tx_frames:
  assumes "undisturbed g itf" "geom_ok (t_bs g) (t_cs g) (t_n g)" "tx_at g seq rs fs ep"
    and "urp_stream_tx_fn ev itf (t_sid g) n True ep = (ended, ep')"
  shows "\<exists>ds frs ks. tx_at g (seq + of_nat (length ds)) (rs @ ds) (fs @ frs) ep' \<and> sorted_wrt (<) ks
    \<and> length ks = length frs \<and> (\<forall>k\<in>set ks. k < length ds)
    \<and> (\<forall>j < length frs. is_tx_frame (t_sid g) (seq + of_nat (ks ! j)) (ks ! j = 0) (ds ! (ks ! j)) (frs ! j))
    \<and> (t_up g \<longrightarrow> ks = [0..<length frs] \<and> (length ds = length frs \<or> ended \<and> length ds = Suc (length frs)))"
proof -
  from run_stage[OF assms] obtain ds frs where run: "tx_at g (seq + of_nat (length ds)) (rs @ ds) (fs @ frs) ep'"
    "tx_log (t_sid g) (t_up g) seq True ended ds frs" by blast
  then show ?thesis using tx_log_indices[OF run(2)] by auto
qed

text \<open>
  A stream with socket 7 on an endpoint with two buffers and two queue pairs; the socket gives three
  bytes on every read, and meanwhile the peer acknowledges everything.
\<close>

definition sample_tx_conf :: "bool \<Rightarrow> tx_conf" where
  "sample_tx_conf up = \<lparr> t_bs = 128, t_cs = 128, t_n = 1, t_len = 2, t_sid = 1, t_sk = 7, t_up = up \<rparr>"

definition sample_tx :: "bool \<Rightarrow> urp_endpoint" where
  "sample_tx up = sample_ep\<lparr>ep_bufs := Some (replicate 2 \<lparr> bf_pages = [replicate 128 0], bf_sge_len = [128] \<rparr>),
     ep_chunk_size := 128, ep_send_free := [0, 1], ep_streams := [(1, sample_stream 1 (Some 7) True)],
     ep_qps := Some [sample_qp 0 up, sample_qp 1 up]\<rparr>"

definition sample_tx_env :: env where
  "sample_tx_env = sample_env\<lparr>ev_recvmsg := (\<lambda>_. Inr [1, 2, 3])\<rparr>"

definition sample_acks :: interference where
  "sample_acks h = upd_stream 1 (\<lambda>s. s\<lparr>s_tx_bytes_acked := s_tx_bytes s\<rparr>)"

lemma sample_tx_ok:
  "undisturbed (sample_tx_conf up) sample_acks"
  "geom_ok (t_bs (sample_tx_conf up)) (t_cs (sample_tx_conf up)) (t_n (sample_tx_conf up))"
  "tx_at (sample_tx_conf up) 0 [] [] (sample_tx up)"
proof -
  have "tx_at (sample_tx_conf up) seq rs fs (sample_acks h ep)"
    if "tx_at (sample_tx_conf up) seq rs fs ep" for seq rs fs ep h
    using tx_at_upd_stream_other[OF that, of "\<lambda>s. s\<lparr>s_tx_bytes_acked := s_tx_bytes s\<rparr>"]
    by (simp add: sample_acks_def sample_tx_conf_def)
  then show "undisturbed (sample_tx_conf up) sample_acks"
    by (simp add: undisturbed_def) (simp add: sample_acks_def upd_stream_def)
  show "geom_ok (t_bs (sample_tx_conf up)) (t_cs (sample_tx_conf up)) (t_n (sample_tx_conf up))"
    by (simp add: geom_ok_def sample_tx_conf_def)
  have "all_up (sample_tx True)"
    by (simp add: all_up_def sample_tx_def sample_qp_def qp_usable_def) (simp add: sample_ep_def)
  moreover have "pages_ok 128 1 [replicate 128 0]" by (simp add: pages_ok_def)
  ultimately show "tx_at (sample_tx_conf up) 0 [] [] (sample_tx up)"
    by (cases up; simp add: tx_at_def sample_tx_conf_def sample_tx_def ht_lookup_def sample_stream_def stream_new_def)
      (simp_all add: sample_ep_def less_2_cases_iff)
qed

theorem stream_tx_frames_witness:
  "\<exists>ds frs. reads 7 (ep_trace (snd (urp_stream_tx_fn sample_tx_env sample_acks 1 3 True (sample_tx True)))) = ds
    \<and> frames 1 (ep_trace (snd (urp_stream_tx_fn sample_tx_env sample_acks 1 3 True (sample_tx True)))) = frs
    \<and> length frs \<le> length ds \<and> (\<forall>j < length frs. is_tx_frame 1 (of_nat j) (j = 0) (ds ! j) (frs ! j))"
proof -
  define res where "res = urp_stream_tx_fn sample_tx_env sample_acks 1 3 True (sample_tx True)"
  have "urp_stream_tx_fn sample_tx_env sample_acks (t_sid (sample_tx_conf True)) 3 True (sample_tx True) = (fst res, snd res)"
    by (simp add: res_def sample_tx_conf_def)
  from stream_tx_frames[OF sample_tx_ok this] show ?thesis
    unfolding res_def[symmetric] by (auto simp: sample_tx_conf_def tx_at_def)
qed

definition none_up :: "urp_endpoint \<Rightarrow> bool" where
  "none_up ep \<longleftrightarrow> (\<forall>i < unat (ep_num_qps ep). \<not> qp_usable (qps ep ! i))"

lemma select_none_up: "none_up ep \<Longrightarrow> fst (urp_qp_select_round_robin ep) = None"
proof (cases "ep_qps ep = None \<or> ep_num_qps ep = 0")
  case False
  assume a: "none_up ep"
  have "rr_at ep k < unat (ep_num_qps ep)" for k
    using False by (simp add: rr_at_def unat_mod unat_pos_iff[symmetric] word_neq_0_conv)
  then have "find (\<lambda>k. qp_usable (qps ep ! rr_at ep k)) ks = None" for ks
    using a by (auto simp: find_None_iff none_up_def)
  then show ?thesis using False by (simp add: urp_qp_select_round_robin_def select_loop_find)
qed (simp add: urp_qp_select_round_robin_def)

lemma tx_frame_qps: "tx_frame ev sid syn i len ep = (ts, ep') \<Longrightarrow> ep_qps ep' = ep_qps ep \<and> ep_num_qps ep' = ep_num_qps ep"
  by (auto simp: tx_frame_def Let_def urp_tx_maybe_stamp_def upd_stream_def upd_data_def upd_buf_def ktime_get_real_ns_def
      log_ext_def split: if_splits)

text \<open>C31: When no queue pair is usable the thread drops what it has read: the sequence number is consumed
  and the SYN mark is spent, no frame is posted, and the loop goes on, so that the receiver is left
  waiting for a frame that is never sent.\<close>

theorem tx_without_queue_pair_skips:
  assumes "undisturbed g itf" "tx_at g seq rs fs ep" "geom_ok (t_bs g) (t_cs g) (t_n g)" "i < t_len g"
    and "length d \<le> unat (t_bs g) - 28" "take (length d) (drop 20 (concat (bf_pages (bufs ep ! i)))) = d"
    and "none_up ep"
  shows "\<exists>ep'. tx_send ev itf (t_sid g) syn i (of_nat (length d)) ep = (Tx_continue False, ep') \<and> tx_at g (seq + 1) rs fs ep'"
proof -
  obtain ts ep1 where f: "tx_frame ev (t_sid g) syn i (of_nat (length d)) ep = (ts, ep1)" by force
  note 1 = frame_stage[OF assms(2-6) f]
  have "none_up ep1" using assms(7) tx_frame_qps[OF f] by (simp add: none_up_def)
  then obtain ep2 where sel: "urp_qp_select_round_robin ep1 = (None, ep2)"
    using select_none_up[of ep1] by (cases "urp_qp_select_round_robin ep1") simp
  have "tx_at g (seq + 1) rs fs ep2" using tx_at_select[OF conjunct1[OF 1] sel] by simp
  then have "tx_at g (seq + 1) rs fs (itf None (urp_buf_free_send ep2 i))"
    using assms(1) tx_at_free[OF _ assms(4)] by (simp add: undisturbed_def)
  then show ?thesis using f sel by (simp add: tx_send_def)
qed

theorem tx_without_queue_pair_skips_witness:
  "\<exists>ep'. tx_send sample_tx_env sample_acks 1 True 0 4 (sample_tx False) = (Tx_continue False, ep')
    \<and> frames 1 (ep_trace ep') = [] \<and> map_option s_tx_seq (ht_lookup (ep_streams ep') 1) = Some 1"
proof -
  have n: "none_up (sample_tx False)"
    by (simp add: none_up_def sample_tx_def sample_qp_def qp_usable_def) (simp add: sample_ep_def less_2_cases_iff)
  have "take (length [0, 0, 0, 0 :: u8]) (drop 20 (concat (bf_pages (bufs (sample_tx False) ! 0)))) = [0, 0, 0, 0]"
    by (simp add: sample_tx_def numeral_nat)
  then have "\<exists>ep'. tx_send sample_tx_env sample_acks (t_sid (sample_tx_conf False)) True 0 (of_nat (length [0, 0, 0, 0 :: u8])) (sample_tx False)
      = (Tx_continue False, ep') \<and> tx_at (sample_tx_conf False) (0 + 1) [] [] ep'"
    using n by (intro tx_without_queue_pair_skips[OF sample_tx_ok(1,3,2)]) (simp_all add: sample_tx_conf_def)
  then show ?thesis by (auto simp: tx_at_def) (auto simp: sample_tx_conf_def)
qed

end
