(* ===== verification/Urp_Rx.thy ===== *)
theory Urp_Rx
  imports Urp_Pump "HOL-Library.Multiset"
begin

text \<open>
  The receive completion handler (kernel/urp\_rdma.c): classification, credit grants, probe answers,
  the choice of the socket, latency sampling, in-order delivery through the reorder buffer with its
  copy-free fast path, the grants sent back and the return of the buffer to the shared receive queue.
  Completions of an endpoint run one at a time.
\<close>

unbundle bit_operations_syntax

text \<open>A work completion: its status, the bytes received and the queue pair.\<close>

record ib_wc =
  wc_success :: bool
  wc_byte_len :: u32
  wc_qp :: nat

section \<open>Sampling\<close>

definition hist_add :: "u32 \<Rightarrow> u64 \<Rightarrow> urp_hist15 \<Rightarrow> urp_hist15" where
  "hist_add b v h = h\<lparr>hi_bucket := (hi_bucket h)[unat b := hi_bucket h ! unat b + 1],
     hi_sum_ns := hi_sum_ns h + v, hi_count := hi_count h + 1\<rparr>"

definition ia_stride_step :: "u64 \<Rightarrow> urp_interarrival \<Rightarrow> nat \<Rightarrow> urp_interarrival" where
  "ia_stride_step now ia s =
    (if ia_nframes ia mod ucast (urp_ia_stride (of_nat s)) \<noteq> 0 then ia
     else
       let prev = ia_last_ns ia ! s;
           ia = (if prev \<noteq> 0
                 then ia\<lparr>ia_h := (ia_h ia)[s := hist_add (urp_hist_bucket (now - prev)) (now - prev) (ia_h ia ! s)]\<rparr>
                 else ia)
       in ia\<lparr>ia_last_ns := (ia_last_ns ia)[s := now]\<rparr>)"

definition urp_interarrival_sample :: "env \<Rightarrow> urp_endpoint \<Rightarrow> urp_endpoint" where
  "urp_interarrival_sample ev ep =
    (let (now, ep) = ktime_get_ns ev ep;
         ia = (ep_interarrival ep)\<lparr>ia_nframes := ia_nframes (ep_interarrival ep) + 1\<rparr>
     in ep\<lparr>ep_interarrival := foldl (ia_stride_step now) ia [0..<unat URP_IA_NSTRIDES]\<rparr>)"

text \<open>The trailer is read through the first page of the buffer.\<close>

definition urp_owd_sample :: "env \<Rightarrow> urp_endpoint \<Rightarrow> nat \<Rightarrow> u32 \<Rightarrow> urp_endpoint" where
  "urp_owd_sample ev ep i payload_len =
    (let t_send = urp_frame_tstamp_decode (bf_data (bufs ep ! i)) (unat (URP_FRAME_HEADER_SIZE + payload_len));
         (now, ep) = ktime_get_real_ns ev ep;
         owd = now - t_send
     in if sint owd < 0
        then ep\<lparr>ep_owd := (ep_owd ep)\<lparr>owd_anomalies := owd_anomalies (ep_owd ep) + 1\<rparr>\<rparr>
        else ep\<lparr>ep_owd := (ep_owd ep)\<lparr>owd_h := hist_add (urp_owd_bucket owd) owd (owd_h (ep_owd ep))\<rparr>\<rparr>)"

section \<open>Writing to the socket\<close>

text \<open>
  The socket takes as many bytes as the kernel call says, the counters count what was asked for.
\<close>

definition rx_sendmsg :: "env \<Rightarrow> urp_endpoint \<Rightarrow> u32 option \<Rightarrow> nat \<Rightarrow> bytes \<Rightarrow> errno option \<times> urp_endpoint" where
  "rx_sendmsg ev ep s uds data =
    (case ev_sendmsg ev (ep_trace ep) of
       Inl e \<Rightarrow> (Some e, log_ext (X_sendmsg_fail uds) ep)
     | Inr n \<Rightarrow>
         let ep = log_ext (X_sendmsg uds (take n data)) ep;
             len = of_nat (length data);
             ep = upd_stats (\<lambda>st. st\<lparr>stat_rx_bytes := stat_rx_bytes st + len,
                                     stat_rx_frames := stat_rx_frames st + 1\<rparr>) ep
         in (None, case s of None \<Rightarrow> ep
                   | Some sid \<Rightarrow> upd_stream sid (\<lambda>s. s\<lparr>s_rx_bytes := s_rx_bytes s + len\<rparr>) ep))"

definition urp_rx_send_uds ::
    "env \<Rightarrow> urp_endpoint \<Rightarrow> u32 option \<Rightarrow> nat \<Rightarrow> bytes \<Rightarrow> errno option \<times> urp_endpoint" where
  "urp_rx_send_uds ev ep s uds data = (if data = [] then (None, ep) else rx_sendmsg ev ep s uds data)"

definition urp_rx_send_uds_sg ::
    "env \<Rightarrow> urp_endpoint \<Rightarrow> u32 option \<Rightarrow> nat \<Rightarrow> nat \<Rightarrow> u32 \<Rightarrow> errno option \<times> urp_endpoint" where
  "urp_rx_send_uds_sg ev ep s uds i payload_len =
    (if payload_len = 0 then (None, ep)
     else rx_sendmsg ev ep s uds
            (kvec_bytes (bf_pages (bufs ep ! i))
              (urp_frame_fill_kvecs_len (ep_chunk_size ep) (bf_num_chunks (bufs ep ! i)) payload_len)))"

section \<open>Draining the reorder buffer\<close>

text \<open>Drained payloads are staged in the buffer's only page, or in the scratch page of a multi-page pool.\<close>

definition scratch_put :: "nat \<Rightarrow> bytes \<Rightarrow> urp_endpoint \<Rightarrow> urp_endpoint" where
  "scratch_put i d ep =
    (if 1 < bf_num_chunks (bufs ep ! i)
     then ep\<lparr>ep_recv_scratch := map_option (\<lambda>b. write_at b 0 d) (ep_recv_scratch ep)\<rparr>
     else upd_data i (\<lambda>b. write_at b 0 d) ep)"

definition scratch_get :: "nat \<Rightarrow> urp_endpoint \<Rightarrow> bytes" where
  "scratch_get i ep =
    (if 1 < bf_num_chunks (bufs ep ! i) then the (ep_recv_scratch ep) else bf_data (bufs ep ! i))"

definition stream_reorder :: "u32 \<Rightarrow> urp_endpoint \<Rightarrow> urp_reorder option" where
  "stream_reorder sid ep = map_option s_reorder (ht_lookup (ep_streams ep) sid)"

definition set_reorder :: "u32 \<Rightarrow> urp_reorder \<Rightarrow> urp_endpoint \<Rightarrow> urp_endpoint" where
  "set_reorder sid rb = upd_stream sid (\<lambda>s. s\<lparr>s_reorder := rb\<rparr>)"

primrec rx_drain_loop :: "env \<Rightarrow> u32 \<Rightarrow> nat \<Rightarrow> nat \<Rightarrow> nat \<Rightarrow> urp_endpoint \<Rightarrow> urp_endpoint" where
  "rx_drain_loop ev sid uds i 0 ep = ep"
| "rx_drain_loop ev sid uds i (Suc n) ep =
    (case urp_reorder_drain_next (stream_reorder sid ep) (unat (ep_buf_size ep)) of
       Inl _ \<Rightarrow> ep
     | Inr (rb, dseq, d) \<Rightarrow>
         let ep = scratch_put i d (set_reorder sid rb ep);
             (_, ep) = urp_rx_send_uds ev ep (Some sid) uds (take (length d) (scratch_get i ep))
         in rx_drain_loop ev sid uds i n ep)"

text \<open>Every iteration takes one drained entry, so their number bounds the loop.\<close>

definition rx_drain :: "env \<Rightarrow> u32 \<Rightarrow> nat \<Rightarrow> nat \<Rightarrow> urp_endpoint \<Rightarrow> urp_endpoint" where
  "rx_drain ev sid uds i ep =
    rx_drain_loop ev sid uds i
      (case stream_reorder sid ep of None \<Rightarrow> 0 | Some rb \<Rightarrow> length (ro_drained rb)) ep"

definition urp_rx_deliver_stream ::
    "env \<Rightarrow> urp_endpoint \<Rightarrow> u32 \<Rightarrow> nat \<Rightarrow> u64 \<Rightarrow> bytes \<Rightarrow> u32 \<Rightarrow> nat \<Rightarrow> urp_endpoint" where
  "urp_rx_deliver_stream ev ep sid uds seq payload payload_len i =
    (let expected = urp_reorder_next_expected (stream_reorder sid ep);
         ep = (case urp_reorder_insert (ev_reorder_kmalloc ev (ep_trace ep)) (stream_reorder sid ep) seq
                      (Some payload) (unat payload_len) of
                 Inr rb \<Rightarrow>
                   let ep = set_reorder sid rb ep
                   in if seq \<noteq> expected
                      then upd_stats (\<lambda>st. st\<lparr>stat_reorder_insertions := stat_reorder_insertions st + 1\<rparr>) ep
                      else ep
               | Inl _ \<Rightarrow> upd_stats (\<lambda>st. st\<lparr>stat_reorder_drops := stat_reorder_drops st + 1\<rparr>) ep)
     in rx_drain ev sid uds i ep)"

text \<open>The payload handed to the slow path: gathered into the scratch page when it spans pages.\<close>

definition rx_slow_payload :: "nat \<Rightarrow> u32 \<Rightarrow> urp_endpoint \<Rightarrow> bytes \<times> urp_endpoint" where
  "rx_slow_payload i payload_len ep =
    (let b = bufs ep ! i
     in if 1 < bf_num_chunks b \<and> ep_chunk_size ep < URP_FRAME_HEADER_SIZE + payload_len
        then
          let scratch = fst (urp_gather_payload (bf_pages b) (ep_chunk_size ep) (the (ep_recv_scratch ep)) payload_len)
          in (scratch, ep\<lparr>ep_recv_scratch := Some scratch\<rparr>)
        else (drop (unat URP_FRAME_HEADER_SIZE) (bf_data b), ep))"

definition rx_deliver :: "env \<Rightarrow> urp_endpoint \<Rightarrow> u32 option \<Rightarrow> nat \<Rightarrow> nat \<Rightarrow> u32 \<Rightarrow> urp_endpoint" where
  "rx_deliver ev ep rx_stream uds i payload_len =
    (case rx_stream of
       None \<Rightarrow> snd (urp_rx_send_uds_sg ev ep None uds i payload_len)
     | Some sid \<Rightarrow>
         let seq = urp_frame_decode_seq (bf_data (bufs ep ! i))
         in if seq = urp_reorder_next_expected (stream_reorder sid ep)
            then
              let (_, ep) = urp_rx_send_uds_sg ev ep (Some sid) uds i payload_len;
                  ep = (case urp_reorder_advance (ev_reorder_kmalloc ev (ep_trace ep)) (stream_reorder sid ep) of
                          None \<Rightarrow> ep | Some rb \<Rightarrow> set_reorder sid rb ep)
              in rx_drain ev sid uds i ep
            else
              let (payload, ep) = rx_slow_payload i payload_len ep
              in urp_rx_deliver_stream ev ep sid uds seq payload payload_len i)"

section \<open>Accounting and grants\<close>

definition rx_window_grant :: "env \<Rightarrow> urp_endpoint \<Rightarrow> nat \<Rightarrow> u32 \<Rightarrow> urp_endpoint" where
  "rx_window_grant ev ep q sid =
    (case ht_lookup (ep_streams ep) sid of
       None \<Rightarrow> ep
     | Some s \<Rightarrow>
         let delivered = s_rx_bytes s
         in if urp_window_should_grant delivered (s_last_window_grant s) (s_window_bytes s)
            then upd_stream sid (\<lambda>s. s\<lparr>s_last_window_grant := delivered\<rparr>)
                   (snd (urp_emit_credit_bytes_frame ev ep q sid delivered))
            else ep)"

definition rx_frame_grant :: "env \<Rightarrow> urp_endpoint \<Rightarrow> nat \<Rightarrow> u32 \<Rightarrow> urp_endpoint" where
  "rx_frame_grant ev ep q stream_id =
    (let ep = upd_qp q (\<lambda>q. q\<lparr>q_credit := urp_credit_record_recv (q_credit q)\<rparr>) ep
     in if stream_id \<noteq> 0 \<and> urp_credit_should_grant (q_credit (qps ep ! q))
        then
          let (cr, grants) = urp_credit_take_grants (q_credit (qps ep ! q));
              ep = upd_qp q (\<lambda>q. q\<lparr>q_credit := cr\<rparr>) ep
          in snd (urp_emit_credit_frame ev ep q stream_id grants)
        else ep)"

definition rx_account :: "env \<Rightarrow> urp_endpoint \<Rightarrow> u32 option \<Rightarrow> u32 \<Rightarrow> nat \<Rightarrow> u32 \<Rightarrow> urp_endpoint" where
  "rx_account ev ep rx_stream stream_id qp payload_len =
    (case urp_qp_index_of ep qp of
       None \<Rightarrow> ep
     | Some q \<Rightarrow>
         let ep = upd_qp q (\<lambda>q. q\<lparr>q_rx_bytes := q_rx_bytes q + ucast payload_len, q_rx_frames := q_rx_frames q + 1\<rparr>) ep
         in case rx_stream of
              Some sid \<Rightarrow> if ep_window_negotiated ep then rx_window_grant ev ep q sid
                          else rx_frame_grant ev ep q stream_id
            | None \<Rightarrow> rx_frame_grant ev ep q stream_id)"

section \<open>Control frames\<close>

definition rx_credit :: "urp_endpoint \<Rightarrow> nat \<Rightarrow> nat \<Rightarrow> urp_rx_decoded \<Rightarrow> urp_endpoint" where
  "rx_credit ep i qp dec =
    (let sid = rd_stream_id dec;
         ep = (if rd_flags dec AND URP_CTRL_FLAG_CREDIT \<noteq> 0 then
                 if urp_credit_scope_for sid = URP_CREDIT_SCOPE_STREAM
                 then case urp_stream_lookup ep sid of
                   None \<Rightarrow> ep
                 | Some _ \<Rightarrow> upd_stream sid (\<lambda>s. s\<lparr>s_credit := urp_credit_grant (s_credit s) (rd_credits dec)\<rparr>) ep
                 else case urp_qp_index_of ep qp of
                   None \<Rightarrow> ep
                 | Some q \<Rightarrow> upd_qp q (\<lambda>q. q\<lparr>q_credit := urp_credit_grant (q_credit q) (rd_credits dec)\<rparr>) ep
               else ep)
     in if rd_flags dec AND URP_CTRL_FLAG_CREDIT_BYTES \<noteq> 0 \<and> sid \<noteq> 0 then
          case urp_credit_bytes_decode (Some (drop (unat URP_FRAME_HEADER_SIZE) (bf_data (bufs ep ! i)))) (rd_payload_len dec) of
            None \<Rightarrow> ep
          | Some granted \<Rightarrow>
              (case urp_stream_lookup ep sid of
                 None \<Rightarrow> ep
               | Some _ \<Rightarrow>
                   log_ext X_wake_send_wq
                     (upd_stream sid (\<lambda>s. s\<lparr>s_tx_bytes_acked := urp_window_apply_grant (s_tx_bytes_acked s) granted\<rparr>) ep))
        else ep)"

definition rx_pong :: "env \<Rightarrow> urp_endpoint \<Rightarrow> nat \<Rightarrow> nat \<Rightarrow> urp_endpoint" where
  "rx_pong ev ep i qp =
    (case urp_qp_index_of ep qp of
       None \<Rightarrow> ep
     | Some q \<Rightarrow>
         let t_send_mono = urp_ping_decode_t_send_mono (drop (unat URP_FRAME_HEADER_SIZE) (bf_data (bufs ep ! i)));
             (now, ep) = ktime_get_ns ev ep
         in if t_send_mono < now
            then
              let rtt = now - t_send_mono
              in upd_qp q (\<lambda>q. q\<lparr>q_rtt_ewma_ns := (if q_rtt_ewma_ns q = 0 then rtt else (q_rtt_ewma_ns q * 4 + rtt) div 5),
                     q_last_ping_ns := 0, q_consecutive_misses := 0, q_consecutive_pongs := q_consecutive_pongs q + 1\<rparr>) ep
            else ep)"

section \<open>The handler\<close>

definition rx_repost :: "env \<Rightarrow> urp_endpoint \<Rightarrow> nat \<Rightarrow> urp_endpoint" where
  "rx_repost ev ep i =
    (case urp_buf_alloc_recv (urp_buf_free_recv ep i) of
       (None, ep) \<Rightarrow> ep
     | (Some j, ep) \<Rightarrow>
         if ep_srq ep
         then case urp_post_srq_recv ev ep j of
                (None, ep) \<Rightarrow> ep
              | (Some _, ep) \<Rightarrow> urp_buf_free_recv ep j
         else urp_buf_free_recv ep j)"

definition rx_stream_target ::
    "env \<Rightarrow> urp_endpoint \<Rightarrow> u32 \<Rightarrow> u8 \<Rightarrow> (nat option \<times> u32 option) \<times> urp_endpoint" where
  "rx_stream_target ev ep stream_id flags =
    (case urp_stream_rx_dispatch ev ep stream_id flags of
       (Inr (Some sid), ep) \<Rightarrow>
         let ep = (if urp_stream_needs_backend ep (ht_lookup (ep_streams ep) sid)
                   then urp_stream_open_backend ev ep sid else ep)
         in ((stream_sock sid ep, Some sid), ep)
     | (_, ep) \<Rightarrow> ((None, None), ep))"

definition rx_data ::
    "env \<Rightarrow> urp_endpoint \<Rightarrow> nat \<Rightarrow> ib_wc \<Rightarrow> urp_rx_decoded \<Rightarrow> nat option \<Rightarrow> u32 option \<Rightarrow> urp_endpoint" where
  "rx_data ev ep i wc dec uds rx_stream =
    (case uds of
       None \<Rightarrow> upd_stats (\<lambda>st. st\<lparr>stat_buffer_alloc_fails := stat_buffer_alloc_fails st + 1\<rparr>) ep
     | Some sk \<Rightarrow>
         let payload_len = rd_payload_len dec;
             ep = (if sy_interarrival_hist (ev_sysctl ev) \<noteq> 0 then urp_interarrival_sample ev ep else ep);
             ep = (if ep_tstamp_negotiated ep \<and> rd_flags dec AND URP_DATA_FLAG_TSTAMP \<noteq> 0
                      \<and> URP_FRAME_HEADER_SIZE + payload_len + URP_TSTAMP_TRAILER_LEN \<le> wc_byte_len wc
                   then urp_owd_sample ev ep i payload_len else ep);
             ep = rx_deliver ev ep rx_stream sk i payload_len
         in rx_account ev ep rx_stream (rd_stream_id dec) (wc_qp wc) payload_len)"

definition rx_handle :: "env \<Rightarrow> urp_endpoint \<Rightarrow> nat \<Rightarrow> ib_wc \<Rightarrow> urp_endpoint" where
  "rx_handle ev ep i wc =
    (case urp_classify_frame (wc_byte_len wc) (bf_data (bufs ep ! i)) of
       (URP_RX_CREDIT, dec) \<Rightarrow> rx_credit ep i (wc_qp wc) dec
     | (URP_RX_PROBE_PONG, dec) \<Rightarrow> rx_pong ev ep i (wc_qp wc)
     | (URP_RX_PROBE_PING, dec) \<Rightarrow>
         snd (urp_emit_pong_on ev ep (Some (wc_qp wc)) (drop (unat URP_FRAME_HEADER_SIZE) (bf_data (bufs ep ! i))))
     | (URP_RX_DELIVER_LEGACY, dec) \<Rightarrow>
         rx_data ev ep i wc dec (if c_active (ep_conn ep) then c_uds_sock (ep_conn ep) else None) None
     | (URP_RX_DELIVER_STREAM, dec) \<Rightarrow>
         (case rx_stream_target ev ep (rd_stream_id dec) (rd_flags dec) of
            ((uds, rx_stream), ep) \<Rightarrow> rx_data ev ep i wc dec uds rx_stream)
     | _ \<Rightarrow> ep)"

definition urp_recv_done :: "env \<Rightarrow> urp_endpoint \<Rightarrow> nat \<Rightarrow> ib_wc \<Rightarrow> urp_endpoint" where
  "urp_recv_done ev ep i wc =
    (if \<not> wc_success wc then urp_buf_free_recv ep i else rx_repost ev (rx_handle ev ep i wc) i)"

definition urp_recv_done_for_srq :: "env \<Rightarrow> urp_endpoint \<Rightarrow> nat \<Rightarrow> ib_wc \<Rightarrow> urp_endpoint" where
  "urp_recv_done_for_srq ev ep i wc = urp_recv_done ev ep i wc"

section \<open>Receive buffers\<close>

text \<open>
  The receive side of the pool: the free list and the buffers handed to the shared receive queue so
  far.  Handling a frame does not touch it.
\<close>

fun posts_of :: "ext \<Rightarrow> nat list" where
  "posts_of (X_post_srq_recv i lens) = [i]"
| "posts_of _ = []"

definition recv_posts :: "ext list \<Rightarrow> nat list" where
  "recv_posts tr = concat (map posts_of tr)"

definition recv_side :: "urp_endpoint \<Rightarrow> nat list \<times> nat list" where
  "recv_side ep = (ep_recv_free ep, recv_posts (ep_trace ep))"

lemma recv_side_log [simp]: "posts_of x = [] \<Longrightarrow> recv_side (log_ext x ep) = recv_side ep"
  by (simp add: recv_side_def log_ext_def recv_posts_def)

lemma recv_side_upd [simp]:
  "recv_side (upd_stats f ep) = recv_side ep" "recv_side (upd_buf i g ep) = recv_side ep"
  "recv_side (upd_data i h ep) = recv_side ep" "recv_side (upd_qp i k ep) = recv_side ep"
  "recv_side (upd_stream sid l ep) = recv_side ep" "recv_side (ep\<lparr>ep_streams := t\<rparr>) = recv_side ep"
  "recv_side (ep\<lparr>ep_send_free := t'\<rparr>) = recv_side ep" "recv_side (ep\<lparr>ep_recv_scratch := sc\<rparr>) = recv_side ep"
  "recv_side (ep\<lparr>ep_interarrival := ia\<rparr>) = recv_side ep" "recv_side (ep\<lparr>ep_owd := ow\<rparr>) = recv_side ep"
  by (simp_all add: recv_side_def upd_stats_def upd_buf_def upd_data_def upd_qp_def upd_stream_def)

lemma recv_side_clock [simp]:
  "recv_side (snd (ktime_get_ns ev ep)) = recv_side ep" "recv_side (snd (ktime_get_real_ns ev ep)) = recv_side ep"
  by (simp_all add: ktime_get_ns_def ktime_get_real_ns_def)

lemma recv_side_send_pool [simp]:
  "recv_side (snd (urp_buf_alloc_send ep)) = recv_side ep" "recv_side (urp_buf_free_send ep i) = recv_side ep"
  by (simp_all add: urp_buf_alloc_send_def urp_buf_free_send_def split: list.splits)

lemma recv_side_post [simp]: "recv_side (snd (urp_post_frame ev ep qp i len)) = recv_side ep"
  by (simp add: urp_post_frame_def urp_post_frame_sg_def Let_def case_prod_beta split: option.splits)

lemma recv_side_kalloc [simp]: "recv_side (snd (kalloc ev k ep)) = recv_side ep"
  by (simp add: kalloc_def split: option.splits)

lemma recv_side_stream_create [simp]: "recv_side (snd (urp_stream_create ev ep sid)) = recv_side ep"
proof -
  have "recv_side (snd (urp_stream_next_id ep)) = recv_side ep" for ep
    by (simp add: urp_stream_next_id_def recv_side_def)
  then show ?thesis
    by (simp add: urp_stream_create_def Let_def case_prod_beta split: option.splits sum.splits)
qed

lemma recv_side_emit [simp]:
  "recv_side (snd (urp_emit_pong_on ev ep qp ping)) = recv_side ep"
  "recv_side (snd (urp_emit_credit_frame ev ep q sid gr)) = recv_side ep"
  "recv_side (snd (urp_emit_credit_bytes_frame ev ep q sid c)) = recv_side ep"
  by (simp_all add: urp_emit_pong_on_def urp_emit_credit_frame_def urp_emit_credit_bytes_frame_def stat_stall_def
      Let_def case_prod_beta split: option.splits)

lemma recv_side_stream_ops [simp]:
  "recv_side (urp_stream_destroy ep sid) = recv_side ep"
  "recv_side (snd (urp_stream_rx_syn ev ep sid)) = recv_side ep"
  "recv_side (snd (urp_stream_rx_fin ep sid)) = recv_side ep"
  "recv_side (snd (urp_stream_pump_start ev ep sid)) = recv_side ep"
  "recv_side (snd (urp_stream_connect_uds ev ep sid path)) = recv_side ep"
  by (simp_all add: urp_stream_destroy_def urp_stream_rx_syn_def urp_stream_rx_fin_def urp_stream_pump_start_def
      urp_stream_pump_stop_def sock_release_def urp_stream_rcu_free_def urp_stream_connect_uds_def sock_create_def
      Let_def case_prod_beta split: option.splits sum.splits)

lemma recv_side_rst [simp]: "recv_side (snd (urp_stream_rx_rst ep sid)) = recv_side ep"
  by (simp add: urp_stream_rx_rst_def Let_def split: option.splits)

lemma recv_side_dispatch [simp]: "recv_side (snd (urp_stream_rx_dispatch ev ep sid fl)) = recv_side ep"
  by (simp add: urp_stream_rx_dispatch_def dispatch_found_def Let_def case_prod_beta split: option.splits sum.splits)

lemma recv_side_backend [simp]: "recv_side (urp_stream_open_backend ev ep sid) = recv_side ep"
  by (simp add: urp_stream_open_backend_def Let_def case_prod_beta split: option.splits)

lemma recv_side_target [simp]: "recv_side (snd (rx_stream_target ev ep sid fl)) = recv_side ep"
  by (simp add: rx_stream_target_def Let_def case_prod_beta split: option.splits sum.splits)

lemma recv_side_sendmsg [simp]: "recv_side (snd (rx_sendmsg ev ep s uds d)) = recv_side ep"
  by (simp add: rx_sendmsg_def Let_def split: option.splits sum.splits)

lemma recv_side_drain [simp]: "recv_side (rx_drain ev sid uds i ep) = recv_side ep"
proof -
  have "recv_side (rx_drain_loop ev sid uds i n ep) = recv_side ep" for n
    by (induction n arbitrary: ep)
      (simp_all add: scratch_put_def set_reorder_def urp_rx_send_uds_def Let_def case_prod_beta split: sum.splits)
  then show ?thesis by (simp add: rx_drain_def)
qed

lemma recv_side_deliver_stream [simp]: "recv_side (urp_rx_deliver_stream ev ep sid uds seq pl len i) = recv_side ep"
  by (simp add: urp_rx_deliver_stream_def set_reorder_def Let_def split: sum.split)

lemma recv_side_slow [simp]: "recv_side (snd (rx_slow_payload i len ep)) = recv_side ep"
  by (simp add: rx_slow_payload_def Let_def)

lemma recv_side_send_sg [simp]: "recv_side (snd (urp_rx_send_uds_sg ev ep s uds i len)) = recv_side ep"
  by (simp add: urp_rx_send_uds_sg_def)

lemma recv_side_advance [simp]:
  "recv_side (case r of None \<Rightarrow> ep | Some rb \<Rightarrow> set_reorder sid rb ep) = recv_side ep"
  by (simp add: set_reorder_def split: option.split)

lemma recv_side_deliver [simp]: "recv_side (rx_deliver ev ep s uds i len) = recv_side ep"
  by (cases s) (simp_all add: rx_deliver_def Let_def case_prod_beta)

lemma recv_side_samples [simp]:
  "recv_side (urp_interarrival_sample ev ep) = recv_side ep" "recv_side (urp_owd_sample ev ep i len) = recv_side ep"
  by (simp_all add: urp_interarrival_sample_def urp_owd_sample_def Let_def case_prod_beta)

lemma recv_side_grants [simp]:
  "recv_side (rx_window_grant ev ep q sid) = recv_side ep" "recv_side (rx_frame_grant ev ep q sid) = recv_side ep"
  by (simp_all add: rx_window_grant_def rx_frame_grant_def Let_def case_prod_beta split: option.split)

lemma recv_side_account [simp]: "recv_side (rx_account ev ep s sid qp len) = recv_side ep"
  by (simp add: rx_account_def Let_def split: option.split)

lemma recv_side_data [simp]: "recv_side (rx_data ev ep i wc dec uds s) = recv_side ep"
  by (simp add: rx_data_def Let_def split: option.split)

lemma recv_side_credit [simp]: "recv_side (rx_credit ep i qp dec) = recv_side ep"
proof -
  have "recv_side (case urp_credit_bytes_decode x y of None \<Rightarrow> ep | Some gr \<Rightarrow>
      (case urp_stream_lookup ep sid of None \<Rightarrow> ep | Some _ \<Rightarrow> log_ext X_wake_send_wq (upd_stream sid (f gr) ep))) = recv_side ep"
    for x y sid f ep by (simp split: option.split)
  moreover have "recv_side (case urp_stream_lookup ep k of None \<Rightarrow> ep | Some _ \<Rightarrow> upd_stream sid f ep) = recv_side ep"
    "recv_side (case urp_qp_index_of ep qp of None \<Rightarrow> ep | Some q \<Rightarrow> upd_qp q h ep) = recv_side ep" for k sid f h
    by (simp_all split: option.split)
  ultimately show ?thesis by (simp add: rx_credit_def Let_def)
qed

lemma recv_side_pong [simp]: "recv_side (rx_pong ev ep i qp) = recv_side ep"
  by (simp add: rx_pong_def Let_def case_prod_beta split: option.split)

lemma recv_side_handle: "recv_side (rx_handle ev ep i wc) = recv_side ep"
  by (simp add: rx_handle_def case_prod_beta split: urp_rx_action.split)

text \<open>C3: A completion never loses its receive buffer: whatever the frame and whichever calls fail, the
  buffer goes back to the free list and at most one buffer leaves the list, and that one is handed to
  the shared receive queue.\<close>

theorem recv_done_conserves_buffers:
  shows "\<exists>new. recv_posts (ep_trace (urp_recv_done ev ep i wc)) = recv_posts (ep_trace ep) @ new \<and> length new \<le> 1 \<and>
    mset (ep_recv_free (urp_recv_done ev ep i wc)) + mset new = add_mset i (mset (ep_recv_free ep))"
proof (cases "wc_success wc")
  case False
  then show ?thesis by (simp add: urp_recv_done_def urp_buf_free_recv_def)
next
  case True
  define ep1 where "ep1 = rx_handle ev ep i wc"
  have 1: "ep_recv_free ep1 = ep_recv_free ep" "recv_posts (ep_trace ep1) = recv_posts (ep_trace ep)"
    using recv_side_handle[of ev ep i wc] by (simp_all add: recv_side_def ep1_def)
  have "urp_recv_done ev ep i wc = rx_repost ev ep1 i" using True by (simp add: urp_recv_done_def ep1_def)
  then show ?thesis using 1
    by (cases "ep_recv_free ep")
      (auto simp: rx_repost_def urp_buf_free_recv_def urp_buf_alloc_recv_def urp_post_srq_recv_def upd_buf_def
        log_ext_def recv_posts_def Let_def split: option.splits)
qed

section \<open>Delivery of a stream\<close>

text \<open>
  The bytes written to a socket so far; the geometry, a stream and its socket; and a state in which
  the stream is open with a given reorder buffer and a given output.
\<close>

definition sent :: "nat \<Rightarrow> ext list \<Rightarrow> bytes" where
  "sent uds tr = concat (map (\<lambda>x. case x of X_sendmsg k d \<Rightarrow> if k = uds then d else [] | _ \<Rightarrow> []) tr)"

record rx_conf =
  r_bs :: u32
  r_cs :: u32
  r_n :: nat
  r_len :: nat
  r_sid :: u32
  r_uds :: nat

definition rx_geom :: "rx_conf \<Rightarrow> bool" where
  "rx_geom g \<longleftrightarrow> geom_ok (r_bs g) (r_cs g) (r_n g) \<and> 28 \<le> unat (r_cs g) \<and> r_sid g \<noteq> 0"

definition rx_at :: "rx_conf \<Rightarrow> urp_reorder \<Rightarrow> bytes \<Rightarrow> urp_endpoint \<Rightarrow> bool" where
  "rx_at g rb out ep \<longleftrightarrow>
     ep_buf_size ep = r_bs g \<and> ep_chunk_size ep = r_cs g \<and>
     (\<exists>b. ep_bufs ep = Some b \<and> length b = r_len g \<and> (\<forall>i < r_len g. pages_ok (r_cs g) (r_n g) (bf_pages (b ! i)))) \<and>
     (1 < r_n g \<longrightarrow> (\<exists>sc. ep_recv_scratch ep = Some sc \<and> unat (r_bs g) \<le> length sc)) \<and> ep_streams_inited ep \<and>
     (\<exists>s. ht_lookup (ep_streams ep) (r_sid g) = Some s \<and> s_uds_sock s = Some (r_uds g)
        \<and> s_state s \<notin> closing_states \<and> s_reorder s = rb) \<and>
     sent (r_uds g) (ep_trace ep) = out"

lemma sent_simps [simp]: "sent uds [] = []" "sent uds (a @ b) = sent uds a @ sent uds b"
  by (simp_all add: sent_def)

lemma rx_at_pages: "rx_at g rb out ep \<Longrightarrow> i < r_len g \<Longrightarrow> pages_ok (r_cs g) (r_n g) (bf_pages (bufs ep ! i))"
  by (auto simp: rx_at_def)

lemma rx_at_reorder: "rx_at g rb out ep \<Longrightarrow> stream_reorder (r_sid g) ep = Some rb"
  by (auto simp: rx_at_def stream_reorder_def)

lemma rx_at_cong:
  assumes "rx_at g rb out ep" "ep_buf_size ep' = ep_buf_size ep" "ep_chunk_size ep' = ep_chunk_size ep"
    "ep_bufs ep' = ep_bufs ep" "ep_recv_scratch ep' = ep_recv_scratch ep" "ep_streams ep' = ep_streams ep"
    "ep_streams_inited ep' = ep_streams_inited ep" "ep_trace ep' = ep_trace ep"
  shows "rx_at g rb out ep'"
  using assms by (simp add: rx_at_def)

lemma rx_at_log: "rx_at g rb out ep \<Longrightarrow> sent (r_uds g) [x] = [] \<Longrightarrow> rx_at g rb out (log_ext x ep)"
  by (simp add: rx_at_def log_ext_def)

lemma rx_at_upd_stats: "rx_at g rb out ep \<Longrightarrow> rx_at g rb out (upd_stats f ep)"
  by (erule rx_at_cong) (simp_all add: upd_stats_def)

lemma rx_at_upd_qp: "rx_at g rb out ep \<Longrightarrow> rx_at g rb out (upd_qp q f ep)"
  by (erule rx_at_cong) (simp_all add: upd_qp_def)

lemma rx_at_upd_stream:
  assumes "rx_at g rb out ep" "\<And>s. s_uds_sock (f s) = s_uds_sock s"
    "\<And>s. s_state s \<notin> closing_states \<Longrightarrow> s_state (f s) \<notin> closing_states" "\<And>s. s_reorder (f s) = s_reorder s"
  shows "rx_at g rb out (upd_stream (r_sid g) f ep)"
  using assms by (auto simp: rx_at_def upd_stream_def ht_lookup_update)

lemma rx_at_set_reorder: "rx_at g rb out ep \<Longrightarrow> rx_at g rb' out (set_reorder (r_sid g) rb' ep)"
  by (auto simp: rx_at_def set_reorder_def upd_stream_def ht_lookup_update)

lemma rx_at_upd_buf:
  assumes "rx_at g rb out ep"
    "i < r_len g \<Longrightarrow> pages_ok (r_cs g) (r_n g) (bf_pages (bufs ep ! i)) \<Longrightarrow> pages_ok (r_cs g) (r_n g) (bf_pages (f (bufs ep ! i)))"
  shows "rx_at g rb out (upd_buf i f ep)"
  using assms by (cases "i < r_len g") (auto simp: rx_at_def upd_buf_def nth_list_update)

lemma rx_at_upd_data:
  assumes "rx_at g rb out ep" "rx_geom g" "\<And>b. unat (r_cs g) \<le> length b \<Longrightarrow> length (f b) = length b"
  shows "rx_at g rb out (upd_data i f ep)"
  unfolding upd_data_def
proof (rule rx_at_upd_buf[OF assms(1)])
  let ?p = "bf_pages (bufs ep ! i)"
  assume ok: "pages_ok (r_cs g) (r_n g) ?p"
  then have "map length (?p[0 := f (?p ! 0)]) = map length ?p"
    using assms(3)[of "?p ! 0"] pages_okD(2)[OF ok, of 0] assms(2)
    by (cases ?p) (auto simp: rx_geom_def geom_ok_def)
  from pages_ok_map[OF this ok]
  show "pages_ok (r_cs g) (r_n g) (bf_pages ((bufs ep ! i)\<lparr>bf_pages := ?p[0 := f (?p ! 0)]\<rparr>))" by simp
qed

text \<open>Sending on other queues, sampling and accounting leave the stream's receive side alone.\<close>

lemma rx_at_alloc_send: "rx_at g rb out ep \<Longrightarrow> rx_at g rb out (snd (urp_buf_alloc_send ep))"
  by (erule rx_at_cong) (simp_all add: urp_buf_alloc_send_def split: list.split)

lemma rx_at_free_send: "rx_at g rb out ep \<Longrightarrow> rx_at g rb out (urp_buf_free_send ep i)"
  unfolding urp_buf_free_send_def
  by (rule rx_at_log) (auto simp: sent_def intro: rx_at_cong)

lemma rx_at_post_frame: "rx_at g rb out ep \<Longrightarrow> rx_at g rb out (snd (urp_post_frame ev ep qp i len))"
proof -
  assume a: "rx_at g rb out ep"
  have "rx_at g rb out (upd_buf i (\<lambda>b. b\<lparr>bf_sge_len := h b\<rparr>) ep)" for h
    by (rule rx_at_upd_buf[OF a]) simp
  then show ?thesis
    by (auto simp: urp_post_frame_def urp_post_frame_sg_def Let_def sent_def split: option.split
        intro!: rx_at_free_send rx_at_log)
qed

lemma length_at_off: "n \<le> length b \<Longrightarrow> length (f (drop n b)) = length (drop n b) \<Longrightarrow> length (at_off n f b) = length b"
  by (simp add: at_off_def)

lemma rx_at_emit_credit:
  assumes "rx_at g rb out ep" "rx_geom g"
  shows "rx_at g rb out (snd (urp_emit_credit_frame ev ep q sid gr))"
    "rx_at g rb out (snd (urp_emit_credit_bytes_frame ev ep q sid c))"
proof -
  have g: "28 \<le> unat (r_cs g)" using assms(2) by (simp add: rx_geom_def)
  have 1: "rx_at g rb out (snd (urp_buf_alloc_send ep))" by (rule rx_at_alloc_send[OF assms(1)])
  have st: "rx_at g rb out ep' \<Longrightarrow> rx_at g rb out (stat_stall ep')" for ep' by (simp add: stat_stall_def rx_at_upd_stats)
  have enc: "rx_at g rb out (upd_data b (\<lambda>d. urp_frame_encode d sid sq ty fl cr pl) (snd (urp_buf_alloc_send ep)))" for b sq ty fl cr pl
    using g by (intro rx_at_upd_data[OF 1 assms(2)]) simp
  have enc2: "rx_at g rb out (upd_data b (at_off 20 (\<lambda>d. urp_credit_bytes_encode d c)) ep')" if "rx_at g rb out ep'" for b ep'
    using g by (intro rx_at_upd_data[OF that assms(2)] length_at_off) (simp_all add: urp_credit_bytes_encode_def field_puts)
  show "rx_at g rb out (snd (urp_emit_credit_frame ev ep q sid gr))"
    using assms(1) 1 by (auto simp: urp_emit_credit_frame_def case_prod_beta Let_def split: option.split
        intro!: st rx_at_post_frame enc)
  show "rx_at g rb out (snd (urp_emit_credit_bytes_frame ev ep q sid c))"
    using assms(1) 1 by (auto simp: urp_emit_credit_bytes_frame_def case_prod_beta Let_def split: option.split
        intro!: st rx_at_post_frame enc2 enc)
qed

lemma rx_at_account:
  assumes "rx_at g rb out ep" "rx_geom g"
  shows "rx_at g rb out (rx_account ev ep (Some (r_sid g)) sid qp len)"
proof -
  have w: "rx_at g rb out (rx_window_grant ev ep' q (r_sid g))" if "rx_at g rb out ep'" for ep' q
    using that by (auto simp: rx_window_grant_def Let_def assms(2) split: option.split
        intro!: rx_at_upd_stream rx_at_emit_credit)
  have f: "rx_at g rb out (rx_frame_grant ev ep' q sid)" if "rx_at g rb out ep'" for ep' q
    using that by (auto simp: rx_frame_grant_def Let_def case_prod_beta assms(2)
        intro!: rx_at_emit_credit rx_at_upd_qp)
  show ?thesis using assms(1) by (auto simp: rx_account_def Let_def split: option.split intro!: w f rx_at_upd_qp)
qed

lemma rx_at_samples:
  assumes "rx_at g rb out ep"
  shows "rx_at g rb out (urp_interarrival_sample ev ep)" "rx_at g rb out (urp_owd_sample ev ep i len)"
    "bufs (urp_interarrival_sample ev ep) = bufs ep" "bufs (urp_owd_sample ev ep i len) = bufs ep"
proof -
  have l: "rx_at g rb out (log_ext X_clock ep)" by (rule rx_at_log[OF assms]) (simp add: sent_def)
  show "rx_at g rb out (urp_interarrival_sample ev ep)" "rx_at g rb out (urp_owd_sample ev ep i len)"
    by (auto simp: urp_interarrival_sample_def urp_owd_sample_def ktime_get_ns_def ktime_get_real_ns_def Let_def
        intro: rx_at_cong[OF l])
qed (simp_all add: urp_interarrival_sample_def urp_owd_sample_def ktime_get_ns_def ktime_get_real_ns_def Let_def log_ext_def)

lemma rx_at_repost: "rx_at g rb out ep \<Longrightarrow> rx_at g rb out (rx_repost ev ep i)"
proof -
  assume a: "rx_at g rb out ep"
  define ep1 where "ep1 = snd (urp_buf_alloc_recv (urp_buf_free_recv ep i))"
  have 1: "rx_at g rb out ep1" by (rule rx_at_cong[OF a]) (simp_all add: ep1_def urp_buf_alloc_recv_def urp_buf_free_recv_def split: list.split)
  have fr: "rx_at g rb out ep' \<Longrightarrow> rx_at g rb out (urp_buf_free_recv ep' j)" for ep' j
    by (erule rx_at_cong) (simp_all add: urp_buf_free_recv_def)
  have "rx_at g rb out (snd (urp_post_srq_recv ev ep1 j))" for j
    by (auto simp: urp_post_srq_recv_def Let_def sent_def split: option.split intro!: rx_at_log rx_at_upd_buf[OF 1])
  then show ?thesis using 1 fr
    by (auto simp: rx_repost_def case_prod_beta ep1_def[symmetric] split: option.split)
qed

text \<open>
  What a socket takes of the payloads it is offered: of each a prefix, which is all of it when every
  write is complete, and nothing when the write fails.
\<close>

definition sends_all :: "env \<Rightarrow> bool" where
  "sends_all ev \<longleftrightarrow> (\<forall>tr. \<exists>n. ev_sendmsg ev tr = Inr n \<and> 2 ^ 20 \<le> n)"

definition taken :: "bool \<Rightarrow> bytes list \<Rightarrow> bytes \<Rightarrow> bool" where
  "taken complete ds out \<longleftrightarrow>
     (\<exists>ns. length ns = length ds \<and> out = concat (map2 take ns ds)) \<and> (complete \<longrightarrow> out = concat ds)"

lemma taken_Nil [simp]: "taken c [] []"
  by (simp add: taken_def)

lemma taken_one: "(c \<longrightarrow> length d \<le> n) \<Longrightarrow> taken c [d] (take n d)"
  by (auto simp: taken_def intro!: exI[of _ "[n]"])

lemma taken_append:
  assumes "taken c ds x" "taken c es y"
  shows "taken c (ds @ es) (x @ y)"
proof -
  obtain ns ms where "length ns = length ds" "x = concat (map2 take ns ds)"
    "length ms = length es" "y = concat (map2 take ms es)" using assms by (auto simp: taken_def)
  then show ?thesis using assms by (auto simp: taken_def intro!: exI[of _ "ns @ ms"])
qed

lemma rx_at_send:
  assumes "rx_at g rb out ep" "length d \<le> 2 ^ 20"
  shows "\<exists>x. taken (sends_all ev) [d] x \<and> rx_at g rb (out @ x) (snd (rx_sendmsg ev ep (Some (r_sid g)) (r_uds g) d))"
proof (cases "ev_sendmsg ev (ep_trace ep)")
  case (Inl e)
  then have "\<not> sends_all ev" unfolding sends_all_def by (metis Inl_Inr_False)
  moreover have "rx_at g rb out (log_ext (X_sendmsg_fail (r_uds g)) ep)" by (rule rx_at_log[OF assms(1)]) (simp add: sent_def)
  ultimately show ?thesis using Inl taken_one[of "sends_all ev" d 0] by (intro exI[of _ "[]"]) (simp add: rx_sendmsg_def)
next
  case (Inr n)
  have "rx_at g rb (out @ take n d) (log_ext (X_sendmsg (r_uds g) (take n d)) ep)"
    using assms(1) by (simp add: rx_at_def log_ext_def) (simp add: sent_def)
  then have "rx_at g rb (out @ take n d) (snd (rx_sendmsg ev ep (Some (r_sid g)) (r_uds g) d))"
    unfolding rx_sendmsg_def using Inr by (auto simp: Let_def intro!: rx_at_upd_stream rx_at_upd_stats)
  moreover have "sends_all ev \<longrightarrow> length d \<le> n" using Inr assms(2) unfolding sends_all_def by (metis Inr_inject le_trans)
  ultimately show ?thesis using taken_one by blast
qed

lemma rx_at_scratch:
  assumes "rx_at g rb out ep" "rx_geom g" "i < r_len g" "length d \<le> unat (r_bs g)"
  shows "rx_at g rb out (scratch_put i d ep)" "take (length d) (scratch_get i (scratch_put i d ep)) = d"
proof -
  note ok = rx_at_pages[OF assms(1,3)]
  have n: "bf_num_chunks (bufs ep ! i) = r_n g" using pages_okD(1)[OF ok] .
  have g: "unat (r_bs g) \<le> r_n g * unat (r_cs g)" "0 < r_n g" using assms(2) by (simp_all add: rx_geom_def geom_ok_def)
  have w: "take (length d) (write_at b 0 d) = d" for b by (simp add: write_at_def)
  have "rx_at g rb out (scratch_put i d ep) \<and> take (length d) (scratch_get i (scratch_put i d ep)) = d"
  proof (cases "1 < r_n g")
    case True
    then obtain sc where sc: "ep_recv_scratch ep = Some sc" "unat (r_bs g) \<le> length sc" using assms(1) by (auto simp: rx_at_def)
    then show ?thesis using assms(1,4) n True w by (simp add: rx_at_def scratch_put_def scratch_get_def)
  next
    case False
    then have n1: "r_n g = 1" using g(2) by simp
    then have cs: "length d \<le> unat (r_cs g)" using g(1) assms(4) by simp
    have "rx_at g rb out (upd_data i (\<lambda>b. write_at b 0 d) ep)"
      using cs by (intro rx_at_upd_data[OF assms(1,2)]) simp
    moreover have "bf_pages (bufs (upd_data i (\<lambda>b. write_at b 0 d) ep) ! i) = (bf_pages (bufs ep ! i))[0 := write_at (bf_data (bufs ep ! i)) 0 d]"
      using assms(1,3) by (auto simp: rx_at_def upd_data_def upd_buf_def)
    ultimately show ?thesis using n n1 w by (simp add: scratch_put_def scratch_get_def)
  qed
  then show "rx_at g rb out (scratch_put i d ep)" "take (length d) (scratch_get i (scratch_put i d ep)) = d" by auto
qed

abbreviation popped :: "nat \<Rightarrow> nat \<Rightarrow> urp_reorder \<Rightarrow> bytes list" where
  "popped cap n rb \<equiv> map snd (fst (drain_all (ro_pop cap) n rb))"

lemma drain_loop_stage:
  assumes "rx_geom g" "i < r_len g" "rx_at g rb out ep"
  shows "\<exists>x. taken (sends_all ev) (popped (unat (r_bs g)) n rb) x \<and>
    rx_at g (snd (drain_all (ro_pop (unat (r_bs g))) n rb)) (out @ x) (rx_drain_loop ev (r_sid g) (r_uds g) i n ep)"
  using assms(3)
proof (induction n arbitrary: rb out ep)
  case (Suc n)
  have rb: "stream_reorder (r_sid g) ep = Some rb" "ep_buf_size ep = r_bs g"
    using Suc.prems rx_at_reorder by (auto simp: rx_at_def)
  show ?case
  proof (cases "urp_reorder_drain_next (Some rb) (unat (r_bs g))")
    case (Inl e)
    then show ?thesis using Suc.prems rb by (intro exI[of _ "[]"]) (simp add: ro_pop_def)
  next
    case (Inr x)
    obtain rb1 sq d where x: "x = (rb1, sq, d)" by (cases x)
    have ld: "length d \<le> unat (r_bs g)" using Inr x by (auto simp: urp_reorder_drain_next_def split: list.splits if_splits)
    define ep1 where "ep1 = scratch_put i d (set_reorder (r_sid g) rb1 ep)"
    note 1 = rx_at_scratch[OF rx_at_set_reorder[OF Suc.prems, of rb1] assms(1,2) ld, folded ep1_def]
    define ep2 where "ep2 = snd (urp_rx_send_uds ev ep1 (Some (r_sid g)) (r_uds g) d)"
    have "unat (r_bs g) \<le> 2 ^ 20" using assms(1) by (simp add: rx_geom_def geom_ok_def)
    then have "\<exists>y. taken (sends_all ev) [d] y \<and> rx_at g rb1 (out @ y) ep2"
      using rx_at_send[OF 1(1), of d ev] 1(1) ld taken_one[of "sends_all ev" "[]" 0]
      by (auto simp: ep2_def urp_rx_send_uds_def)
    then obtain y where y: "taken (sends_all ev) [d] y" "rx_at g rb1 (out @ y) ep2" by blast
    obtain z where z: "taken (sends_all ev) (popped (unat (r_bs g)) n rb1) z"
      "rx_at g (snd (drain_all (ro_pop (unat (r_bs g))) n rb1)) ((out @ y) @ z) (rx_drain_loop ev (r_sid g) (r_uds g) i n ep2)"
      using Suc.IH[OF y(2)] by blast
    have "rx_drain_loop ev (r_sid g) (r_uds g) i (Suc n) ep = rx_drain_loop ev (r_sid g) (r_uds g) i n ep2"
      using Inr x rb 1(2) by (simp add: ep2_def Let_def case_prod_beta ep1_def[symmetric])
    moreover have "drain_all (ro_pop (unat (r_bs g))) (Suc n) rb =
        ((sq, d) # fst (drain_all (ro_pop (unat (r_bs g))) n rb1), snd (drain_all (ro_pop (unat (r_bs g))) n rb1))"
      using Inr x by (simp add: ro_pop_def Let_def case_prod_beta)
    ultimately show ?thesis using z(2) taken_append[OF y(1) z(1)] by (intro exI[of _ "y @ z"]) simp
  qed
qed (simp add: exI[of _ "[]"])

lemma drain_stage:
  assumes "rx_geom g" "i < r_len g" "rx_at g rb out ep"
  shows "\<exists>x. taken (sends_all ev) (popped (unat (r_bs g)) (ro_avail rb) rb) x \<and>
    rx_at g (snd (drain_all (ro_pop (unat (r_bs g))) (ro_avail rb) rb)) (out @ x) (rx_drain ev (r_sid g) (r_uds g) i ep)"
  using drain_loop_stage[OF assms, of ev "ro_avail rb"] rx_at_reorder[OF assms(3)] by (simp add: rx_drain_def ro_avail_def)

text \<open>The payload of a frame in a buffer, as the fast path and the slow path read it.\<close>

definition holds :: "rx_conf \<Rightarrow> nat \<Rightarrow> bytes \<Rightarrow> urp_endpoint \<Rightarrow> bool" where
  "holds g i d ep \<longleftrightarrow> 20 + length d \<le> unat (r_bs g) \<and> take (length d) (drop 20 (concat (bf_pages (bufs ep ! i)))) = d"

lemma unat_len: "20 + length d \<le> unat (bs :: u32) \<Longrightarrow> unat (of_nat (length d) :: u32) = length d"
  using unat_bound[of bs] by (simp add: unat_of_nat)

lemma fast_payload:
  assumes "rx_at g rb out ep" "rx_geom g" "i < r_len g" "holds g i d ep"
  shows "kvec_bytes (bf_pages (bufs ep ! i)) (urp_frame_fill_kvecs_len (ep_chunk_size ep) (bf_num_chunks (bufs ep ! i)) (of_nat (length d))) = d"
proof -
  note ok = rx_at_pages[OF assms(1,3)]
  have "kvec_bytes (bf_pages (bufs ep ! i)) (fill_kvecs_loop (r_cs g) 0 (r_n g) 20 (of_nat (length d))) =
      take (unat (of_nat (length d) :: u32)) (drop (unat (20 :: u32)) (concat (drop 0 (bf_pages (bufs ep ! i)))))"
    using ok assms(2) by (intro fill_kvecs_loop_bytes) (auto simp: pages_ok_def rx_geom_def word_less_nat_alt)
  then show ?thesis
    using assms(1,4) pages_okD(1)[OF ok] unat_len[of d "r_bs g"]
    by (simp add: urp_frame_fill_kvecs_len_def frame_consts holds_def rx_at_def)
qed

lemma slow_payload:
  assumes "rx_at g rb out ep" "rx_geom g" "i < r_len g" "holds g i d ep"
    and "rx_slow_payload i (of_nat (length d)) ep = (payload, ep')"
  shows "rx_at g rb out ep'" "take (length d) payload = d"
proof -
  note ok = rx_at_pages[OF assms(1,3)]
  let ?p = "bf_pages (bufs ep ! i)"
  have g: "20 < unat (r_cs g)" "0 < r_n g" "unat (r_bs g) \<le> r_n g * unat (r_cs g)" "unat (r_bs g) \<le> 2 ^ 20"
    using assms(2) by (simp_all add: rx_geom_def geom_ok_def)
  have cs: "ep_chunk_size ep = r_cs g" using assms(1) by (simp add: rx_at_def)
  have h: "20 + length d \<le> unat (r_bs g)" "take (length d) (drop 20 (concat ?p)) = d" using assms(4) by (simp_all add: holds_def)
  note ul = unat_len[OF h(1)]
  have sum: "unat (URP_FRAME_HEADER_SIZE + (of_nat (length d) :: u32)) = 20 + length d"
    using h(1) g(4) by (simp add: frame_consts unat_of_nat unat_word_ariths)
  have "rx_at g rb out ep' \<and> take (length d) payload = d"
  proof (cases "1 < r_n g \<and> r_cs g < URP_FRAME_HEADER_SIZE + (of_nat (length d) :: u32)")
    case True
    then obtain sc where sc: "ep_recv_scratch ep = Some sc" "unat (r_bs g) \<le> length sc" using assms(1) by (auto simp: rx_at_def)
    let ?r = "urp_gather_payload ?p (r_cs g) sc (of_nat (length d))"
    have all: "\<forall>c\<in>set ?p. length c = unat (r_cs g)" using ok by (simp add: pages_ok_def)
    have le: "unat (of_nat (length d) :: u32) \<le> length sc" using ul h(1) sc(2) by simp
    note gf = urp_gather_flat[OF all g(1) le]
    have "unat (snd ?r) = length d" using gf(2) ul h(1) g(3) pages_okD(3)[OF ok] by simp
    then have f: "fst ?r = write_at sc 0 d" using gf(1) h(2) by simp
    have e: "payload = write_at sc 0 d" "ep' = ep\<lparr>ep_recv_scratch := Some (write_at sc 0 d)\<rparr>"
      using assms(5) True sc f pages_okD(1)[OF ok] cs by (auto simp: rx_slow_payload_def Let_def)
    then show ?thesis using assms(1) sc h(1) by (auto simp: rx_at_def write_at_def)
  next
    case False
    have e: "payload = drop 20 (?p ! 0)" "ep' = ep"
      using assms(5) False pages_okD(1)[OF ok] cs by (auto simp: rx_slow_payload_def Let_def frame_consts)
    obtain c q where p: "?p = c # q" using pages_okD(1)[OF ok] g(2) by (cases ?p) auto
    have "20 + length d \<le> unat (r_cs g)"
      using False h(1) g(2,3) sum by (cases "r_n g = 1") (auto simp: word_less_nat_alt)
    moreover have "length c = unat (r_cs g)" using pages_okD(2)[OF ok g(2)] p by simp
    ultimately have "take (length d) (drop 20 c) = d" using h(2) p by simp
    then show ?thesis using e assms(1) p by simp
  qed
  then show "rx_at g rb out ep'" "take (length d) payload = d" by auto
qed

lemma reorder_insert_take:
  "n \<le> length p \<Longrightarrow> urp_reorder_insert km (Some rb) sq (Some p) n = ro_insert km rb sq (take n p)"
  by (simp add: ro_insert_def urp_reorder_insert_def min_absorb2)

abbreviation ro_rx :: "kmalloc_ok \<Rightarrow> nat \<Rightarrow> urp_reorder \<Rightarrow> u64 \<times> bytes \<Rightarrow> (u64 \<times> bytes) list \<times> urp_reorder" where
  "ro_rx km cap \<equiv> rx_frame ro_next_expected (ro_insert km) (ro_skip km) (ro_pop cap) ro_avail"

lemma deliver_stage:
  assumes "rx_geom g" "i < r_len g" "rx_at g rb out ep" "holds g i d ep"
    and "urp_frame_decode_seq (bf_data (bufs ep ! i)) = sq"
  shows "\<exists>tr x. let r = ro_rx (ev_reorder_kmalloc ev tr) (unat (r_bs g)) rb (sq, d)
    in taken (sends_all ev) (map snd (fst r)) x \<and>
      rx_at g (snd r) (out @ x) (rx_deliver ev ep (Some (r_sid g)) (r_uds g) i (of_nat (length d)))"
proof (cases "sq = ro_next_expected rb")
  case True
  define ep1 where "ep1 = snd (urp_rx_send_uds_sg ev ep (Some (r_sid g)) (r_uds g) i (of_nat (length d)))"
  have "length d \<le> 2 ^ 20" using assms(1,4) by (simp add: rx_geom_def geom_ok_def holds_def)
  note snd = rx_at_send[OF assms(3) this, of ev]
  have z: "(of_nat (length d) :: u32) = 0 \<longleftrightarrow> d = []"
    using unat_len[of d "r_bs g"] assms(4) by (auto simp: holds_def unat_eq_0[symmetric])
  have "\<exists>x. taken (sends_all ev) [d] x \<and> rx_at g rb (out @ x) ep1"
    using snd assms(3) z fast_payload[OF assms(3,1,2,4)] taken_one[of "sends_all ev" "[]" 0]
    by (auto simp: ep1_def urp_rx_send_uds_sg_def)
  then obtain x where x: "taken (sends_all ev) [d] x" and 1: "rx_at g rb (out @ x) ep1" by blast
  let ?km = "ev_reorder_kmalloc ev (ep_trace ep1)"
  have adv: "urp_reorder_advance ?km (Some rb) = Some (ro_skip ?km rb)"
    by (simp add: ro_skip_def urp_reorder_advance_def)
  have "rx_deliver ev ep (Some (r_sid g)) (r_uds g) i (of_nat (length d)) =
      rx_drain ev (r_sid g) (r_uds g) i (set_reorder (r_sid g) (ro_skip ?km rb) ep1)"
    using True assms(5) rx_at_reorder[OF assms(3)] rx_at_reorder[OF 1] adv
    by (simp add: rx_deliver_def Let_def case_prod_beta ep1_def[symmetric] urp_reorder_next_expected_def)
  moreover obtain y where y: "taken (sends_all ev) (popped (unat (r_bs g)) (ro_avail (ro_skip ?km rb)) (ro_skip ?km rb)) y"
    "rx_at g (snd (drain_all (ro_pop (unat (r_bs g))) (ro_avail (ro_skip ?km rb)) (ro_skip ?km rb))) ((out @ x) @ y)
       (rx_drain ev (r_sid g) (r_uds g) i (set_reorder (r_sid g) (ro_skip ?km rb) ep1))"
    using drain_stage[OF assms(1,2) rx_at_set_reorder[OF 1, of "ro_skip ?km rb"], of ev] by blast
  ultimately show ?thesis using True taken_append[OF x y(1)]
    by (intro exI[of _ "ep_trace ep1"] exI[of _ "x @ y"]) (simp add: rx_frame_def Let_def case_prod_beta)
next
  case False
  obtain payload ep1 where sl: "rx_slow_payload i (of_nat (length d)) ep = (payload, ep1)" by force
  note 1 = slow_payload[OF assms(3,1,2,4) sl]
  let ?km = "ev_reorder_kmalloc ev (ep_trace ep1)"
  have len: "length d \<le> length payload" using 1(2) by (metis length_take min.cobounded1 min.commute)
  have ul: "unat (of_nat (length d) :: u32) = length d" using unat_len assms(4) by (auto simp: holds_def)
  note st = rx_at_upd_stats
  have nx: "urp_reorder_next_expected (Some rb) = ro_next_expected rb" by (simp add: urp_reorder_next_expected_def)
  define rb1 where "rb1 = (case ro_insert ?km rb sq d of Inl _ \<Rightarrow> rb | Inr b1 \<Rightarrow> b1)"
  define ep2 where "ep2 = (case ro_insert ?km rb sq d of
      Inr rb \<Rightarrow> let ep = set_reorder (r_sid g) rb ep1
        in if sq \<noteq> urp_reorder_next_expected (stream_reorder (r_sid g) ep1)
           then upd_stats (\<lambda>st. st\<lparr>stat_reorder_insertions := stat_reorder_insertions st + 1\<rparr>) ep else ep
    | Inl _ \<Rightarrow> upd_stats (\<lambda>st. st\<lparr>stat_reorder_drops := stat_reorder_drops st + 1\<rparr>) ep1)"
  have 2: "rx_at g rb1 out ep2"
    using 1(1) by (auto simp: ep2_def rb1_def Let_def split: sum.split intro!: st rx_at_set_reorder)
  have "rx_deliver ev ep (Some (r_sid g)) (r_uds g) i (of_nat (length d)) = rx_drain ev (r_sid g) (r_uds g) i ep2"
    using False assms(5) rx_at_reorder[OF assms(3)] rx_at_reorder[OF 1(1)] sl reorder_insert_take[OF len] 1(2) ul nx
    by (simp add: rx_deliver_def urp_rx_deliver_stream_def Let_def ep2_def cong: sum.case_cong)
  then show ?thesis using drain_stage[OF assms(1,2) 2, of ev] False
    by (intro exI[of _ "ep_trace ep1"]) (simp add: rx_frame_def Let_def rb1_def)
qed

text \<open>The device writes a frame into the pages of the buffer it was given, then the completion runs.\<close>

definition arrive :: "nat \<Rightarrow> bytes \<Rightarrow> urp_endpoint \<Rightarrow> urp_endpoint" where
  "arrive i fr ep = upd_buf i (\<lambda>b. b\<lparr>bf_pages := kvec_store (bf_pages b)
     (fill_kvecs_loop (ep_chunk_size ep) 0 (bf_num_chunks b) 0 (of_nat (length fr))) fr\<rparr>) ep"

definition is_rx_frame :: "u32 \<Rightarrow> u64 \<Rightarrow> bytes \<Rightarrow> bytes \<Rightarrow> bool" where
  "is_rx_frame sid sq d fr \<longleftrightarrow> (\<exists>fl tl. fr = data_frame sid sq fl d @ tl
     \<and> fl AND URP_DATA_FLAG_FIN = 0 \<and> fl AND URP_DATA_FLAG_RST = 0)"

lemma arrive_stage:
  assumes "rx_at g rb out ep" "rx_geom g" "i < r_len g" "length fr \<le> unat (r_bs g)"
  shows "rx_at g rb out (arrive i fr ep)" "take (length fr) (concat (bf_pages (bufs (arrive i fr ep) ! i))) = fr"
proof -
  note ok = rx_at_pages[OF assms(1,3)]
  let ?p = "bf_pages (bufs ep ! i)"
  let ?q = "kvec_store ?p (fill_kvecs_loop (r_cs g) 0 (r_n g) 0 (of_nat (length fr))) fr"
  have g: "unat (r_bs g) \<le> r_n g * unat (r_cs g)" "20 < unat (r_cs g)" using assms(2) by (simp_all add: rx_geom_def geom_ok_def)
  have u: "unat (of_nat (length fr) :: u32) = length fr" using assms(4) unat_bound[of "r_bs g"] by (simp add: unat_of_nat)
  have "map length ?q = map length ?p \<and> take 0 ?q = take 0 ?p \<and> concat (drop 0 ?q) = write_at (concat (drop 0 ?p)) (unat (0 :: u32)) fr"
    using ok g u assms(4) pages_okD[OF ok] by (intro kvec_store_loop) (auto simp: pages_ok_def word_less_nat_alt)
  then have q: "map length ?q = map length ?p" "concat ?q = write_at (concat ?p) 0 fr" by simp_all
  have e: "arrive i fr ep = upd_buf i (\<lambda>b. b\<lparr>bf_pages := kvec_store (bf_pages b)
     (fill_kvecs_loop (r_cs g) 0 (bf_num_chunks b) 0 (of_nat (length fr))) fr\<rparr>) ep"
    using assms(1) by (simp add: arrive_def rx_at_def)
  show "rx_at g rb out (arrive i fr ep)"
    unfolding e using pages_ok_map[OF q(1)] pages_okD(1)[OF ok] by (intro rx_at_upd_buf[OF assms(1)]) simp
  have "bf_pages (bufs (arrive i fr ep) ! i) = ?q"
    unfolding e using assms(1,3) pages_okD(1)[OF ok] by (auto simp: rx_at_def upd_buf_def)
  then show "take (length fr) (concat (bf_pages (bufs (arrive i fr ep) ! i))) = fr"
    using q(2) by (simp add: write_at_def)
qed

lemma dispatch_open:
  assumes "rx_at g rb out ep" "fl AND URP_DATA_FLAG_FIN = 0" "fl AND URP_DATA_FLAG_RST = 0"
  shows "\<exists>ep'. rx_stream_target ev ep (r_sid g) fl = ((Some (r_uds g), Some (r_sid g)), ep') \<and> rx_at g rb out ep' \<and> bufs ep' = bufs ep"
proof -
  obtain s where s: "ht_lookup (ep_streams ep) (r_sid g) = Some s" "s_uds_sock s = Some (r_uds g)" "s_state s \<notin> closing_states"
    "ep_streams_inited ep" using assms(1) by (auto simp: rx_at_def)
  define t where "t = urp_stream_next_state (s_state s) URP_STREAM_EV_RX_SYN"
  have t: "tr_accepted t" "tr_next t \<notin> closing_states" using s(3) by (cases "s_state s"; simp add: t_def sm_defs)+
  define ep1 where "ep1 = (if fl AND URP_DATA_FLAG_SYN \<noteq> 0 then upd_stream (r_sid g) (\<lambda>s. s\<lparr>s_state := tr_next t\<rparr>) ep else ep)"
  have 1: "rx_at g rb out ep1" "bufs ep1 = bufs ep"
    using assms(1) t(2) by (auto simp: ep1_def intro!: rx_at_upd_stream) (simp add: upd_stream_def)
  have "urp_stream_rx_dispatch ev ep (r_sid g) fl = (Inr (Some (r_sid g)), ep1)"
    using s t(1) assms(2,3) by (simp add: urp_stream_rx_dispatch_def dispatch_found_def urp_stream_rx_syn_def urp_stream_lookup_def
        ep1_def t_def[symmetric] Let_def)
  moreover obtain s1 where "ht_lookup (ep_streams ep1) (r_sid g) = Some s1" "s_uds_sock s1 = Some (r_uds g)"
    using 1(1) by (auto simp: rx_at_def)
  ultimately show ?thesis using 1 by (simp add: rx_stream_target_def urp_stream_needs_backend_def stream_sock_def)
qed

lemma recv_data_stage:
  assumes "rx_geom g" "i < r_len g" "rx_at g rb out ep" "length fr \<le> unat (r_bs g)"
    and "is_rx_frame (r_sid g) sq d fr" "wc_success wc" "wc_byte_len wc = of_nat (length fr)"
  shows "\<exists>tr x. let r = ro_rx (ev_reorder_kmalloc ev tr) (unat (r_bs g)) rb (sq, d)
    in taken (sends_all ev) (map snd (fst r)) x \<and> rx_at g (snd r) (out @ x) (urp_recv_done ev (arrive i fr ep) i wc)"
proof -
  obtain fl tl where fr: "fr = data_frame (r_sid g) sq fl d @ tl" and fl: "fl AND URP_DATA_FLAG_FIN = 0" "fl AND URP_DATA_FLAG_RST = 0"
    using assms(5) by (auto simp: is_rx_frame_def)
  let ?h = "frame_header (r_sid g) sq URP_FRAME_TYPE_DATA fl 0 (of_nat (length d) :: u32)"
  have fr': "fr = ?h @ d @ tl" using fr by (simp add: data_frame_def)
  have g: "20 < unat (r_cs g)" "0 < r_n g" "unat (r_bs g) \<le> 2 ^ 20" "r_sid g \<noteq> 0" using assms(1) by (simp_all add: rx_geom_def geom_ok_def)
  define ep1 where "ep1 = arrive i fr ep"
  note 1 = arrive_stage[OF assms(3,1,2,4), folded ep1_def]
  note ok = rx_at_pages[OF 1(1) assms(2)]
  obtain c q where p: "bf_pages (bufs ep1 ! i) = c # q" using pages_okD(1)[OF ok] g(2) by (cases "bf_pages (bufs ep1 ! i)") auto
  have lc: "20 < length c" using pages_okD(2)[OF ok g(2)] p g(1) by simp
  have ld: "20 + length d \<le> unat (r_bs g)" using assms(4) fr' by simp
  have "take 20 (take (length fr) (c @ concat q)) = take 20 fr" using 1(2) p by simp
  then have "take 20 c = ?h" using fr' lc by simp
  then have c: "c = urp_frame_encode c (r_sid g) sq URP_FRAME_TYPE_DATA fl 0 (of_nat (length d))"
    using lc by (simp add: urp_frame_encode_layout write_at_def) (metis append_take_drop_id)
  have "take (length d) (drop 20 (take (length fr) (concat (bf_pages (bufs ep1 ! i))))) = d" using 1(2) fr' by simp
  then have h: "holds g i d ep1" using ld fr' by (simp add: holds_def drop_take)
  have ul: "unat (of_nat (length d) :: u32) = length d" using unat_len[OF ld] .
  have bl: "unat (wc_byte_len wc) = length fr" using assms(4,7) g(3) by (simp add: unat_of_nat)
  have cl: "urp_classify_frame (wc_byte_len wc) c = (URP_RX_DELIVER_STREAM,
      \<lparr> rd_payload_len = of_nat (length d), rd_stream_id = r_sid g, rd_credits = 0, rd_type = 0, rd_flags = fl \<rparr>)"
    using lc g(3,4) ul bl ld fr'
    by (subst c, intro urp_classify_encoded_data) simp_all
  have seq: "urp_frame_decode_seq c = sq" using lc by (subst c, simp add: urp_frame_decode_encode)
  obtain ep2 where tg: "rx_stream_target ev ep1 (r_sid g) fl = ((Some (r_uds g), Some (r_sid g)), ep2)"
    and 2: "rx_at g rb out ep2" "bufs ep2 = bufs ep1" using dispatch_open[OF 1(1) fl] by blast
  define ep3 where "ep3 = (if sy_interarrival_hist (ev_sysctl ev) \<noteq> 0 then urp_interarrival_sample ev ep2 else ep2)"
  define ep4 where "ep4 = (if ep_tstamp_negotiated ep3 \<and> fl AND URP_DATA_FLAG_TSTAMP \<noteq> 0
      \<and> URP_FRAME_HEADER_SIZE + of_nat (length d) + URP_TSTAMP_TRAILER_LEN \<le> wc_byte_len wc
      then urp_owd_sample ev ep3 i (of_nat (length d)) else ep3)"
  have 3: "rx_at g rb out ep3" "bufs ep3 = bufs ep1" using rx_at_samples[OF 2(1)] 2 by (simp_all add: ep3_def)
  have 4: "rx_at g rb out ep4" "bufs ep4 = bufs ep1" using rx_at_samples[OF 3(1)] 3 by (simp_all add: ep4_def)
  have "holds g i d ep4" "urp_frame_decode_seq (bf_data (bufs ep4 ! i)) = sq" using h seq 4(2) p by (simp_all add: holds_def)
  note dl = deliver_stage[OF assms(1,2) 4(1) this, of ev]
  have "urp_recv_done ev ep1 i wc = rx_repost ev (rx_account ev
      (rx_deliver ev ep4 (Some (r_sid g)) (r_uds g) i (of_nat (length d))) (Some (r_sid g)) (r_sid g) (wc_qp wc) (of_nat (length d))) i"
    using assms(6) cl tg p by (simp add: urp_recv_done_def rx_handle_def rx_data_def Let_def ep3_def[symmetric] ep4_def)
  then show ?thesis using dl unfolding ep1_def[symmetric] Let_def
    by (auto intro!: rx_at_repost rx_at_account[OF _ assms(1)])
qed

text \<open>
  A sequence of arrivals, each a buffer, a frame and a queue pair; between two completions the other
  threads run, and leave the receive side of this stream alone.
\<close>

primrec rx_run :: "env \<Rightarrow> (urp_endpoint \<Rightarrow> urp_endpoint) \<Rightarrow> (nat \<times> bytes \<times> nat) list \<Rightarrow> urp_endpoint \<Rightarrow> urp_endpoint" where
  "rx_run ev itf [] ep = ep"
| "rx_run ev itf (a # as) ep =
    (case a of (i, fr, qp) \<Rightarrow>
       rx_run ev itf as (itf (urp_recv_done ev (arrive i fr ep) i
         \<lparr> wc_success = True, wc_byte_len = of_nat (length fr), wc_qp = qp \<rparr>)))"

definition rx_undisturbed :: "rx_conf \<Rightarrow> (urp_endpoint \<Rightarrow> urp_endpoint) \<Rightarrow> bool" where
  "rx_undisturbed g itf \<longleftrightarrow> (\<forall>rb out ep. rx_at g rb out ep \<longrightarrow> rx_at g rb out (itf ep))"

definition carries :: "rx_conf \<Rightarrow> (u64 \<Rightarrow> bytes) \<Rightarrow> nat \<times> bytes \<times> nat \<Rightarrow> u64 \<Rightarrow> bool" where
  "carries g D a sq \<longleftrightarrow> (case a of (i, fr, qp) \<Rightarrow> i < r_len g \<and> length fr \<le> unat (r_bs g)
     \<and> is_rx_frame (r_sid g) sq (D sq) fr)"

lemma rx_run_step:
  assumes "rx_geom g" "rx_undisturbed g itf" "rx_at g rb out ep" "carries g D a sq"
  obtains tr x ep1 where "rx_run ev itf (a # as) ep = rx_run ev itf as ep1"
    "taken (sends_all ev) (map snd (fst (ro_rx (ev_reorder_kmalloc ev tr) (unat (r_bs g)) rb (sq, D sq)))) x"
    "rx_at g (snd (ro_rx (ev_reorder_kmalloc ev tr) (unat (r_bs g)) rb (sq, D sq))) (out @ x) ep1"
proof -
  obtain i fr qp where a: "a = (i, fr, qp)" by (cases a)
  then have c: "i < r_len g" "length fr \<le> unat (r_bs g)" "is_rx_frame (r_sid g) sq (D sq) fr"
    using assms(4) by (simp_all add: carries_def)
  let ?wc = "\<lparr> wc_success = True, wc_byte_len = of_nat (length fr), wc_qp = qp \<rparr>"
  from recv_data_stage[OF assms(1) c(1) assms(3) c(2,3), of ?wc ev] obtain tr x where
    "taken (sends_all ev) (map snd (fst (ro_rx (ev_reorder_kmalloc ev tr) (unat (r_bs g)) rb (sq, D sq)))) x"
    "rx_at g (snd (ro_rx (ev_reorder_kmalloc ev tr) (unat (r_bs g)) rb (sq, D sq))) (out @ x)
       (urp_recv_done ev (arrive i fr ep) i ?wc)" by (auto simp: Let_def)
  then show ?thesis using assms(2) a
    by (intro that[of "itf (urp_recv_done ev (arrive i fr ep) i ?wc)" tr x]) (simp_all add: rx_undisturbed_def)
qed

definition payloads :: "(u64 \<Rightarrow> bytes) \<Rightarrow> nat \<Rightarrow> bytes list" where
  "payloads D n = map (\<lambda>k. D (of_nat k)) [0..<n]"

lemma payloads_append: "i \<le> j \<Longrightarrow> payloads D i @ map snd (stream_run D i j) = payloads D j"
proof -
  assume "i \<le> j"
  then have "[0..<j] = [0..<i] @ [i..<j]" using upt_add_eq_append[of 0 i "j - i"] by simp
  then show ?thesis by (simp add: payloads_def stream_run_def comp_def)
qed

lemma rx_run_safe:
  assumes "rx_geom g" "rx_undisturbed g itf" "\<forall>s. length (D s) \<le> unat (r_bs g)"
    and "\<forall>a\<in>set as. \<exists>sq. sq \<noteq> U64_MAX \<and> carries g D a sq"
    and "taken (sends_all ev) (payloads D (ro_cursor rb)) x" "rx_at g rb (out @ x) ep" "ro_ok D rb" "ro_avail rb = 0"
  shows "\<exists>rb' y. taken (sends_all ev) (payloads D (ro_cursor rb')) y \<and> rx_at g rb' (out @ y) (rx_run ev itf as ep)
    \<and> ro_ok D rb' \<and> ro_avail rb' = 0"
  using assms(4-8)
proof (induction as arbitrary: rb x ep)
  case (Cons a as)
  obtain sq where sq: "sq \<noteq> U64_MAX" "carries g D a sq" using Cons.prems(1) by auto
  from rx_run_step[OF assms(1,2) Cons.prems(3) sq(2)] obtain tr y ep1 where
    st: "rx_run ev itf (a # as) ep = rx_run ev itf as ep1"
      "taken (sends_all ev) (map snd (fst (ro_rx (ev_reorder_kmalloc ev tr) (unat (r_bs g)) rb (sq, D sq)))) y"
      "rx_at g (snd (ro_rx (ev_reorder_kmalloc ev tr) (unat (r_bs g)) rb (sq, D sq))) ((out @ x) @ y) ep1" .
  have inv: "ro_ok D rb \<and> (\<forall>s. length (D s) \<le> unat (r_bs g))" using Cons.prems(4) assms(3) by simp
  obtain rb1 where r: "ro_rx (ev_reorder_kmalloc ev tr) (unat (r_bs g)) rb (sq, D sq) = (stream_run D (ro_cursor rb) (ro_cursor rb1), rb1)"
    and 1: "ro_ok D rb1" "ro_avail rb1 = 0" "ro_cursor rb \<le> ro_cursor rb1"
    using ro.rx_frame_run[OF inv Cons.prems(5) sq(1), of "ev_reorder_kmalloc ev tr"] by blast
  have "taken (sends_all ev) (payloads D (ro_cursor rb1)) (x @ y)"
    using taken_append[OF Cons.prems(2) st(2)] unfolding r fst_conv payloads_append[OF 1(3)] .
  moreover have "rx_at g rb1 (out @ (x @ y)) ep1" using st(3) unfolding r snd_conv append_assoc .
  ultimately show ?case using Cons.IH[of rb1 "x @ y" ep1] Cons.prems(1) 1 st(1) by simp
qed auto

lemma rx_run_frames:
  assumes "rx_geom g" "rx_undisturbed g itf" "\<And>tr rb. ev_reorder_kmalloc ev tr rb"
    and "list_all2 (carries g D) as sqs" "rx_at g rb out ep"
    and "rx_frames ro_next_expected (ro_insert (\<lambda>_. True)) (ro_skip (\<lambda>_. True)) (ro_pop (unat (r_bs g))) ro_avail rb
      (map (\<lambda>s. (s, D s)) sqs) = (fs, rb')"
  shows "\<exists>x. taken (sends_all ev) (map snd fs) x \<and> rx_at g rb' (out @ x) (rx_run ev itf as ep)"
  using assms(4-6)
proof (induction arbitrary: rb out ep fs rule: list_all2_induct)
  case (Cons a as sq sqs)
  have km: "ev_reorder_kmalloc ev tr = (\<lambda>_. True)" for tr using assms(3) by auto
  obtain fs1 rb1 where r: "ro_rx (\<lambda>_. True) (unat (r_bs g)) rb (sq, D sq) = (fs1, rb1)" by force
  obtain fs2 where r2: "rx_frames ro_next_expected (ro_insert (\<lambda>_. True)) (ro_skip (\<lambda>_. True)) (ro_pop (unat (r_bs g))) ro_avail rb1
      (map (\<lambda>s. (s, D s)) sqs) = (fs2, rb')" and fs: "fs = fs1 @ fs2"
    using Cons.prems(2) r by (auto split: prod.splits)
  from rx_run_step[OF assms(1,2) Cons.prems(1) Cons.hyps(1)] obtain tr x ep1 where
    run: "rx_run ev itf (a # as) ep = rx_run ev itf as ep1"
      "taken (sends_all ev) (map snd (fst (ro_rx (ev_reorder_kmalloc ev tr) (unat (r_bs g)) rb (sq, D sq)))) x"
      "rx_at g (snd (ro_rx (ev_reorder_kmalloc ev tr) (unat (r_bs g)) rb (sq, D sq))) (out @ x) ep1" .
  note st = run[unfolded km r fst_conv snd_conv]
  from Cons.IH[OF st(3) r2] obtain y where y: "taken (sends_all ev) (map snd fs2) y"
    "rx_at g rb' ((out @ x) @ y) (rx_run ev itf as ep1)" by blast
  show ?case using taken_append[OF st(2) y(1)] y(2) fs unfolding st(1) by (intro exI[of _ "x @ y"]) simp
qed (auto intro!: exI[of _ "[]"])

lemma concat_map2_take:
  "length ns = n \<Longrightarrow> concat (map2 take ns (payloads D n)) = concat (map (\<lambda>k. take (ns ! k) (D (of_nat k))) [0..<n])"
  by (intro arg_cong[of _ _ concat] nth_equalityI) (simp_all add: payloads_def)

text \<open>C2: In-order delivery of a stream: whatever order the frames of an open stream complete in, with
  repeats, through the fast path or the slow path, on single-page and multi-page pools, with samples,
  grants and failing reorder allocations in between, the payloads offered to the backend socket are
  those of frames 0, 1, 2 and so on up to the frame the reorder buffer expects next, each once and in
  order.  The bytes on the socket are what it took of each: a prefix of the payload, cut off where a
  write was short and empty where a write failed, for the code carries on after either; when every
  write is complete they are the payloads themselves.  The stream stays open (no FIN or RST), and
  what runs between two completions leaves its receive side alone.\<close>

theorem stream_rx_in_order:
  assumes "rx_geom g" "rx_undisturbed g itf" "\<forall>s. length (D s) \<le> unat (r_bs g)"
    and "\<forall>a\<in>set as. \<exists>sq. sq \<noteq> U64_MAX \<and> carries g D a sq"
    and "urp_reorder_alloc True 0 m = Some rb" "m \<noteq> U32_MAX" "rx_at g rb out ep"
  shows "\<exists>rb' ns. stream_reorder (r_sid g) (rx_run ev itf as ep) = Some rb' \<and>
    length ns = unat (ro_next_expected rb') \<and>
    sent (r_uds g) (ep_trace (rx_run ev itf as ep)) =
      out @ concat (map (\<lambda>k. take (ns ! k) (D (of_nat k))) [0..<length ns]) \<and>
    (sends_all ev \<longrightarrow> sent (r_uds g) (ep_trace (rx_run ev itf as ep)) =
      out @ concat (map (\<lambda>k. D (of_nat k)) [0..<length ns]))"
proof -
  note al = ro_ok_alloc[OF assms(5,6)]
  have "taken (sends_all ev) (payloads D (ro_cursor rb)) []" using al(3) by (simp add: payloads_def)
  from rx_run_safe[OF assms(1-4) this _ al(1,4), of out ep] assms(7) obtain rb' y where
    y: "taken (sends_all ev) (payloads D (ro_cursor rb')) y" and at: "rx_at g rb' (out @ y) (rx_run ev itf as ep)"
    and ok: "ro_ok D rb'" "ro_avail rb' = 0" by auto
  have c: "ro_cursor rb' = unat (ro_next_expected rb')" using ok(2) by (simp add: ro_cursor_def ro_avail_def)
  obtain ns where ns: "length ns = ro_cursor rb'" "y = concat (map2 take ns (payloads D (ro_cursor rb')))"
    using y by (auto simp: taken_def payloads_def)
  have "sends_all ev \<longrightarrow> y = concat (map (\<lambda>k. D (of_nat k)) [0..<length ns])"
    using y ns(1) by (simp add: taken_def payloads_def)
  then show ?thesis using ns c at rx_at_reorder[OF at] concat_map2_take[OF ns(1), of D]
    by (intro exI[of _ rb'] exI[of _ ns]) (simp add: rx_at_def)
qed

definition sample_rx_conf :: rx_conf where
  "sample_rx_conf = \<lparr> r_bs = 128, r_cs = 128, r_n = 1, r_len = 2, r_sid = 1, r_uds = 7 \<rparr>"

definition sample_rx :: urp_endpoint where
  "sample_rx = (sample_tx True)\<lparr>ep_streams_inited := True\<rparr>"

definition sample_rx_env :: env where
  "sample_rx_env = sample_env\<lparr>ev_sendmsg := (\<lambda>_. Inr 1048576)\<rparr>"

lemma sample_rx_ok:
  "rx_geom sample_rx_conf" "sends_all sample_rx_env" "rx_undisturbed sample_rx_conf (log_ext X_kthread_run)"
  "rx_at sample_rx_conf example_rb [] sample_rx"
proof -
  have "pages_ok 128 1 [replicate 128 0]" by (simp add: pages_ok_def)
  then show "rx_at sample_rx_conf example_rb [] sample_rx"
    by (simp add: rx_at_def sample_rx_conf_def sample_rx_def sample_tx_def ht_lookup_def sample_stream_def stream_new_def)
      (simp add: sample_ep_def less_2_cases_iff)
qed (auto simp: rx_geom_def geom_ok_def sample_rx_conf_def sends_all_def sample_rx_env_def rx_undisturbed_def sent_def intro: rx_at_log)

theorem stream_rx_in_order_witness:
  "\<exists>n. sent 7 (ep_trace (rx_run sample_rx_env (log_ext X_kthread_run)
       [(0, data_frame 1 1 0 [5], 100), (1, data_frame 1 0 URP_DATA_FLAG_SYN [4], 101)] sample_rx)) =
     concat (map (\<lambda>k. [4 + ucast (of_nat k :: u64) :: u8]) [0..<n])"
proof -
  let ?D = "\<lambda>s :: u64. [4 + ucast s :: u8]"
  have al: "urp_reorder_alloc True 0 4 = Some example_rb" by code_simp
  have "is_rx_frame 1 1 [5] (data_frame 1 1 0 [5])" "is_rx_frame 1 0 [4] (data_frame 1 0 URP_DATA_FLAG_SYN [4])"
    unfolding is_rx_frame_def by (rule exI[of _ 0], simp, rule exI[of _ URP_DATA_FLAG_SYN], simp add: frame_consts)
  then have "carries sample_rx_conf ?D (0, data_frame 1 1 0 [5], 100) 1"
    "carries sample_rx_conf ?D (1, data_frame 1 0 URP_DATA_FLAG_SYN [4], 101) 0"
    by (simp_all add: carries_def sample_rx_conf_def) (simp_all add: data_frame_def)
  then have "\<forall>a\<in>set [(0, data_frame 1 1 0 [5], 100), (1, data_frame 1 0 URP_DATA_FLAG_SYN [4], 101)].
      \<exists>sq. sq \<noteq> U64_MAX \<and> carries sample_rx_conf ?D a sq"
    by (auto intro: exI[of _ 1] exI[of _ 0])
  from stream_rx_in_order[OF sample_rx_ok(1,3) _ this al _ sample_rx_ok(4), of sample_rx_env]
  show ?thesis using sample_rx_ok(2) by (auto simp: sample_rx_conf_def)
qed

end
