(* ===== verification/Urp_Pool_Frame.thy ===== *)
theory Urp_Pool_Frame
  imports Urp_Queues
begin

text \<open>
  What the pool and the shared receive queue leave alone.  A view of an endpoint that ignores the
  fields of the pool and the calls its operations make is not changed by any of them; the lemmas are
  proved once, for every such view.
\<close>

named_theorems frame_simps

locale pool_frame =
  fixes proj :: "urp_endpoint \<Rightarrow> 'a"
  assumes frame_log [frame_simps]: "proj (log_ext (X_alloc k) ep) = proj ep" "proj (log_ext (X_alloc_fail k) ep) = proj ep"
      "proj (log_ext (X_free k) ep) = proj ep" "proj (log_ext (X_post_srq_recv i ls) ep) = proj ep"
      "proj (log_ext (X_post_srq_recv_fail i) ep) = proj ep"
    and frame_fields [frame_simps]: "proj (ep\<lparr>ep_ib_dev := b\<rparr>) = proj ep" "proj (ep\<lparr>ep_send_cq := b\<rparr>) = proj ep"
      "proj (ep\<lparr>ep_recv_cq := b\<rparr>) = proj ep" "proj (ep\<lparr>ep_srq := b\<rparr>) = proj ep"
      "proj (ep\<lparr>ep_page_pool := b\<rparr>) = proj ep" "proj (ep\<lparr>ep_bufs := bs\<rparr>) = proj ep"
      "proj (ep\<lparr>ep_recv_scratch := sc\<rparr>) = proj ep" "proj (ep\<lparr>ep_send_free := l\<rparr>) = proj ep"
      "proj (ep\<lparr>ep_recv_free := l\<rparr>) = proj ep" "proj (ep\<lparr>ep_srq_pool_target := w\<rparr>) = proj ep"
      "proj (ep\<lparr>ep_num_chunks := w\<rparr>) = proj ep" "proj (ep\<lparr>ep_chunk_size := w\<rparr>) = proj ep"
      "proj (ep\<lparr>ep_max_frame := w\<rparr>) = proj ep" "proj (upd_buf j g ep) = proj ep"
begin

lemma proj_kalloc [frame_simps]: "proj (snd (kalloc ev k ep)) = proj ep"
  by (simp add: kalloc_def frame_simps split: option.split)

lemma proj_kalloc_eq [frame_simps]: "kalloc ev k ep = (r, ep') \<Longrightarrow> proj ep' = proj ep"
  using proj_kalloc[of ev k ep] by simp

lemma proj_backing_free [frame_simps]: "proj (urp_buf_backing_free ep pages) = proj ep"
proof -
  have "proj (backing_free_loop n ep) = proj ep" for n ep
    by (induction n arbitrary: ep) (simp_all add: frame_simps)
  then show ?thesis by (simp add: urp_buf_backing_free_def frame_simps)
qed

lemma proj_free_all [frame_simps]: "proj (bufs_free_all bs ep) = proj ep"
  by (induction bs arbitrary: ep) (simp_all add: bufs_free_all_def frame_simps)

lemma proj_backing_loop: "proj (snd (backing_alloc_loop ev n pages ep)) = proj ep"
  by (induction n arbitrary: pages ep) (simp_all add: frame_simps split: prod.split option.split)

lemma proj_backing_alloc [frame_simps]: "proj (snd (urp_buf_backing_alloc ev ep)) = proj ep"
proof -
  obtain r1 ep1 where 1: "kalloc ev O_arrays ep = (r1, ep1)" by force
  obtain r2 ep2 where 2: "kalloc ev O_arrays ep1 = (r2, ep2)" by force
  have "proj ep2 = proj ep" using 1 2 by (simp add: frame_simps)
  moreover obtain p ep3 where 3: "backing_alloc_loop ev (unat (ep_num_chunks ep2)) [] ep2 = (p, ep3)" by force
  moreover have "proj ep3 = proj ep2" using proj_backing_loop[of ev _ "[]" ep2] 3 by (metis snd_conv)
  ultimately show ?thesis using 1 2 by (cases p) (simp_all add: urp_buf_backing_alloc_def frame_simps)
qed

lemma proj_bufs_loop: "proj (snd (snd (bufs_alloc_loop ev n bs ep))) = proj ep"
proof (induction n arbitrary: bs ep)
  case (Suc n)
  obtain r ep1 where 1: "urp_buf_backing_alloc ev ep = (r, ep1)" by force
  have "proj ep1 = proj ep" using proj_backing_alloc[of ev ep] 1 by simp
  then show ?case using Suc 1 by (cases r) (simp_all add: Let_def frame_simps)
qed simp

lemma proj_init_err [frame_simps]: "proj (snd (bufs_init_err bs ep)) = proj ep"
  by (simp add: bufs_init_err_def frame_simps)

lemma proj_init_finish [frame_simps]: "proj (snd (bufs_init_finish ev bs ep)) = proj ep"
  by (simp add: bufs_init_finish_def Let_def frame_simps split: prod.split option.split)

lemma proj_bufs_init [frame_simps]: "proj (snd (urp_bufs_init ev ep)) = proj ep"
proof -
  obtain a where a: "a = ep\<lparr>ep_num_chunks := fst a', ep_chunk_size := snd a', ep_max_frame := ep_buf_size ep,
      ep_send_free := [], ep_recv_free := []\<rparr>" if "a' = the (urp_resolve_chunks (da_page_size (ev_dev ev)) (ep_buf_size ep)
        (min (da_max_send_sge (ev_dev ev)) (min (da_max_recv_sge (ev_dev ev)) (da_max_srq_sge (ev_dev ev)))))" for a'
    by blast
  have 0: "proj a = proj ep" using a[OF refl] by (simp add: frame_simps)
  obtain r1 ep1 where 1: "kalloc ev O_bufs a = (r1, ep1)" by force
  obtain r2 ep2 where 2: "kalloc ev O_page_pool ep1 = (r2, ep2)" by force
  obtain ok bs ep3 where 3: "bufs_alloc_loop ev (unat (ep_num_bufs ep2)) [] (ep2\<lparr>ep_page_pool := True\<rparr>) = (ok, bs, ep3)"
    by (metis surj_pair)
  have c: "proj ep1 = proj ep" "proj ep2 = proj ep" using 0 1 2 by (simp_all add: frame_simps)
  have "proj ep3 = proj ep"
    using proj_bufs_loop[of ev "unat (ep_num_bufs ep2)" "[]" "ep2\<lparr>ep_page_pool := True\<rparr>"] 3 c by (simp add: frame_simps)
  then show ?thesis using 1 2 3 c a[OF refl]
    by (cases r1; cases r2; cases ok) (simp_all add: urp_bufs_init_def Let_def case_prod_beta frame_simps)
qed

lemma proj_bufs_cleanup [frame_simps]: "proj (urp_bufs_cleanup ep) = proj ep"
  by (simp add: urp_bufs_cleanup_def Let_def frame_simps)

lemma proj_srq_loop: "proj (snd (srq_post_loop ev n p ep)) = proj ep"
proof (induction n arbitrary: p ep)
  case (Suc n)
  then show ?case
    by (cases "ep_recv_free ep")
      (simp_all add: urp_buf_alloc_recv_def urp_buf_free_recv_def urp_post_srq_recv_def Let_def frame_simps
        split: option.split)
qed simp

lemma proj_srq_create [frame_simps]: "proj (snd (urp_srq_create ev ep)) = proj ep"
proof -
  obtain r1 ep1 where 1: "kalloc ev O_srq (ep\<lparr>ep_srq_pool_target :=
      min (ep_num_bufs ep div 2) (da_max_srq_wr (ev_dev ev))\<rparr>) = (r1, ep1)" by force
  have c: "proj ep1 = proj ep" using 1 by (simp add: frame_simps)
  obtain r2 ep2 where 2: "srq_post_loop ev (unat (ep_srq_pool_target ep1)) 0 (ep1\<lparr>ep_srq := True\<rparr>) = (r2, ep2)" by force
  have "proj ep2 = proj ep"
    using proj_srq_loop[of ev "unat (ep_srq_pool_target ep1)" 0 "ep1\<lparr>ep_srq := True\<rparr>"] 2 c by (simp add: frame_simps)
  then show ?thesis using 1 2 c
    by (cases r1; cases r2) (simp_all add: urp_srq_create_def urp_srq_post_initial_def Let_def frame_simps)
qed

lemma proj_srq_destroy [frame_simps]: "proj (urp_srq_destroy ep) = proj ep"
  by (simp add: urp_srq_destroy_def frame_simps)

end

text \<open>A view that also ignores the protection domain is not changed by the whole setup.\<close>

locale shared_frame = pool_frame +
  assumes frame_pd [frame_simps]: "proj (ep\<lparr>ep_pd := b\<rparr>) = proj ep"
begin

lemma proj_setup_err [frame_simps]:
  "proj (snd (setup_err_pd e ep)) = proj ep" "proj (snd (setup_err_bufs e ep)) = proj ep"
  "proj (snd (setup_err_send_cq e ep)) = proj ep" "proj (snd (setup_err_recv_cq e ep)) = proj ep"
  by (simp_all add: setup_err_recv_cq_def setup_err_send_cq_def setup_err_bufs_def setup_err_pd_def frame_simps)

lemma proj_setup_queues [frame_simps]: "proj (snd (setup_queues ev ep)) = proj ep"
proof -
  obtain r1 ep1 where 1: "kalloc ev O_send_cq ep = (r1, ep1)" by force
  obtain r2 ep2 where 2: "kalloc ev O_recv_cq (ep1\<lparr>ep_send_cq := True\<rparr>) = (r2, ep2)" by force
  obtain r3 ep3 where 3: "urp_srq_create ev (ep2\<lparr>ep_recv_cq := True\<rparr>) = (r3, ep3)" by force
  have c: "proj ep1 = proj ep" "proj ep2 = proj ep" using 1 2 by (simp_all add: frame_simps)
  have "proj ep3 = proj ep" using proj_srq_create[of ev "ep2\<lparr>ep_recv_cq := True\<rparr>"] 3 c by (simp add: frame_simps)
  then show ?thesis using 1 2 3 c
    by (cases r1; cases r2; cases r3) (simp_all add: setup_queues_def Let_def frame_simps)
qed

lemma proj_setup_shared: "proj (snd (urp_endpoint_setup_shared ev ep)) = proj ep"
proof -
  obtain r1 ep1 where 1: "kalloc ev O_pd (ep\<lparr>ep_ib_dev := True\<rparr>) = (r1, ep1)" by force
  obtain r2 ep2 where 2: "urp_bufs_init ev (ep1\<lparr>ep_pd := True\<rparr>) = (r2, ep2)" by force
  have c: "proj ep1 = proj ep" using 1 by (simp add: frame_simps)
  have "proj ep2 = proj ep" using proj_bufs_init[of ev "ep1\<lparr>ep_pd := True\<rparr>"] 2 c by (simp add: frame_simps)
  then show ?thesis using 1 2 c
    by (cases r1; cases r2) (simp_all add: urp_endpoint_setup_shared_def frame_simps)
qed

end

end
