(* ===== verification/Urp_Conn.thy ===== *)
theory Urp_Conn
  imports Urp_Pump Urp_Pool_Frame
begin

text \<open>
  Connection management (kernel/urp\_rdma.c): the private data of connect and accept, the creation
  and destruction of queue pairs on connection identifiers, the acceptor's slot allocation with its
  unwinding, the handler of connection events, the initiator's dial, its retry work and the start
  and stop of the RDMA side of an endpoint.  An event handler runs as one step; the identifier it
  is called for and the context hanging off it are its arguments.
\<close>

section \<open>Calls on connection identifiers\<close>

definition rdma_call :: "env \<Rightarrow> rdma_op \<Rightarrow> nat \<Rightarrow> urp_endpoint \<Rightarrow> errno option \<times> urp_endpoint" where
  "rdma_call ev op cid ep = (ev_rdma ev (ep_trace ep) op, log_ext (X_rdma op cid) ep)"

definition rdma_call_data ::
    "env \<Rightarrow> rdma_op \<Rightarrow> nat \<Rightarrow> bytes \<Rightarrow> urp_endpoint \<Rightarrow> errno option \<times> urp_endpoint" where
  "rdma_call_data ev op cid data ep = (ev_rdma ev (ep_trace ep) op, log_ext (X_rdma_data op cid data) ep)"

definition rdma_create_id :: "env \<Rightarrow> urp_endpoint \<Rightarrow> nat result \<times> urp_endpoint" where
  "rdma_create_id ev ep =
    (case kalloc ev O_cm_id ep of
       (Some e, ep) \<Rightarrow> (Inl e, ep)
     | (None, ep) \<Rightarrow> (Inr (ev_new_handle ev (ep_trace ep)), ep))"

definition rdma_destroy_id :: "nat \<Rightarrow> urp_endpoint \<Rightarrow> urp_endpoint" where
  "rdma_destroy_id cid ep = log_ext (X_free O_cm_id) (log_ext (X_rdma R_destroy_id cid) ep)"

definition rdma_destroy_qp :: "nat \<Rightarrow> urp_endpoint \<Rightarrow> urp_endpoint" where
  "rdma_destroy_qp cid ep = log_ext (X_free O_qp) (log_ext (X_rdma R_destroy_qp cid) ep)"

section \<open>Link rate\<close>

definition urp_link_speed_mbps :: "ib_speed \<Rightarrow> int \<Rightarrow> u32" where
  "urp_link_speed_mbps active_speed lanes =
    (let per_lane = (case active_speed of
           IB_SPEED_SDR \<Rightarrow> 2500 | IB_SPEED_DDR \<Rightarrow> 5000 | IB_SPEED_QDR \<Rightarrow> 10000
         | IB_SPEED_FDR10 \<Rightarrow> 10313 | IB_SPEED_FDR \<Rightarrow> 14063 | IB_SPEED_EDR \<Rightarrow> 25781
         | IB_SPEED_HDR \<Rightarrow> 53125 | IB_SPEED_NDR \<Rightarrow> 106250 | IB_SPEED_OTHER \<Rightarrow> 0);
         lanes = (if lanes < 1 then 1 else lanes)
     in per_lane * of_int lanes)"

definition urp_ep_query_link :: "env \<Rightarrow> urp_endpoint \<Rightarrow> urp_endpoint" where
  "urp_ep_query_link ev ep =
    (if \<not> ep_ib_dev ep then ep
     else if find (\<lambda>i. q_cm_id (qps ep ! i) \<noteq> None) [0..<unat (ep_num_qps ep)] = None then ep
     else
       let r = ev_query_port ev (ep_trace ep); ep = log_ext X_query_port ep
       in case r of None \<Rightarrow> ep
          | Some (speed, lanes) \<Rightarrow> ep\<lparr>ep_link_mbps := urp_link_speed_mbps speed lanes\<rparr>)"

section \<open>Private data\<close>

definition ep_kind_u8 :: "urp_ep_kind \<Rightarrow> u8" where
  "ep_kind_u8 k = (case k of URP_EP_KIND_UDS \<Rightarrow> 0 | URP_EP_KIND_FAST \<Rightarrow> 1)"

definition urp_local_caps :: "env \<Rightarrow> u8" where
  "urp_local_caps ev =
    (if sy_window_bytes_advertise (ev_sysctl ev) \<noteq> 0 then URP_CONN_CAP_WINDOW_BYTES else 0)
    OR (if sy_latency_sample_period (ev_sysctl ev) \<noteq> 0 then URP_CONN_CAP_TSTAMP else 0)"

definition URP_PSK_HASH_LEN :: nat where "URP_PSK_HASH_LEN = 32"

definition URP_PSK_AUTH_METHOD_SHA256 :: u8 where "URP_PSK_AUTH_METHOD_SHA256 = 1"

text \<open>The stack buffer of the connect and accept paths, and the bytes handed to the peer.\<close>

definition live_priv :: "env \<Rightarrow> urp_endpoint \<Rightarrow> u8 \<Rightarrow> bytes" where
  "live_priv ev ep qp_index =
    (let buf = take (unat (ep_auth_len ep)) (ep_conn_priv ep)
               @ replicate (1 + URP_PSK_HASH_LEN + 5 - unat (ep_auth_len ep)) 0;
         (buf, len) = urp_conn_priv_build_full buf (ep_auth_len ep) (ep_kind_u8 (ep_kind ep)) qp_index
                        (urp_local_caps ev)
     in take (unat len) buf)"

definition urp_connect_work_fn :: "env \<Rightarrow> nat \<Rightarrow> urp_endpoint \<Rightarrow> urp_endpoint" where
  "urp_connect_work_fn ev i ep =
    (let q = qps ep ! i
     in snd (rdma_call_data ev R_connect (the (q_cm_id q)) (live_priv ev ep (ucast (q_index q))) ep))"

section \<open>Queue pairs on identifiers\<close>

definition qp_attr :: "env \<Rightarrow> urp_endpoint \<Rightarrow> qp_init_attr" where
  "qp_attr ev ep =
    (let d = ev_dev ev
     in \<lparr> qi_max_send_wr = min (ep_num_bufs ep) (da_max_qp_wr d),
          qi_max_recv_wr = (if urp_ep_is_fast ep then min (ep_num_bufs ep) (da_max_qp_wr d) else 0),
          qi_max_send_sge = min (ep_num_chunks ep) (da_max_send_sge d),
          qi_max_recv_sge = min (ep_num_chunks ep) (da_max_recv_sge d),
          qi_srq = (\<not> urp_ep_is_fast ep \<and> ep_srq ep) \<rparr>)"

definition urp_qp_create_on_cm_id ::
    "env \<Rightarrow> urp_endpoint \<Rightarrow> nat \<Rightarrow> nat \<Rightarrow> errno option \<times> urp_endpoint" where
  "urp_qp_create_on_cm_id ev ep cm_id i =
    (case kalloc ev O_qp (log_ext (X_create_qp cm_id (qp_attr ev ep)) ep) of
       (Some e, ep) \<Rightarrow> (Some e, ep)
     | (None, ep) \<Rightarrow>
         (None, upd_qp i (\<lambda>q. q\<lparr>q_qp := Some (ev_new_handle ev (ep_trace ep)), q_cm_id := Some cm_id\<rparr>) ep))"

definition urp_cm_id_destroy :: "nat \<Rightarrow> urp_endpoint \<Rightarrow> urp_endpoint" where
  "urp_cm_id_destroy cid ep = log_ext (X_free O_ctx) (rdma_destroy_id cid ep)"

definition qp_drain_destroy :: "nat \<Rightarrow> urp_endpoint \<Rightarrow> urp_endpoint" where
  "qp_drain_destroy i ep =
    (case q_qp (qps ep ! i) of
       None \<Rightarrow> ep
     | Some qp \<Rightarrow>
         upd_qp i (\<lambda>q. q\<lparr>q_qp := None\<rparr>)
           (rdma_destroy_qp (the (q_cm_id (qps ep ! i))) (log_ext (X_rdma R_drain_qp qp) ep)))"

definition qp_id_destroy :: "nat \<Rightarrow> urp_endpoint \<Rightarrow> urp_endpoint" where
  "qp_id_destroy i ep =
    (case q_cm_id (qps ep ! i) of
       None \<Rightarrow> ep
     | Some cid \<Rightarrow> upd_qp i (\<lambda>q. q\<lparr>q_cm_id := None\<rparr>) (urp_cm_id_destroy cid ep))"

definition urp_qp_hard_teardown :: "urp_endpoint \<Rightarrow> nat \<Rightarrow> urp_endpoint" where
  "urp_qp_hard_teardown ep i =
    upd_qp i (\<lambda>q. q\<lparr>q_established := False\<rparr>) (qp_id_destroy i (qp_drain_destroy i ep))"

section \<open>Backend connection of an acceptor\<close>

definition urp_connect_uds :: "env \<Rightarrow> urp_endpoint \<Rightarrow> string \<Rightarrow> errno option \<times> urp_endpoint" where
  "urp_connect_uds ev ep path =
    (case sock_create ev ep of
       (Inl e, ep) \<Rightarrow> (Some e, ep)
     | (Inr sk, ep) \<Rightarrow>
         let r = ev_connect ev (ep_trace ep); ep = log_ext (X_sock_connect sk path) ep
         in case r of
              Some e \<Rightarrow> (Some e, sock_release sk ep)
            | None \<Rightarrow>
                (None, upd_stats (\<lambda>st. st\<lparr>stat_connections := stat_connections st + 1\<rparr>)
                  (ep\<lparr>ep_conn := (ep_conn ep)\<lparr>c_uds_sock := Some sk, c_seq := 0, c_active := True\<rparr>\<rparr>)))"

section \<open>Accepting a connection\<close>

record urp_cm_ctx =
  cx_qp_index :: nat
  cx_is_listener :: bool

definition psk_ok :: "urp_endpoint \<Rightarrow> bytes option \<Rightarrow> u8 \<Rightarrow> bool" where
  "psk_ok ep priv len \<longleftrightarrow> 1 + URP_PSK_HASH_LEN \<le> unat len
     \<and> take (1 + URP_PSK_HASH_LEN) (the priv) = ep_auth_priv ep"

definition accept_slot :: "urp_endpoint \<Rightarrow> bytes option \<Rightarrow> u8 \<Rightarrow> urp_slot_decision \<times> u32 option" where
  "accept_slot ep priv len =
    (let peer = (if 1 < ep_num_qps ep then urp_conn_priv_peer_qp_index priv len (ep_auth_len ep) else None);
         counter_index = ep_qps_accepted ep;
         probe = (case peer of Some i \<Rightarrow> ucast i | None \<Rightarrow> counter_index);
         occupied = (probe < ep_num_qps ep \<and> q_accept_slot_held (qps ep ! unat probe))
     in urp_acceptor_slot_decide (peer \<noteq> None) (case peer of Some i \<Rightarrow> ucast i | None \<Rightarrow> 0)
          counter_index (ep_num_qps ep) occupied)"

definition accept_release :: "nat \<Rightarrow> urp_endpoint \<Rightarrow> urp_endpoint" where
  "accept_release i ep =
    (let ep = (if q_established (qps ep ! i) then qp_session_lost i ep else ep);
         ep = upd_qp i (\<lambda>q. q\<lparr>q_accept_slot_held := False\<rparr>) ep
     in ep\<lparr>ep_qps_accepted := ep_qps_accepted ep - 1\<rparr>)"

definition accept_claim :: "urp_slot_decision \<Rightarrow> nat \<Rightarrow> urp_endpoint \<Rightarrow> urp_endpoint" where
  "accept_claim d i ep =
    (let ep = (if d = URP_SLOT_REUSE then accept_release i ep else ep)
     in ep\<lparr>ep_qps_accepted := ep_qps_accepted ep + 1\<rparr>)"

definition accept_err_slot :: "errno \<Rightarrow> urp_endpoint \<Rightarrow> errno option \<times> urp_endpoint" where
  "accept_err_slot e ep = (Some e, ep\<lparr>ep_qps_accepted := ep_qps_accepted ep - 1\<rparr>)"

definition accept_err_ctx :: "errno \<Rightarrow> urp_endpoint \<Rightarrow> errno option \<times> urp_endpoint" where
  "accept_err_ctx e ep = accept_err_slot e (log_ext (X_free O_ctx) ep)"

definition accept_err_qp :: "errno \<Rightarrow> nat \<Rightarrow> nat \<Rightarrow> urp_endpoint \<Rightarrow> errno option \<times> urp_endpoint" where
  "accept_err_qp e child i ep =
    accept_err_ctx e (upd_qp i (\<lambda>q. q\<lparr>q_qp := None, q_cm_id := None\<rparr>) (rdma_destroy_qp child ep))"

definition accept_eager :: "env \<Rightarrow> nat \<Rightarrow> urp_endpoint \<Rightarrow> errno option \<times> urp_endpoint" where
  "accept_eager ev i ep =
    (if i = 0 \<and> \<not> urp_ep_is_fast ep \<and> urp_acceptor_should_eager_connect (ep_mode ep) (ep_connect_path ep \<noteq> [])
     then
       case urp_connect_uds ev (urp_socket_conn_cleanup ep) (ep_connect_path ep) of
         (Some e, ep) \<Rightarrow> (Some e, ep)
       | (None, ep) \<Rightarrow> urp_pump_start ev ep
     else (None, ep))"

definition peer_kind_fast :: "urp_endpoint \<Rightarrow> bytes option \<Rightarrow> u8 \<Rightarrow> bool" where
  "peer_kind_fast ep priv len \<longleftrightarrow>
    urp_conn_priv_peer_kind priv len (ep_auth_len ep) = Some (ep_kind_u8 URP_EP_KIND_FAST)"

definition peer_has_cap :: "urp_endpoint \<Rightarrow> bytes option \<Rightarrow> u8 \<Rightarrow> u8 \<Rightarrow> bool" where
  "peer_has_cap ep priv len cap =
    (case urp_conn_priv_peer_caps priv len (ep_auth_len ep) of None \<Rightarrow> False | Some caps \<Rightarrow> caps AND cap \<noteq> 0)"

definition learn_caps :: "nat \<Rightarrow> bytes option \<Rightarrow> u8 \<Rightarrow> urp_endpoint \<Rightarrow> urp_endpoint" where
  "learn_caps i priv len ep =
    upd_qp i (\<lambda>q. q\<lparr>q_peer_supports_window := peer_has_cap ep priv len URP_CONN_CAP_WINDOW_BYTES,
                    q_peer_supports_tstamp := peer_has_cap ep priv len URP_CONN_CAP_TSTAMP\<rparr>) ep"

definition learn_kind :: "nat \<Rightarrow> bytes option \<Rightarrow> u8 \<Rightarrow> urp_endpoint \<Rightarrow> urp_endpoint" where
  "learn_kind i priv len ep = upd_qp i (\<lambda>q. q\<lparr>q_peer_is_fast := peer_kind_fast ep priv len\<rparr>) ep"

definition accept_finish ::
    "env \<Rightarrow> nat \<Rightarrow> nat \<Rightarrow> bytes option \<Rightarrow> u8 \<Rightarrow> urp_endpoint \<Rightarrow> errno option \<times> urp_endpoint" where
  "accept_finish ev child i priv len ep =
    (case accept_eager ev i ep of
       (Some e, ep) \<Rightarrow> accept_err_qp e child i ep
     | (None, ep) \<Rightarrow>
         let ep = learn_caps i priv len (learn_kind i priv len ep)
         in case rdma_call_data ev R_accept child (live_priv ev ep 0) ep of
              (Some e, ep) \<Rightarrow> accept_err_qp e child i ep
            | (None, ep) \<Rightarrow> (None, upd_qp i (\<lambda>q. q\<lparr>q_accept_slot_held := True\<rparr>) ep))"

definition accept_on_slot ::
    "env \<Rightarrow> nat \<Rightarrow> nat \<Rightarrow> bytes option \<Rightarrow> u8 \<Rightarrow> urp_endpoint \<Rightarrow> errno option \<times> urp_endpoint" where
  "accept_on_slot ev child i priv len ep =
    (case urp_endpoint_setup_shared ev ep of
       (Some e, ep) \<Rightarrow> accept_err_slot e ep
     | (None, ep) \<Rightarrow>
         let ep = (if q_cm_id (qps ep ! i) \<noteq> None then urp_qp_hard_teardown ep i else ep)
         in case kalloc ev O_ctx ep of
              (Some _, ep) \<Rightarrow> accept_err_slot ENOMEM ep
            | (None, ep) \<Rightarrow>
                (case urp_qp_create_on_cm_id ev ep child i of
                   (Some e, ep) \<Rightarrow> accept_err_ctx e ep
                 | (None, ep) \<Rightarrow> accept_finish ev child i priv len ep))"

definition urp_cm_accept_one ::
    "env \<Rightarrow> nat \<Rightarrow> bytes option \<Rightarrow> u8 \<Rightarrow> urp_endpoint \<Rightarrow> errno option \<times> urp_endpoint" where
  "urp_cm_accept_one ev child priv len ep =
    (if ep_has_password ep \<and> \<not> psk_ok ep priv len
     then (None, log_ext X_send_event (log_ext (X_rdma R_reject child)
             (upd_stats (\<lambda>st. st\<lparr>stat_auth_failures := stat_auth_failures st + 1\<rparr>) ep)))
     else
       case accept_slot ep priv len of
         (d, Some i) \<Rightarrow> accept_on_slot ev child (unat i) priv len (accept_claim d (unat i) ep)
       | (_, None) \<Rightarrow> (None, log_ext (X_rdma R_reject child) ep))"

section \<open>Events of an identifier\<close>

datatype rdma_cm_event_type =
    RDMA_CM_EVENT_ADDR_RESOLVED | RDMA_CM_EVENT_ADDR_ERROR | RDMA_CM_EVENT_ROUTE_RESOLVED
  | RDMA_CM_EVENT_ROUTE_ERROR | RDMA_CM_EVENT_CONNECT_REQUEST | RDMA_CM_EVENT_CONNECT_ERROR
  | RDMA_CM_EVENT_UNREACHABLE | RDMA_CM_EVENT_REJECTED | RDMA_CM_EVENT_ESTABLISHED
  | RDMA_CM_EVENT_DISCONNECTED | RDMA_CM_EVENT_OTHER

record rdma_cm_event =
  ce_event :: rdma_cm_event_type
  ce_status :: "errno option"
  ce_priv :: "bytes option"
  ce_priv_len :: u8

definition route_resolved :: "env \<Rightarrow> nat \<Rightarrow> nat \<Rightarrow> urp_endpoint \<Rightarrow> errno option \<times> urp_endpoint" where
  "route_resolved ev cid i ep =
    (case urp_endpoint_setup_shared ev ep of
       (Some e, ep) \<Rightarrow> (Some e, ep)
     | (None, ep) \<Rightarrow>
         (case urp_qp_create_on_cm_id ev ep cid i of
            (Some e, ep) \<Rightarrow> (Some e, ep)
          | (None, ep) \<Rightarrow> (None, log_ext (X_schedule (W_connect i)) ep)))"

definition all_established :: "env \<Rightarrow> nat \<Rightarrow> urp_endpoint \<Rightarrow> urp_endpoint" where
  "all_established ev i ep =
    (let q = qps ep ! i;
         ep = ep\<lparr>ep_connected := True,
                 ep_window_negotiated := urp_window_negotiate
                   (sy_window_bytes_advertise (ev_sysctl ev) \<noteq> 0) (q_peer_supports_window q),
                 ep_tstamp_negotiated := urp_tstamp_negotiate
                   (sy_latency_sample_period (ev_sysctl ev) \<noteq> 0) (q_peer_supports_tstamp q)\<rparr>
     in log_ext (X_cm_done True) (urp_ep_query_link ev ep))"

definition cm_established :: "env \<Rightarrow> nat \<Rightarrow> rdma_cm_event \<Rightarrow> urp_endpoint \<Rightarrow> urp_endpoint" where
  "cm_established ev i e ep =
    (if ep_qps ep = None \<or> unat (ep_num_qps ep) \<le> i then ep
     else
       let ep = upd_qp i (\<lambda>q. q\<lparr>q_established := True\<rparr>) ep;
           ep = learn_kind i (ce_priv e) (ce_priv_len e) ep;
           ep = (if ep_is_initiator ep then learn_caps i (ce_priv e) (ce_priv_len e) ep else ep);
           ep = upd_qp i (\<lambda>q. q\<lparr>q_connect_attempts := 0, q_health := URP_QP_STATE_ACTIVE,
                  q_last_ping_ns := 0, q_consecutive_misses := 0, q_consecutive_pongs := 0\<rparr>) ep;
           ep = ep\<lparr>ep_qps_connected := ep_qps_connected ep + 1\<rparr>
       in if ep_qps_connected ep = ep_num_qps ep then all_established ev i ep else ep)"

definition cm_lost :: "nat \<Rightarrow> urp_endpoint \<Rightarrow> urp_endpoint" where
  "cm_lost i ep =
    (let ep = (if q_established (qps ep ! i) then qp_session_lost i ep else ep)
     in if urp_acceptor_should_release_slot (ep_is_initiator ep) (q_accept_slot_held (qps ep ! i))
        then let ep = upd_qp i (\<lambda>q. q\<lparr>q_accept_slot_held := False\<rparr>) ep
             in ep\<lparr>ep_qps_accepted := ep_qps_accepted ep - 1\<rparr>
        else ep)"

definition cm_terminal :: "nat \<Rightarrow> rdma_cm_event \<Rightarrow> urp_endpoint \<Rightarrow> urp_endpoint" where
  "cm_terminal i e ep =
    (let ep = (if \<not> ep_is_initiator ep \<and> i = 0 then urp_socket_conn_cleanup ep else ep);
         ep = (if ep_is_initiator ep then ep\<lparr>ep_connect_failed := True\<rparr> else ep)
     in log_ext (X_cm_done True) (ep\<lparr>ep_cm_status := ce_status e\<rparr>))"

definition cm_retry :: "env \<Rightarrow> nat \<Rightarrow> bool \<Rightarrow> urp_endpoint \<Rightarrow> urp_endpoint" where
  "cm_retry ev i was_established ep =
    (let sy = ev_sysctl ev;
         delay = urp_connect_backoff_ms (q_connect_attempts (qps ep ! i)) (sy_connect_backoff_base_ms sy)
                   (sy_connect_backoff_ceil_ms sy);
         ep = upd_qp i (\<lambda>q. q\<lparr>q_connect_attempts := q_connect_attempts q + 1\<rparr>) ep;
         ep = (if was_established \<and> i = 0 then urp_socket_conn_cleanup ep else ep)
     in log_ext (X_schedule (W_connect_retry i delay)) ep)"

definition cm_down :: "env \<Rightarrow> nat \<Rightarrow> rdma_cm_event \<Rightarrow> urp_endpoint \<Rightarrow> urp_endpoint" where
  "cm_down ev i e ep =
    (if ep_qps ep = None \<or> unat (ep_num_qps ep) \<le> i then cm_terminal i e ep
     else
       let was_established = q_established (qps ep ! i);
           ep = cm_lost i ep
       in if urp_should_retry_connect (ep_is_initiator ep) (q_connect_attempts (qps ep ! i))
               (sy_connect_max_attempts (ev_sysctl ev))
          then cm_retry ev i was_established ep
          else cm_terminal i e ep)"

definition urp_cm_handler ::
    "env \<Rightarrow> nat \<Rightarrow> urp_cm_ctx \<Rightarrow> rdma_cm_event \<Rightarrow> urp_endpoint \<Rightarrow> errno option \<times> urp_endpoint" where
  "urp_cm_handler ev cid ctx e ep =
    (if cx_is_listener ctx then
       (if ce_event e = RDMA_CM_EVENT_CONNECT_REQUEST
        then urp_cm_accept_one ev cid (ce_priv e) (ce_priv_len e) ep
        else (None, ep))
     else case ce_event e of
       RDMA_CM_EVENT_ADDR_RESOLVED \<Rightarrow> rdma_call ev R_resolve_route cid ep
     | RDMA_CM_EVENT_ROUTE_RESOLVED \<Rightarrow> route_resolved ev cid (cx_qp_index ctx) ep
     | RDMA_CM_EVENT_ESTABLISHED \<Rightarrow> (None, cm_established ev (cx_qp_index ctx) e ep)
     | RDMA_CM_EVENT_DISCONNECTED \<Rightarrow> (None, cm_down ev (cx_qp_index ctx) e ep)
     | RDMA_CM_EVENT_ADDR_ERROR \<Rightarrow> (None, cm_down ev (cx_qp_index ctx) e ep)
     | RDMA_CM_EVENT_ROUTE_ERROR \<Rightarrow> (None, cm_down ev (cx_qp_index ctx) e ep)
     | RDMA_CM_EVENT_CONNECT_ERROR \<Rightarrow> (None, cm_down ev (cx_qp_index ctx) e ep)
     | RDMA_CM_EVENT_UNREACHABLE \<Rightarrow> (None, cm_down ev (cx_qp_index ctx) e ep)
     | RDMA_CM_EVENT_REJECTED \<Rightarrow> (None, cm_down ev (cx_qp_index ctx) e ep)
     | _ \<Rightarrow> (None, ep))"

section \<open>Dialling\<close>

text \<open>The address of a dial is its four bytes and port; printing and parsing it is left out.\<close>

definition ipv6_addr_v4mapped :: "bytes \<Rightarrow> bool" where
  "ipv6_addr_v4mapped a \<longleftrightarrow> take 12 a = replicate 10 0 @ [255, 255]"

definition urp_endpoint_extract_v4 :: "sockaddr_in6 \<Rightarrow> (bytes \<times> u16) result" where
  "urp_endpoint_extract_v4 addr =
    (if \<not> sin6_inet6 addr then Inl EAFNOSUPPORT
     else if \<not> ipv6_addr_v4mapped (sin6_addr addr) then Inl EAFNOSUPPORT
     else Inr (take 4 (drop 12 (sin6_addr addr)), sin6_port addr))"

definition urp_make_cm_id :: "env \<Rightarrow> urp_endpoint \<Rightarrow> nat result \<times> urp_endpoint" where
  "urp_make_cm_id ev ep =
    (case kalloc ev O_ctx ep of
       (Some _, ep) \<Rightarrow> (Inl ENOMEM, ep)
     | (None, ep) \<Rightarrow>
         (case rdma_create_id ev ep of
            (Inl e, ep) \<Rightarrow> (Inl e, log_ext (X_free O_ctx) ep)
          | (Inr cid, ep) \<Rightarrow> (Inr cid, ep)))"

definition urp_qp_resolve_addr :: "env \<Rightarrow> urp_endpoint \<Rightarrow> nat \<Rightarrow> errno option \<times> urp_endpoint" where
  "urp_qp_resolve_addr ev ep i =
    (case urp_endpoint_extract_v4 (ep_peer_addr ep) of
       Inl e \<Rightarrow> (Some e, ep)
     | Inr (ip, port) \<Rightarrow>
         (case urp_make_cm_id ev ep of
            (Inl e, ep) \<Rightarrow> (Some e, ep)
          | (Inr cid, ep) \<Rightarrow>
              let ep = upd_qp i (\<lambda>q. q\<lparr>q_cm_id := Some cid\<rparr>) ep
              in case rdma_call_data ev R_resolve_addr cid (ip @ [ucast (drop_bit 8 port), ucast port]) ep of
                   (Some e, ep) \<Rightarrow> (Some e, upd_qp i (\<lambda>q. q\<lparr>q_cm_id := None\<rparr>) (urp_cm_id_destroy cid ep))
                 | (None, ep) \<Rightarrow> (None, ep)))"

definition lazy_dial :: "env \<Rightarrow> nat \<Rightarrow> urp_endpoint \<Rightarrow> urp_endpoint" where
  "lazy_dial ev i ep =
    (case urp_qp_resolve_addr ev ep i of
       (None, ep) \<Rightarrow> ep
     | (Some _, ep) \<Rightarrow> log_ext (X_schedule (W_connect_retry i (sy_connect_backoff_base_ms (ev_sysctl ev)))) ep)"

definition urp_lazy_connect_start :: "env \<Rightarrow> urp_endpoint \<Rightarrow> urp_endpoint" where
  "urp_lazy_connect_start ev ep = fold (lazy_dial ev) [0..<unat (ep_num_qps ep)] ep"

definition urp_connect_retry_work_fn :: "env \<Rightarrow> nat \<Rightarrow> urp_endpoint \<Rightarrow> urp_endpoint" where
  "urp_connect_retry_work_fn ev i ep =
    (if ep_state ep \<noteq> URP_STATE_ACTIVE then ep
     else case urp_qp_resolve_addr ev (urp_qp_hard_teardown ep i) i of
       (None, ep) \<Rightarrow> ep
     | (Some _, ep) \<Rightarrow> retry_or_fail ev i False ep)"

section \<open>Start and stop\<close>

definition urp_rdma_init :: "env \<Rightarrow> urp_endpoint \<Rightarrow> u16 \<Rightarrow> errno option \<times> urp_endpoint" where
  "urp_rdma_init ev ep bind_port =
    (if ep_is_initiator ep then (None, ep)
     else case urp_make_cm_id ev ep of
       (Inl e, ep) \<Rightarrow> (Some e, ep)
     | (Inr cid, ep) \<Rightarrow>
         let ep = ep\<lparr>ep_listen_id := Some cid\<rparr>
         in case rdma_call_data ev R_bind_addr cid [ucast (drop_bit 8 bind_port), ucast bind_port] ep of
              (Some e, ep) \<Rightarrow> (Some e, (urp_cm_id_destroy cid ep)\<lparr>ep_listen_id := None\<rparr>)
            | (None, ep) \<Rightarrow>
                (case rdma_call ev R_listen cid ep of
                   (Some e, ep) \<Rightarrow> (Some e, (urp_cm_id_destroy cid ep)\<lparr>ep_listen_id := None\<rparr>)
                 | (None, ep) \<Rightarrow> (None, ep)))"

definition listener_destroy :: "urp_endpoint \<Rightarrow> urp_endpoint" where
  "listener_destroy ep =
    (case ep_listen_id ep of None \<Rightarrow> ep | Some cid \<Rightarrow> (urp_cm_id_destroy cid ep)\<lparr>ep_listen_id := None\<rparr>)"

definition qp_disconnect :: "nat \<Rightarrow> urp_endpoint \<Rightarrow> urp_endpoint" where
  "qp_disconnect i ep =
    (case q_cm_id (qps ep ! i) of
       Some cid \<Rightarrow> if q_established (qps ep ! i)
                  then upd_qp i (\<lambda>q. q\<lparr>q_established := False\<rparr>) (log_ext (X_rdma R_disconnect cid) ep)
                  else ep
     | None \<Rightarrow> ep)"

definition cleanup_qps :: "urp_endpoint \<Rightarrow> urp_endpoint" where
  "cleanup_qps ep =
    (if ep_qps ep = None then ep
     else
       let idx = [0..<unat (ep_num_qps ep)]
       in fold qp_id_destroy idx (fold qp_drain_destroy idx (fold qp_disconnect idx ep)))"

definition cleanup_shared :: "urp_endpoint \<Rightarrow> urp_endpoint" where
  "cleanup_shared ep =
    (let dev = ep_ib_dev ep;
         ep = urp_srq_destroy ep;
         ep = (if ep_send_cq ep then (log_ext (X_free O_send_cq) ep)\<lparr>ep_send_cq := False\<rparr> else ep);
         ep = (if ep_recv_cq ep then (log_ext (X_free O_recv_cq) ep)\<lparr>ep_recv_cq := False\<rparr> else ep);
         ep = (if ep_pd ep \<and> dev then (log_ext (X_free O_pd) (urp_bufs_cleanup ep))\<lparr>ep_pd := False\<rparr> else ep)
     in ep\<lparr>ep_ib_dev := False\<rparr>)"

definition urp_rdma_cleanup :: "urp_endpoint \<Rightarrow> urp_endpoint" where
  "urp_rdma_cleanup ep =
    (let ep = (if ep_qps ep = None then ep
               else fold (\<lambda>i. log_ext (X_cancel (W_connect_retry i 0))) [0..<unat (ep_num_qps ep)] ep);
         ep = listener_destroy ep;
         ep = cleanup_qps ep;
         ep = ep\<lparr>ep_connected := False\<rparr>;
         ep = cleanup_shared ep
     in listener_destroy ep)"

section \<open>Connection state of an endpoint\<close>

text \<open>
  What connection management keeps of an endpoint: of every slot whether it is established and
  held and which identifier it has, the two counters, the flags, and the retries scheduled so far.
\<close>

type_synonym slot = "bool \<times> bool \<times> nat option"

definition slot_of :: "urp_qp \<Rightarrow> slot" where
  "slot_of q = (q_established q, q_accept_slot_held q, q_cm_id q)"

abbreviation sl_est :: "slot \<Rightarrow> bool" where "sl_est s \<equiv> fst s"
abbreviation sl_held :: "slot \<Rightarrow> bool" where "sl_held s \<equiv> fst (snd s)"
abbreviation sl_id :: "slot \<Rightarrow> nat option" where "sl_id s \<equiv> snd (snd s)"

fun retry_of :: "ext \<Rightarrow> nat list" where
  "retry_of (X_schedule (W_connect_retry i d)) = [i]"
| "retry_of _ = []"

definition retry_log :: "urp_endpoint \<Rightarrow> nat list" where
  "retry_log ep = concat (map retry_of (ep_trace ep))"

record conn_view =
  cv_slots :: "slot list option"
  cv_num :: u32
  cv_connected :: u32
  cv_accepted :: u32
  cv_up :: bool
  cv_initiator :: bool
  cv_pd :: bool
  cv_listen :: bool
  cv_started :: bool
  cv_active :: bool
  cv_retries :: "nat list"

definition conn_of :: "urp_endpoint \<Rightarrow> conn_view" where
  "conn_of ep = \<lparr> cv_slots = map_option (map slot_of) (ep_qps ep), cv_num = ep_num_qps ep,
     cv_connected = ep_qps_connected ep, cv_accepted = ep_qps_accepted ep, cv_up = ep_connected ep,
     cv_initiator = ep_is_initiator ep, cv_pd = ep_pd ep, cv_listen = (ep_listen_id ep \<noteq> None),
     cv_started = ep_connect_started ep, cv_active = (ep_state ep = URP_STATE_ACTIVE),
     cv_retries = retry_log ep \<rparr>"

definition cv_upd :: "nat \<Rightarrow> (slot \<Rightarrow> slot) \<Rightarrow> conn_view \<Rightarrow> conn_view" where
  "cv_upd i f c = c\<lparr>cv_slots := map_option (\<lambda>s. s[i := f (s ! i)]) (cv_slots c)\<rparr>"

named_theorems conn_simps

lemma conn_of_log: "conn_of (log_ext x ep) = (conn_of ep)\<lparr>cv_retries := cv_retries (conn_of ep) @ retry_of x\<rparr>"
  by (simp add: conn_of_def log_ext_def retry_log_def)

lemma conn_of_log_other [conn_simps]: "retry_of x = [] \<Longrightarrow> conn_of (log_ext x ep) = conn_of ep"
  by (simp add: conn_of_log)

lemma conn_of_upd_qp:
  assumes "\<And>q. slot_of (f q) = g (slot_of q)"
  shows "conn_of (upd_qp i f ep) = cv_upd i g (conn_of ep)"
proof -
  have "map slot_of (q[i := f (q ! i)]) = (map slot_of q)[i := g (map slot_of q ! i)]" for q
    by (cases "i < length q") (simp_all add: assms map_update list_update_beyond)
  then show ?thesis by (simp add: conn_of_def upd_qp_def cv_upd_def retry_log_def option.map_comp comp_def)
qed

lemma conn_of_upd_same [conn_simps]:
  assumes "\<And>q. slot_of (f q) = slot_of q"
  shows "conn_of (upd_qp i f ep) = conn_of ep"
  using conn_of_upd_qp[of f "\<lambda>s. s" i ep] assms by (simp add: cv_upd_def option.map_ident_strong)

lemma conn_of_stats [conn_simps]: "conn_of (upd_stats f ep) = conn_of ep"
  by (simp add: conn_of_def upd_stats_def retry_log_def)

lemma conn_of_fields [conn_simps]:
  "conn_of (ep\<lparr>ep_conn := c\<rparr>) = conn_of ep" "conn_of (ep\<lparr>ep_link_mbps := w\<rparr>) = conn_of ep"
  "conn_of (ep\<lparr>ep_window_negotiated := b\<rparr>) = conn_of ep" "conn_of (ep\<lparr>ep_tstamp_negotiated := b\<rparr>) = conn_of ep"
  "conn_of (ep\<lparr>ep_connect_failed := b\<rparr>) = conn_of ep" "conn_of (ep\<lparr>ep_cm_status := st\<rparr>) = conn_of ep"
  "conn_of (ep\<lparr>ep_ib_dev := b\<rparr>) = conn_of ep" "conn_of (ep\<lparr>ep_send_cq := b\<rparr>) = conn_of ep"
  "conn_of (ep\<lparr>ep_recv_cq := b\<rparr>) = conn_of ep" "conn_of (ep\<lparr>ep_srq := b\<rparr>) = conn_of ep"
  "conn_of (ep\<lparr>ep_page_pool := b\<rparr>) = conn_of ep" "conn_of (ep\<lparr>ep_bufs := bs\<rparr>) = conn_of ep"
  "conn_of (ep\<lparr>ep_recv_scratch := sc\<rparr>) = conn_of ep" "conn_of (ep\<lparr>ep_send_free := l\<rparr>) = conn_of ep"
  "conn_of (ep\<lparr>ep_recv_free := l\<rparr>) = conn_of ep" "conn_of (ep\<lparr>ep_srq_pool_target := w\<rparr>) = conn_of ep"
  "conn_of (ep\<lparr>ep_num_chunks := w\<rparr>) = conn_of ep" "conn_of (ep\<lparr>ep_chunk_size := w\<rparr>) = conn_of ep"
  "conn_of (ep\<lparr>ep_max_frame := w\<rparr>) = conn_of ep" "conn_of (upd_buf j g ep) = conn_of ep"
  "conn_of (upd_data j h ep) = conn_of ep"
  by (simp_all add: conn_of_def retry_log_def upd_buf_def upd_data_def)

lemma conn_of_set:
  "conn_of (ep\<lparr>ep_qps_connected := w\<rparr>) = (conn_of ep)\<lparr>cv_connected := w\<rparr>"
  "conn_of (ep\<lparr>ep_qps_accepted := w\<rparr>) = (conn_of ep)\<lparr>cv_accepted := w\<rparr>"
  "conn_of (ep\<lparr>ep_connected := b\<rparr>) = (conn_of ep)\<lparr>cv_up := b\<rparr>"
  "conn_of (ep\<lparr>ep_pd := b\<rparr>) = (conn_of ep)\<lparr>cv_pd := b\<rparr>"
  "conn_of (ep\<lparr>ep_connect_started := b\<rparr>) = (conn_of ep)\<lparr>cv_started := b\<rparr>"
  "conn_of (ep\<lparr>ep_listen_id := l\<rparr>) = (conn_of ep)\<lparr>cv_listen := l \<noteq> None\<rparr>"
  by (simp_all add: conn_of_def retry_log_def)

lemma conn_of_get:
  "ep_qps_connected ep = cv_connected (conn_of ep)" "ep_qps_accepted ep = cv_accepted (conn_of ep)"
  "ep_num_qps ep = cv_num (conn_of ep)" "ep_connected ep = cv_up (conn_of ep)"
  "ep_is_initiator ep = cv_initiator (conn_of ep)" "ep_pd ep = cv_pd (conn_of ep)"
  "ep_qps ep = None \<longleftrightarrow> cv_slots (conn_of ep) = None"
  by (simp_all add: conn_of_def)

section \<open>Operations that leave the connection state alone\<close>

interpretation cf: pool_frame conn_of
  by unfold_locales (simp_all add: conn_simps)

lemmas conn_of_pool [conn_simps] = cf.proj_kalloc cf.proj_kalloc_eq cf.proj_bufs_init cf.proj_bufs_cleanup
  cf.proj_srq_create cf.proj_srq_destroy

lemma conn_of_setup_err:
  "conn_of (snd (setup_err_pd e ep)) = (conn_of ep)\<lparr>cv_pd := False\<rparr>"
  "conn_of (snd (setup_err_bufs e ep)) = (conn_of ep)\<lparr>cv_pd := False\<rparr>"
  "conn_of (snd (setup_err_send_cq e ep)) = (conn_of ep)\<lparr>cv_pd := False\<rparr>"
  "conn_of (snd (setup_err_recv_cq e ep)) = (conn_of ep)\<lparr>cv_pd := False\<rparr>"
  "fst (setup_err_pd e ep) = Some e" "fst (setup_err_bufs e ep) = Some e"
  "fst (setup_err_send_cq e ep) = Some e" "fst (setup_err_recv_cq e ep) = Some e"
  by (simp_all add: setup_err_recv_cq_def setup_err_send_cq_def setup_err_bufs_def setup_err_pd_def conn_simps conn_of_set)

lemma conn_of_setup_queues:
  assumes "cv_pd (conn_of ep)"
  shows "conn_of (snd (setup_queues ev ep)) = (conn_of ep)\<lparr>cv_pd := (fst (setup_queues ev ep) = None)\<rparr>"
proof -
  obtain r1 ep1 where 1: "kalloc ev O_send_cq ep = (r1, ep1)" by force
  obtain r2 ep2 where 2: "kalloc ev O_recv_cq (ep1\<lparr>ep_send_cq := True\<rparr>) = (r2, ep2)" by force
  obtain r3 ep3 where 3: "urp_srq_create ev (ep2\<lparr>ep_recv_cq := True\<rparr>) = (r3, ep3)" by force
  have c: "conn_of ep1 = conn_of ep" "conn_of ep2 = conn_of ep" using 1 2 by (simp_all add: conn_simps)
  have "conn_of ep3 = conn_of ep" using cf.proj_srq_create[of ev "ep2\<lparr>ep_recv_cq := True\<rparr>"] 3 c by (simp add: conn_simps)
  then show ?thesis using 1 2 3 c assms
    by (cases r1; cases r2; cases r3) (simp_all add: setup_queues_def Let_def conn_of_setup_err conn_simps)
qed

text \<open>Setting up the shared objects only changes whether they are there.\<close>

lemma conn_of_setup_shared:
  "conn_of (snd (urp_endpoint_setup_shared ev ep)) = (conn_of ep)\<lparr>cv_pd := (fst (urp_endpoint_setup_shared ev ep) = None)\<rparr>"
proof (cases "ep_pd ep")
  case True
  then show ?thesis by (simp add: urp_endpoint_setup_shared_def) (simp add: conn_of_def)
next
  case False
  obtain r1 ep1 where 1: "kalloc ev O_pd (ep\<lparr>ep_ib_dev := True\<rparr>) = (r1, ep1)" by force
  obtain r2 ep2 where 2: "urp_bufs_init ev (ep1\<lparr>ep_pd := True\<rparr>) = (r2, ep2)" by force
  have c: "conn_of ep1 = conn_of ep" using 1 by (simp add: conn_simps)
  have d: "conn_of ep2 = (conn_of ep)\<lparr>cv_pd := True\<rparr>"
    using cf.proj_bufs_init[of ev "ep1\<lparr>ep_pd := True\<rparr>"] 2 c by (simp add: conn_of_set)
  show ?thesis using False 1 2 c d conn_of_setup_queues[of ep2 ev]
    by (cases r1; cases r2) (simp_all add: urp_endpoint_setup_shared_def conn_of_setup_err conn_of_set)
qed

lemma setup_shared_idem: "cv_pd (conn_of ep) \<Longrightarrow> urp_endpoint_setup_shared ev ep = (None, ep)"
  by (simp add: urp_endpoint_setup_shared_def conn_of_def)

lemma conn_of_sock [conn_simps]:
  "conn_of (snd (sock_create ev ep)) = conn_of ep" "conn_of (sock_release sk ep) = conn_of ep"
  by (simp_all add: sock_create_def sock_release_def conn_simps split: prod.split option.split)

lemma conn_of_pump [conn_simps]:
  "conn_of (snd (urp_pump_start ev ep)) = conn_of ep" "conn_of (urp_pump_stop ep) = conn_of ep"
  by (simp_all add: urp_pump_start_def urp_pump_stop_def Let_def conn_simps)

lemma conn_of_conn_cleanup [conn_simps]: "conn_of (urp_socket_conn_cleanup ep) = conn_of ep"
  by (simp add: urp_socket_conn_cleanup_def Let_def conn_simps split: option.split)

lemma conn_of_connect_uds [conn_simps]: "conn_of (snd (urp_connect_uds ev ep path)) = conn_of ep"
  using conn_of_sock(1)[of ev ep]
  by (simp add: urp_connect_uds_def Let_def conn_simps case_prod_beta split: sum.split option.split)

lemma conn_of_eager [conn_simps]: "conn_of (snd (accept_eager ev i ep)) = conn_of ep"
  using conn_of_connect_uds[of ev "urp_socket_conn_cleanup ep" "ep_connect_path ep"]
  by (simp add: accept_eager_def conn_simps case_prod_beta split: option.split)

lemma conn_of_learn [conn_simps]:
  "conn_of (learn_kind i priv len ep) = conn_of ep" "conn_of (learn_caps i priv len ep) = conn_of ep"
  by (simp_all add: learn_kind_def learn_caps_def conn_of_upd_same slot_of_def)

lemma conn_of_query_link [conn_simps]: "conn_of (urp_ep_query_link ev ep) = conn_of ep"
  by (simp add: urp_ep_query_link_def Let_def conn_simps split: option.split prod.split)

lemma conn_of_rdma_call [conn_simps]:
  "conn_of (snd (rdma_call ev op cid ep)) = conn_of ep" "conn_of (snd (rdma_call_data ev op cid d ep)) = conn_of ep"
  "conn_of (rdma_destroy_qp cid ep) = conn_of ep" "conn_of (urp_cm_id_destroy cid ep) = conn_of ep"
  by (simp_all add: rdma_call_def rdma_call_data_def rdma_destroy_qp_def urp_cm_id_destroy_def rdma_destroy_id_def conn_simps)

lemma conn_of_make_cm_id [conn_simps]: "conn_of (snd (urp_make_cm_id ev ep)) = conn_of ep"
  by (simp add: urp_make_cm_id_def rdma_create_id_def conn_simps split: prod.split option.split)

section \<open>Effect of the operations on the connection state\<close>

definition cv_lost :: "nat \<Rightarrow> conn_view \<Rightarrow> conn_view" where
  "cv_lost i c =
    (let c = cv_upd i (\<lambda>s. (False, sl_held s, sl_id s)) c;
         c = c\<lparr>cv_connected := cv_connected c - 1\<rparr>
     in if cv_connected c < cv_num c then c\<lparr>cv_up := False\<rparr> else c)"

definition cv_release :: "nat \<Rightarrow> conn_view \<Rightarrow> conn_view" where
  "cv_release i c = (cv_upd i (\<lambda>s. (sl_est s, False, sl_id s)) c)\<lparr>cv_accepted := cv_accepted c - 1\<rparr>"

definition cv_clear :: "nat \<Rightarrow> conn_view \<Rightarrow> conn_view" where
  "cv_clear i = cv_upd i (\<lambda>s. (False, sl_held s, None))"

lemma conn_of_cases: "ep_qps ep = Some qs \<Longrightarrow> cv_slots (conn_of ep) = Some (map slot_of qs)"
  by (simp add: conn_of_def)

lemma slot_of_get:
  "cv_slots (conn_of ep) = Some s \<Longrightarrow> i < length s \<Longrightarrow>
    q_established (qps ep ! i) = sl_est (s ! i) \<and> q_accept_slot_held (qps ep ! i) = sl_held (s ! i)
    \<and> q_cm_id (qps ep ! i) = sl_id (s ! i)"
  by (auto simp: conn_of_def slot_of_def)

lemma cv_upd_field [simp]:
  "cv_num (cv_upd i f c) = cv_num c" "cv_connected (cv_upd i f c) = cv_connected c"
  "cv_accepted (cv_upd i f c) = cv_accepted c" "cv_up (cv_upd i f c) = cv_up c"
  "cv_initiator (cv_upd i f c) = cv_initiator c" "cv_pd (cv_upd i f c) = cv_pd c"
  "cv_listen (cv_upd i f c) = cv_listen c" "cv_started (cv_upd i f c) = cv_started c"
  "cv_active (cv_upd i f c) = cv_active c" "cv_retries (cv_upd i f c) = cv_retries c"
  by (simp_all add: cv_upd_def)

lemma conn_of_session_lost: "conn_of (qp_session_lost i ep) = cv_lost i (conn_of ep)"
proof -
  have u: "conn_of (upd_qp i (\<lambda>q. q\<lparr>q_established := False\<rparr>) ep) = cv_upd i (\<lambda>s. (False, sl_held s, sl_id s)) (conn_of ep)"
    by (rule conn_of_upd_qp) (simp add: slot_of_def)
  show ?thesis
    by (simp add: qp_session_lost_def cv_lost_def Let_def conn_of_get conn_of_set u conn_simps)
qed

lemma conn_of_drain_destroy [conn_simps]: "conn_of (qp_drain_destroy i ep) = conn_of ep"
  by (simp add: qp_drain_destroy_def conn_simps conn_of_upd_same slot_of_def split: option.split)

lemma conn_of_hard_teardown: "conn_of (urp_qp_hard_teardown ep i) = cv_clear i (conn_of ep)"
proof -
  define ep1 where "ep1 = qp_drain_destroy i ep"
  have 1: "conn_of ep1 = conn_of ep" by (simp add: ep1_def conn_simps)
  have u: "conn_of (upd_qp i (\<lambda>q. q\<lparr>q_established := False\<rparr>) e) = cv_upd i (\<lambda>s. (False, sl_held s, sl_id s)) (conn_of e)" for e
    by (rule conn_of_upd_qp) (simp add: slot_of_def)
  have v: "conn_of (upd_qp i (\<lambda>q. q\<lparr>q_cm_id := None\<rparr>) e) = cv_upd i (\<lambda>s. (sl_est s, sl_held s, None)) (conn_of e)" for e
    by (rule conn_of_upd_qp) (simp add: slot_of_def)
  show ?thesis
  proof (cases "q_cm_id (qps ep1 ! i)")
    case None
    have "(map slot_of qs)[i := (False, sl_held (map slot_of qs ! i), sl_id (map slot_of qs ! i))]
        = (map slot_of qs)[i := (False, sl_held (map slot_of qs ! i), None)]" if "ep_qps ep1 = Some qs" for qs
      using None that by (cases "i < length qs") (simp_all add: slot_of_def list_update_beyond)
    then have "cv_upd i (\<lambda>s. (False, sl_held s, sl_id s)) (conn_of ep1) = cv_clear i (conn_of ep1)"
      by (cases "ep_qps ep1") (simp_all add: cv_clear_def cv_upd_def conn_of_def)
    then show ?thesis using None 1
      by (simp add: urp_qp_hard_teardown_def ep1_def[symmetric] qp_id_destroy_def u)
  next
    case (Some cid)
    have "(xs[i := a])[i := (False, sl_held (xs[i := a] ! i), sl_id (xs[i := a] ! i))] = xs[i := (False, sl_held (xs ! i), None)]"
      if "a = (sl_est (xs ! i), sl_held (xs ! i), None)" for xs and a :: slot
      using that by (cases "i < length xs") (simp_all add: list_update_beyond)
    then have "cv_upd i (\<lambda>s. (False, sl_held s, sl_id s)) (cv_upd i (\<lambda>s. (sl_est s, sl_held s, None)) c) = cv_clear i c" for c
      by (cases "cv_slots c") (simp_all add: cv_clear_def cv_upd_def)
    then show ?thesis using Some 1
      by (simp add: urp_qp_hard_teardown_def ep1_def[symmetric] qp_id_destroy_def u v conn_simps)
  qed
qed

lemma conn_of_accept_release:
  "conn_of (accept_release i ep) =
    cv_release i (if q_established (qps ep ! i) then cv_lost i (conn_of ep) else conn_of ep)"
proof -
  have u: "conn_of (upd_qp i (\<lambda>q. q\<lparr>q_accept_slot_held := False\<rparr>) e) = cv_upd i (\<lambda>s. (sl_est s, False, sl_id s)) (conn_of e)" for e
    by (rule conn_of_upd_qp) (simp add: slot_of_def)
  show ?thesis by (simp add: accept_release_def Let_def conn_of_set u conn_of_get conn_of_session_lost cv_release_def)
qed

lemma conn_of_cm_lost:
  assumes "ep_qps ep \<noteq> None"
  shows "conn_of (cm_lost i ep) =
    (let c = (if q_established (qps ep ! i) then cv_lost i (conn_of ep) else conn_of ep)
     in if \<not> ep_is_initiator ep \<and> q_accept_slot_held (qps ep ! i) then cv_release i c else c)"
proof -
  have u: "conn_of (upd_qp i (\<lambda>q. q\<lparr>q_accept_slot_held := False\<rparr>) e) = cv_upd i (\<lambda>s. (sl_est s, False, sl_id s)) (conn_of e)" for e
    by (rule conn_of_upd_qp) (simp add: slot_of_def)
  have "q_accept_slot_held (qps (qp_session_lost i ep) ! i) = q_accept_slot_held (qps ep ! i)
      \<and> ep_is_initiator (qp_session_lost i ep) = ep_is_initiator ep"
    using assms by (cases "i < length (qps ep)")
      (auto simp: qp_session_lost_def upd_qp_def Let_def log_ext_def list_update_beyond)
  then show ?thesis
    by (simp add: cm_lost_def Let_def urp_acceptor_should_release_slot_def conn_of_set u conn_of_get(1-4,6)
        conn_of_session_lost cv_release_def)
qed

lemma conn_of_terminal [conn_simps]: "conn_of (cm_terminal i e ep) = conn_of ep"
  by (simp add: cm_terminal_def Let_def conn_simps)

lemma conn_of_cm_retry:
  "conn_of (cm_retry ev i w ep) = (conn_of ep)\<lparr>cv_retries := cv_retries (conn_of ep) @ [i]\<rparr>"
  by (simp add: cm_retry_def Let_def conn_of_log conn_simps conn_of_upd_same slot_of_def)

lemma conn_of_retry_or_fail:
  "\<exists>l. set l \<subseteq> (if ep_is_initiator ep then {i} else {})
     \<and> conn_of (retry_or_fail ev i b ep) = (conn_of ep)\<lparr>cv_retries := cv_retries (conn_of ep) @ l\<rparr>"
  by (cases "urp_should_retry_connect (ep_is_initiator ep) (q_connect_attempts (qps ep ! i))
        (sy_connect_max_attempts (ev_sysctl ev))")
    (force simp: retry_or_fail_def urp_should_retry_connect_def Let_def conn_of_log conn_simps conn_of_upd_same slot_of_def
      intro: exI[of _ "[i]"] exI[of _ "[]"])+

lemma conn_of_cm_down:
  assumes "ep_qps ep \<noteq> None" "i < unat (ep_num_qps ep)"
  shows "\<exists>l. set l \<subseteq> (if ep_is_initiator ep then {i} else {})
     \<and> conn_of (cm_down ev i e ep) = (conn_of (cm_lost i ep))\<lparr>cv_retries := cv_retries (conn_of ep) @ l\<rparr>"
proof -
  have i: "ep_is_initiator (cm_lost i ep) = ep_is_initiator ep"
    by (simp add: cm_lost_def qp_session_lost_def upd_qp_def log_ext_def Let_def)
  have "cv_retries (conn_of (cm_lost i ep)) = cv_retries (conn_of ep)"
    by (simp add: conn_of_cm_lost[OF assms(1)] Let_def cv_release_def cv_lost_def)
  then show ?thesis
    using assms by (cases "urp_should_retry_connect (ep_is_initiator ep) (q_connect_attempts (qps (cm_lost i ep) ! i))
        (sy_connect_max_attempts (ev_sysctl ev))")
      (force simp: cm_down_def Let_def i conn_of_cm_retry conn_simps urp_should_retry_connect_def
        intro: exI[of _ "[i]"] exI[of _ "[]"])+
qed

lemma conn_of_established:
  assumes "ep_qps ep \<noteq> None" "i < unat (ep_num_qps ep)"
  shows "conn_of (cm_established ev i e ep) =
    (let c = cv_upd i (\<lambda>s. (True, sl_held s, sl_id s)) (conn_of ep);
         c = c\<lparr>cv_connected := cv_connected c + 1\<rparr>
     in if cv_connected c = cv_num c then c\<lparr>cv_up := True\<rparr> else c)"
proof -
  have u: "conn_of (upd_qp i (\<lambda>q. q\<lparr>q_established := True\<rparr>) ep) = cv_upd i (\<lambda>s. (True, sl_held s, sl_id s)) (conn_of ep)"
    by (rule conn_of_upd_qp) (simp add: slot_of_def)
  have g: "(ep_qps ep = None \<or> unat (ep_num_qps ep) \<le> i) = False" using assms by auto
  show ?thesis unfolding cm_established_def g if_False
    by (simp add: all_established_def Let_def conn_of_get(1-4) conn_of_set u conn_simps conn_of_upd_same slot_of_def)
qed

lemma conn_of_create_qp:
  "conn_of (snd (urp_qp_create_on_cm_id ev ep cid i)) =
    (if fst (urp_qp_create_on_cm_id ev ep cid i) = None
     then cv_upd i (\<lambda>s. (sl_est s, sl_held s, Some cid)) (conn_of ep) else conn_of ep)"
proof -
  have u: "conn_of (upd_qp i (\<lambda>q. q\<lparr>q_qp := h, q_cm_id := Some cid\<rparr>) e) = cv_upd i (\<lambda>s. (sl_est s, sl_held s, Some cid)) (conn_of e)" for h e
    by (rule conn_of_upd_qp) (simp add: slot_of_def)
  show ?thesis by (simp add: urp_qp_create_on_cm_id_def u conn_simps split: prod.split option.split)
qed

lemma conn_of_resolve_addr:
  "\<exists>d. (d \<noteq> None \<longleftrightarrow> fst (urp_qp_resolve_addr ev ep i) = None) \<and>
    (conn_of (snd (urp_qp_resolve_addr ev ep i)) = cv_upd i (\<lambda>s. (sl_est s, sl_held s, d)) (conn_of ep)
     \<or> d = None \<and> conn_of (snd (urp_qp_resolve_addr ev ep i)) = conn_of ep)"
proof -
  have u: "conn_of (upd_qp i (\<lambda>q. q\<lparr>q_cm_id := h\<rparr>) e) = cv_upd i (\<lambda>s. (sl_est s, sl_held s, h)) (conn_of e)" for h e
    by (rule conn_of_upd_qp) (simp add: slot_of_def)
  have uu: "cv_upd i (\<lambda>s. (sl_est s, sl_held s, d)) (cv_upd i (\<lambda>s. (sl_est s, sl_held s, d')) c) = cv_upd i (\<lambda>s. (sl_est s, sl_held s, d)) c" for c d d'
  proof -
    have "xs[i := a, i := (sl_est (xs[i := a] ! i), sl_held (xs[i := a] ! i), d)] = xs[i := (sl_est (xs ! i), sl_held (xs ! i), d)]"
      if "a = (sl_est (xs ! i), sl_held (xs ! i), d')" for xs and a :: slot
      using that by (cases "i < length xs") (simp_all add: list_update_beyond)
    then show ?thesis by (cases "cv_slots c") (simp_all add: cv_upd_def)
  qed
  obtain r1 ep1 where 1: "urp_make_cm_id ev ep = (r1, ep1)" by force
  have c1: "conn_of ep1 = conn_of ep" using conn_of_make_cm_id[of ev ep] 1 by simp
  show ?thesis
  proof (cases "urp_endpoint_extract_v4 (ep_peer_addr ep)")
    case (Inl e)
    then show ?thesis by (auto simp: urp_qp_resolve_addr_def)
  next
    case (Inr a)
    obtain ip port where a: "a = (ip, port)" by force
    show ?thesis
    proof (cases r1)
      case (Inl e)
      then show ?thesis using Inr a 1 c1 by (auto simp: urp_qp_resolve_addr_def)
    next
      case id: (Inr cid)
      then show ?thesis using Inr a 1 c1
        by (cases "ev_rdma ev (ep_trace (upd_qp i (\<lambda>q. q\<lparr>q_cm_id := Some cid\<rparr>) ep1)) R_resolve_addr")
          (auto simp: urp_qp_resolve_addr_def rdma_call_data_def Let_def u uu conn_simps)
    qed
  qed
qed

end
