(* ===== verification/Urp_Conn_Inv.thy ===== *)
theory Urp_Conn_Inv
  imports Urp_Conn
begin

text \<open>
  Connection management as a step relation over the handlers of kernel/urp\_rdma.c, and the
  invariant that ties the connection counters of an endpoint to the state of its queue pairs.
\<close>

section \<open>Steps of connection management\<close>

text \<open>
  The connection manager calls the handler for one event at a time.  It creates the identifier of a
  connection request, and destroys the identifier an event was for when the handler returns an
  error.  An identifier is being connected from its creation, up once ESTABLISHED was delivered and
  down after an event that ends it; ESTABLISHED is delivered at most once, and only while the
  identifier is being connected; a route is resolved before the identifier has a queue pair.  A retry runs when its work is armed, which is when it was
  scheduled and has not run since.  The steps follow these rules; everything else, which event
  comes when and how the calls end, is open.
\<close>

datatype cm_phase = Connecting | Up | Down

record conn_sys =
  cy_ep :: urp_endpoint
  cy_phase :: "nat \<Rightarrow> cm_phase"
  cy_armed :: "nat \<Rightarrow> bool"

definition deliver ::
    "env \<Rightarrow> nat \<Rightarrow> urp_cm_ctx \<Rightarrow> rdma_cm_event \<Rightarrow> urp_endpoint \<Rightarrow> errno option \<times> urp_endpoint" where
  "deliver ev cid ctx e ep =
    (case urp_cm_handler ev cid ctx e ep of
       (None, ep) \<Rightarrow> (None, ep)
     | (Some err, ep) \<Rightarrow> (Some err, log_ext (X_free O_cm_id) ep))"

definition listener_ctx :: urp_cm_ctx where
  "listener_ctx = \<lparr> cx_qp_index = 0, cx_is_listener = True \<rparr>"

definition qp_ctx :: "nat \<Rightarrow> urp_cm_ctx" where
  "qp_ctx i = \<lparr> cx_qp_index = i, cx_is_listener = False \<rparr>"

definition rearm :: "(nat \<Rightarrow> bool) \<Rightarrow> urp_endpoint \<Rightarrow> urp_endpoint \<Rightarrow> nat \<Rightarrow> bool" where
  "rearm ar ep ep' = (\<lambda>j. ar j \<or> j \<in> set (drop (length (retry_log ep)) (retry_log ep')))"

abbreviation down_event :: "rdma_cm_event_type \<Rightarrow> bool" where
  "down_event t \<equiv> t \<in> {RDMA_CM_EVENT_DISCONNECTED, RDMA_CM_EVENT_ADDR_ERROR, RDMA_CM_EVENT_ROUTE_ERROR,
     RDMA_CM_EVENT_CONNECT_ERROR, RDMA_CM_EVENT_UNREACHABLE, RDMA_CM_EVENT_REJECTED}"

inductive conn_step :: "env \<Rightarrow> conn_sys \<Rightarrow> conn_sys \<Rightarrow> bool" for ev where
  request: "\<lbrakk> ep_listen_id ep \<noteq> None; \<forall>q\<in>set (qps ep). q_cm_id q \<noteq> Some child;
     ce_event e = RDMA_CM_EVENT_CONNECT_REQUEST;
     deliver ev child listener_ctx e (log_ext (X_alloc O_cm_id) ep) = (r, ep') \<rbrakk>
   \<Longrightarrow> conn_step ev \<lparr> cy_ep = ep, cy_phase = ph, cy_armed = ar \<rparr>
         \<lparr> cy_ep = ep', cy_phase = (\<lambda>i. if q_cm_id (qps ep' ! i) = Some child then Connecting else ph i),
           cy_armed = rearm ar ep ep' \<rparr>"
| resolved: "\<lbrakk> i < unat (ep_num_qps ep); q_cm_id (qps ep ! i) = Some cid; ph i = Connecting;
     ce_event e = RDMA_CM_EVENT_ADDR_RESOLVED \<or>
       ce_event e = RDMA_CM_EVENT_ROUTE_RESOLVED \<and> q_qp (qps ep ! i) = None;
     deliver ev cid (qp_ctx i) e ep = (r, ep') \<rbrakk>
   \<Longrightarrow> conn_step ev \<lparr> cy_ep = ep, cy_phase = ph, cy_armed = ar \<rparr>
         \<lparr> cy_ep = ep', cy_phase = ph(i := (if r = None then Connecting else Down)), cy_armed = rearm ar ep ep' \<rparr>"
| connect: "\<lbrakk> i < unat (ep_num_qps ep); q_cm_id (qps ep ! i) \<noteq> None \<rbrakk>
   \<Longrightarrow> conn_step ev \<lparr> cy_ep = ep, cy_phase = ph, cy_armed = ar \<rparr>
         \<lparr> cy_ep = urp_connect_work_fn ev i ep, cy_phase = ph, cy_armed = ar \<rparr>"
| established: "\<lbrakk> i < unat (ep_num_qps ep); q_cm_id (qps ep ! i) = Some cid; ph i = Connecting;
     ce_event e = RDMA_CM_EVENT_ESTABLISHED; deliver ev cid (qp_ctx i) e ep = (r, ep') \<rbrakk>
   \<Longrightarrow> conn_step ev \<lparr> cy_ep = ep, cy_phase = ph, cy_armed = ar \<rparr>
         \<lparr> cy_ep = ep', cy_phase = ph(i := Up), cy_armed = rearm ar ep ep' \<rparr>"
| down: "\<lbrakk> i < unat (ep_num_qps ep); q_cm_id (qps ep ! i) = Some cid; down_event (ce_event e);
     deliver ev cid (qp_ctx i) e ep = (r, ep') \<rbrakk>
   \<Longrightarrow> conn_step ev \<lparr> cy_ep = ep, cy_phase = ph, cy_armed = ar \<rparr>
         \<lparr> cy_ep = ep', cy_phase = ph(i := Down), cy_armed = rearm ar ep ep' \<rparr>"
| probe: "\<lbrakk> i < unat (ep_num_qps ep); urp_emit_ping_on ev ep i = (r, ep') \<rbrakk>
   \<Longrightarrow> conn_step ev \<lparr> cy_ep = ep, cy_phase = ph, cy_armed = ar \<rparr>
         \<lparr> cy_ep = ep', cy_phase = ph, cy_armed = rearm ar ep ep' \<rparr>"
| retry: "\<lbrakk> i < unat (ep_num_qps ep); ar i; urp_connect_retry_work_fn ev i ep = ep' \<rbrakk>
   \<Longrightarrow> conn_step ev \<lparr> cy_ep = ep, cy_phase = ph, cy_armed = ar \<rparr>
         \<lparr> cy_ep = ep', cy_phase = (if ep_state ep = URP_STATE_ACTIVE then ph(i := Connecting) else ph),
           cy_armed = rearm (ar(i := False)) ep ep' \<rparr>"
| dial: "\<lbrakk> ep_state ep = URP_STATE_ACTIVE;
     urp_should_start_lazy_connect (ep_is_initiator ep) (ep_connect_started ep);
     urp_lazy_connect_start ev (ep\<lparr>ep_connect_started := True\<rparr>) = ep' \<rbrakk>
   \<Longrightarrow> conn_step ev \<lparr> cy_ep = ep, cy_phase = ph, cy_armed = ar \<rparr>
         \<lparr> cy_ep = ep', cy_phase = (\<lambda>i. if i < unat (ep_num_qps ep) then Connecting else ph i),
           cy_armed = rearm ar ep ep' \<rparr>"

section \<open>The connection invariant\<close>

text \<open>
  An established slot has an identifier that is up; a slot is held only on an acceptor whose shared
  objects exist, and on an acceptor every identifier that is not down holds its slot; a retry is
  armed only on an initiator, for a slot that is not established and not being connected; and an
  initiator that has not dialled has no identifiers.
\<close>

definition slot_ok :: "bool \<Rightarrow> bool \<Rightarrow> bool \<Rightarrow> slot \<Rightarrow> cm_phase \<Rightarrow> bool \<Rightarrow> bool" where
  "slot_ok ini pd started s p a \<longleftrightarrow>
     (sl_est s \<longrightarrow> p = Up \<and> sl_id s \<noteq> None)
     \<and> (sl_held s \<longrightarrow> \<not> ini \<and> pd)
     \<and> (\<not> ini \<and> sl_id s \<noteq> None \<and> p \<noteq> Down \<longrightarrow> sl_held s)
     \<and> (a \<longrightarrow> ini \<and> \<not> sl_est s \<and> (sl_id s \<noteq> None \<longrightarrow> p \<noteq> Connecting))
     \<and> (ini \<and> \<not> started \<longrightarrow> sl_id s = None \<and> \<not> a)"

abbreviation n_est :: "slot list \<Rightarrow> u32" where "n_est s \<equiv> sum_list (map (\<lambda>x. of_bool (sl_est x)) s)"
abbreviation n_held :: "slot list \<Rightarrow> u32" where "n_held s \<equiv> sum_list (map (\<lambda>x. of_bool (sl_held x)) s)"

definition conn_ok :: "conn_view \<Rightarrow> (nat \<Rightarrow> cm_phase) \<Rightarrow> (nat \<Rightarrow> bool) \<Rightarrow> bool" where
  "conn_ok c ph ar \<longleftrightarrow> (\<exists>s. cv_slots c = Some s \<and> length s = unat (cv_num c) \<and> cv_num c \<noteq> 0
     \<and> cv_connected c = n_est s \<and> cv_accepted c = n_held s \<and> (cv_up c \<longleftrightarrow> (\<forall>x\<in>set s. sl_est x))
     \<and> (\<forall>i<length s. slot_ok (cv_initiator c) (cv_pd c) (cv_started c) (s ! i) (ph i) (ar i))
     \<and> (cv_initiator c \<longrightarrow> \<not> cv_listen c))"

lemma slot_ok_pd: "slot_ok ini pd0 st x p a \<Longrightarrow> (sl_held x \<Longrightarrow> pd) \<Longrightarrow> slot_ok ini pd st x p a"
  unfolding slot_ok_def by blast

lemma slot_ok_up:
  "slot_ok ini pd st x Connecting a \<Longrightarrow> sl_id x \<noteq> None \<Longrightarrow> slot_ok ini pd st (True, sl_held x, sl_id x) Up a"
  unfolding slot_ok_def fst_conv snd_conv by blast

lemma slot_ok_phase: "slot_ok ini pd st x Connecting a \<Longrightarrow> sl_id x \<noteq> None \<Longrightarrow> slot_ok ini pd st x p a"
  unfolding slot_ok_def by blast

lemma slot_ok_down:
  "slot_ok ini pd st x p a \<Longrightarrow> sl_id x \<noteq> None \<Longrightarrow> (b \<Longrightarrow> ini) \<Longrightarrow> slot_ok ini pd st (False, False, sl_id x) Down (a \<or> b)"
  unfolding slot_ok_def fst_conv snd_conv by (cases ini) blast+

lemma slot_ok_lost:
  "slot_ok ini pd st x p a \<Longrightarrow> ini \<Longrightarrow> sl_est x \<Longrightarrow> slot_ok ini pd st (False, sl_held x, sl_id x) p b"
  unfolding slot_ok_def fst_conv snd_conv by (metis cm_phase.distinct(1))

lemma slot_ok_retry:
  "slot_ok ini pd st x p True \<Longrightarrow> (b \<Longrightarrow> d = None) \<Longrightarrow> slot_ok ini pd st (False, sl_held x, d) Connecting b"
  unfolding slot_ok_def fst_conv snd_conv by blast

lemma slot_ok_disarm:
  "slot_ok ini pd st x p a \<Longrightarrow> \<not> sl_est x \<Longrightarrow> slot_ok ini pd st (False, sl_held x, sl_id x) p False"
  unfolding slot_ok_def fst_conv snd_conv by blast

lemma slot_ok_free:
  "slot_ok ini pd st x p a \<Longrightarrow> \<not> ini \<Longrightarrow> (h \<Longrightarrow> pd') \<Longrightarrow> (d \<noteq> None \<Longrightarrow> h) \<Longrightarrow> slot_ok ini pd' st (False, h, d) q a"
  unfolding slot_ok_def fst_conv snd_conv by blast

lemma slot_ok_not_est: "slot_ok ini pd st x p a \<Longrightarrow> p \<noteq> Up \<Longrightarrow> \<not> sl_est x"
  unfolding slot_ok_def by blast

lemma conn_okD:
  assumes "conn_ok c ph ar" "cv_slots c = Some s"
  shows "length s = unat (cv_num c)" "cv_num c \<noteq> 0" "cv_connected c = n_est s" "cv_accepted c = n_held s"
    "cv_up c \<longleftrightarrow> (\<forall>x\<in>set s. sl_est x)"
    "i < length s \<Longrightarrow> slot_ok (cv_initiator c) (cv_pd c) (cv_started c) (s ! i) (ph i) (ar i)"
    "cv_initiator c \<longrightarrow> \<not> cv_listen c"
proof -
  obtain s' where *: "cv_slots c = Some s'" "length s' = unat (cv_num c)" "cv_num c \<noteq> 0"
    "cv_connected c = n_est s'" "cv_accepted c = n_held s'" "cv_up c \<longleftrightarrow> (\<forall>x\<in>set s'. sl_est x)"
    "\<forall>i<length s'. slot_ok (cv_initiator c) (cv_pd c) (cv_started c) (s' ! i) (ph i) (ar i)"
    "cv_initiator c \<longrightarrow> \<not> cv_listen c"
    using assms(1) unfolding conn_ok_def by (elim exE conjE)
  have "s' = s" using *(1) assms(2) by simp
  note r = *(2-8)[unfolded this]
  show "length s = unat (cv_num c)" by (rule r(1))
  show "cv_num c \<noteq> 0" by (rule r(2))
  show "cv_connected c = n_est s" by (rule r(3))
  show "cv_accepted c = n_held s" by (rule r(4))
  show "cv_up c \<longleftrightarrow> (\<forall>x\<in>set s. sl_est x)" by (rule r(5))
  show "i < length s \<Longrightarrow> slot_ok (cv_initiator c) (cv_pd c) (cv_started c) (s ! i) (ph i) (ar i)" using r(6) by blast
  show "cv_initiator c \<longrightarrow> \<not> cv_listen c" by (rule r(7))
qed

lemma n_est_count: "n_est s = of_nat (length (filter sl_est s))"
  by (induction s) (auto simp: of_bool_def)

lemma n_est_full:
  assumes "length s = unat (n :: u32)"
  shows "n_est s = n \<longleftrightarrow> (\<forall>x\<in>set s. sl_est x)"
proof -
  have "length (filter sl_est s) < 2 ^ 32"
    using le_less_trans[OF length_filter_le[of sl_est s], of "2 ^ 32"] assms unsigned_less[of n] by simp
  then have "unat (n_est s) = length (filter sl_est s)"
    by (simp add: n_est_count unat_of_nat take_bit_nat_eq_self)
  then have "n_est s = n \<longleftrightarrow> length (filter sl_est s) = length s"
    by (simp add: assms word_unat_eq_iff)
  then show ?thesis by (metis filter_True filter_id_conv length_filter_less less_irrefl)
qed

lemma n_est_update:
  fixes f :: "slot \<Rightarrow> bool"
  assumes "i < length s"
  shows "sum_list (map (\<lambda>x. of_bool (f x)) (s[i := x])) =
    (sum_list (map (\<lambda>x. of_bool (f x)) s) :: u32) + of_bool (f x) - of_bool (f (s ! i))"
  using assms
proof (induction s arbitrary: i)
  case (Cons y s)
  then show ?case by (cases i) (simp_all add: algebra_simps)
qed simp

text \<open>One slot changes, with the counters following it.\<close>

lemma conn_ok_update:
  assumes ok: "conn_ok c ph ar" and s: "cv_slots c = Some s" and i: "i < length s"
    and x: "slot_ok (cv_initiator c) (cv_pd c') (cv_started c) x p a"
    and pd: "\<And>y. y \<in> set s \<Longrightarrow> sl_held y \<Longrightarrow> cv_pd c'"
    and c': "cv_slots c' = Some (s[i := x])" "cv_num c' = cv_num c" "cv_initiator c' = cv_initiator c"
      "cv_listen c' = cv_listen c" "cv_started c' = cv_started c"
      "cv_connected c' = cv_connected c + of_bool (sl_est x) - of_bool (sl_est (s ! i))"
      "cv_accepted c' = cv_accepted c + of_bool (sl_held x) - of_bool (sl_held (s ! i))"
      "cv_up c' \<longleftrightarrow> (\<forall>y\<in>set (s[i := x]). sl_est y)"
  shows "conn_ok c' (ph(i := p)) (ar(i := a))"
proof -
  note k = conn_okD(6)[OF ok s]
  have "slot_ok (cv_initiator c) (cv_pd c') (cv_started c) (s ! j) (ph j) (ar j)" if "j < length s" for j
    by (rule slot_ok_pd[OF k[OF that] pd]) (use that in simp_all)
  then have all: "\<forall>j<length (s[i := x]). slot_ok (cv_initiator c) (cv_pd c') (cv_started c) (s[i := x] ! j) ((ph(i := p)) j) ((ar(i := a)) j)"
    using x by (auto simp: nth_list_update)
  note f = conn_okD(1-4,7)[OF ok s] n_est_update[OF i, of sl_est x] n_est_update[OF i, of sl_held x]
  show ?thesis unfolding conn_ok_def
    by (rule exI[of _ "s[i := x]"]) (use f all in \<open>simp add: c'\<close>)
qed

lemma held_pd:
  assumes "conn_ok c ph ar" "cv_slots c = Some s" "y \<in> set s" "sl_held y"
  shows "cv_pd c"
proof -
  obtain j where j: "j < length s" "y = s ! j" using assms(3) by (auto simp: in_set_conv_nth)
  then show ?thesis using conn_okD(6)[OF assms(1,2) j(1)] assms(4) unfolding slot_ok_def by blast
qed

lemma not_all_est: "i < length s \<Longrightarrow> \<not> sl_est (s ! i) \<Longrightarrow> \<not> (\<forall>y\<in>set s. sl_est y)"
  using nth_mem by blast

lemma n_est_pred_less:
  assumes "length s = unat (n :: u32)" "i < length s" "sl_est (s ! i)"
  shows "n_est s - 1 < n"
proof -
  have b: "length (filter sl_est s) \<le> unat n" using length_filter_le[of sl_est s] assms(1) by simp
  have "s ! i \<in> set (filter sl_est s)" using assms(2,3) by simp
  then have pos: "0 < length (filter sl_est s)" by (rule length_pos_if_in_set)
  have u: "unat (n_est s) = length (filter sl_est s)"
    using b le_less_trans[OF b unsigned_less[of n]] by (simp add: n_est_count unat_of_nat take_bit_nat_eq_self)
  then have "n_est s \<noteq> 0" using pos by auto
  then have "unat (n_est s - 1) = unat (n_est s) - 1" by (simp add: unat_minus_one)
  then show ?thesis unfolding word_less_nat_alt using u b pos by linarith
qed

lemma slots_exist:
  assumes "conn_ok (conn_of ep) ph ar" "i < unat (ep_num_qps ep)"
  obtains s where "cv_slots (conn_of ep) = Some s" "i < length s" "length s = unat (ep_num_qps ep)"
    "ep_qps ep \<noteq> None"
    "slot_ok (cv_initiator (conn_of ep)) (cv_pd (conn_of ep)) (cv_started (conn_of ep)) (s ! i) (ph i) (ar i)"
    "q_established (qps ep ! i) = sl_est (s ! i)" "q_accept_slot_held (qps ep ! i) = sl_held (s ! i)"
    "q_cm_id (qps ep ! i) = sl_id (s ! i)"
proof -
  obtain s where s: "cv_slots (conn_of ep) = Some s" using assms(1) unfolding conn_ok_def by blast
  have l: "length s = unat (ep_num_qps ep)" using conn_okD(1)[OF assms(1) s] by (simp add: conn_of_get)
  then have i: "i < length s" using assms(2) by simp
  have "ep_qps ep \<noteq> None" using s by (auto simp: conn_of_get)
  then show ?thesis using that[OF s i l _ conn_okD(6)[OF assms(1) s i]] slot_of_get[OF s i] by blast
qed

section \<open>Every step keeps the invariant\<close>

lemma established_keeps:
  assumes ok: "conn_ok (conn_of ep) ph ar" and i: "i < unat (ep_num_qps ep)"
    and "q_cm_id (qps ep ! i) = Some cid" "ph i = Connecting"
  shows "conn_ok (conn_of (cm_established ev i e ep)) (ph(i := Up)) ar"
proof -
  obtain s where s: "cv_slots (conn_of ep) = Some s" "i < length s" "length s = unat (ep_num_qps ep)" "ep_qps ep \<noteq> None"
    "slot_ok (cv_initiator (conn_of ep)) (cv_pd (conn_of ep)) (cv_started (conn_of ep)) (s ! i) (ph i) (ar i)"
    "q_cm_id (qps ep ! i) = sl_id (s ! i)"
    using slots_exist[OF ok i] by metis
  define c x where "c = conn_of ep" and "x = (True, sl_held (s ! i), sl_id (s ! i))"
  define c' where "c' = conn_of (cm_established ev i e ep)"
  have id: "sl_id (s ! i) \<noteq> None" using s(6) assms(3) by (metis option.distinct(1))
  have e: "\<not> sl_est (s ! i)" using slot_ok_not_est[OF s(5)] assms(4) by simp
  have n: "n_est (s[i := x]) = cv_connected c + 1"
    using n_est_update[OF s(2), of sl_est x] conn_okD(3)[OF ok s(1)] e by (simp add: c_def x_def)
  have full: "cv_connected c + 1 = cv_num c \<longleftrightarrow> (\<forall>y\<in>set (s[i := x]). sl_est y)"
    using n_est_full[of "s[i := x]" "cv_num c"] conn_okD(1)[OF ok s(1)] n by (simp add: c_def)
  have up: "\<not> cv_up c" using conn_okD(5)[OF ok s(1)] not_all_est[OF s(2) e] by (simp add: c_def)
  have c': "c' = (let c = cv_upd i (\<lambda>s. (True, sl_held s, sl_id s)) c; c = c\<lparr>cv_connected := cv_connected c + 1\<rparr>
     in if cv_connected c = cv_num c then c\<lparr>cv_up := True\<rparr> else c)"
    using conn_of_established[OF s(4) i, of ev e] by (simp add: c_def c'_def)
  have pd: "cv_pd c' = cv_pd c" by (simp add: c' Let_def)
  have "conn_ok c' (ph(i := Up)) (ar(i := ar i))"
  proof (rule conn_ok_update[OF ok s(1,2), folded c_def, where x = x])
    show "slot_ok (cv_initiator c) (cv_pd c') (cv_started c) x Up (ar i)"
      using slot_ok_up[OF s(5)[unfolded assms(4)] id] pd by (simp add: x_def c_def)
    show "cv_pd c'" if "y \<in> set s" "sl_held y" for y
      using held_pd[OF ok s(1) that] pd by (simp add: c_def)
    show "cv_slots c' = Some (s[i := x])" using s(1) by (simp add: c' Let_def cv_upd_def x_def c_def)
    show "cv_up c' \<longleftrightarrow> (\<forall>y\<in>set (s[i := x]). sl_est y)" using full up by (simp add: c' Let_def)
  qed (simp_all add: c' Let_def x_def e)
  then show ?thesis by (simp add: c'_def)
qed

lemma cv_lost_fields [simp]:
  "cv_num (cv_lost i c) = cv_num c" "cv_accepted (cv_lost i c) = cv_accepted c"
  "cv_initiator (cv_lost i c) = cv_initiator c" "cv_pd (cv_lost i c) = cv_pd c"
  "cv_listen (cv_lost i c) = cv_listen c" "cv_started (cv_lost i c) = cv_started c"
  "cv_connected (cv_lost i c) = cv_connected c - 1" "cv_retries (cv_lost i c) = cv_retries c"
  "cv_slots (cv_lost i c) = map_option (\<lambda>s. s[i := (False, sl_held (s ! i), sl_id (s ! i))]) (cv_slots c)"
  by (simp_all add: cv_lost_def Let_def) (simp add: cv_upd_def)

lemma cv_release_fields [simp]:
  "cv_num (cv_release i c) = cv_num c" "cv_accepted (cv_release i c) = cv_accepted c - 1"
  "cv_initiator (cv_release i c) = cv_initiator c" "cv_pd (cv_release i c) = cv_pd c"
  "cv_listen (cv_release i c) = cv_listen c" "cv_started (cv_release i c) = cv_started c"
  "cv_connected (cv_release i c) = cv_connected c" "cv_retries (cv_release i c) = cv_retries c"
  "cv_up (cv_release i c) = cv_up c"
  "cv_slots (cv_release i c) = map_option (\<lambda>s. s[i := (sl_est (s ! i), False, sl_id (s ! i))]) (cv_slots c)"
  by (simp_all add: cv_release_def) (simp add: cv_upd_def)

text \<open>A session is only ever counted down while it is counted, so the endpoint is not connected afterwards.\<close>

lemma cv_lost_up:
  assumes "conn_ok c ph ar" "cv_slots c = Some s" "i < length s" "sl_est (s ! i)"
  shows "\<not> cv_up (cv_lost i c)"
  using n_est_pred_less[OF conn_okD(1)[OF assms(1,2)] assms(3,4)] conn_okD(3)[OF assms(1,2)]
  by (simp add: cv_lost_def Let_def)

text \<open>Giving a slot up: the session and, on an acceptor, the slot are counted down.\<close>

lemma cv_given_up:
  assumes "conn_ok c ph ar" "cv_slots c = Some s" "i < length s"
    and "slot_ok (cv_initiator c) (cv_pd c) (cv_started c) (s ! i) (ph i) (ar i)"
    and c1: "c1 = (if sl_est (s ! i) then cv_lost i c else c)"
    and c2: "c2 = (if \<not> cv_initiator c \<and> sl_held (s ! i) then cv_release i c1 else c1)"
  shows "cv_slots c2 = Some (s[i := (False, False, sl_id (s ! i))])" "cv_num c2 = cv_num c"
    "cv_initiator c2 = cv_initiator c" "cv_listen c2 = cv_listen c" "cv_started c2 = cv_started c" "cv_pd c2 = cv_pd c"
    "cv_connected c2 = cv_connected c - of_bool (sl_est (s ! i))"
    "cv_accepted c2 = cv_accepted c - of_bool (sl_held (s ! i))" "\<not> cv_up c2" "cv_retries c2 = cv_retries c"
proof -
  have h: "sl_held (s ! i) \<longrightarrow> \<not> cv_initiator c" using assms(4) unfolding slot_ok_def by blast
  have "s ! i = (sl_est (s ! i), sl_held (s ! i), sl_id (s ! i))" by simp
  then have id: "s[i := (sl_est (s ! i), sl_held (s ! i), sl_id (s ! i))] = s" by (metis list_update_id)
  have 1: "cv_slots c1 = Some (s[i := (False, sl_held (s ! i), sl_id (s ! i))])"
    using assms(2) id by (cases "sl_est (s ! i)") (simp_all add: c1)
  then show "cv_slots c2 = Some (s[i := (False, False, sl_id (s ! i))])"
    using h assms(3) by (cases "sl_held (s ! i)") (simp_all add: c2)
  show "\<not> cv_up c2"
    using cv_lost_up[OF assms(1-3)] conn_okD(5)[OF assms(1,2)] not_all_est[OF assms(3)]
    by (cases "sl_est (s ! i)") (simp_all add: c2 c1)
  show "cv_accepted c2 = cv_accepted c - of_bool (sl_held (s ! i))"
    using h by (cases "sl_est (s ! i)"; cases "sl_held (s ! i)") (simp_all add: c2 c1)
qed (simp_all add: c2 c1)

lemma rearm_view:
  "cv_retries (conn_of ep') = cv_retries (conn_of ep) @ l \<Longrightarrow> rearm ar ep ep' = (\<lambda>j. ar j \<or> j \<in> set l)"
  by (simp add: rearm_def conn_of_def)

lemma rearm_one:
  "cv_retries (conn_of ep') = cv_retries (conn_of ep) @ l \<Longrightarrow> set l \<subseteq> {i} \<Longrightarrow>
    rearm ar ep ep' = ar(i := ar i \<or> i \<in> set l)"
  by (auto simp: rearm_view fun_eq_iff)

lemma rearm_none: "cv_retries (conn_of ep') = cv_retries (conn_of ep) \<Longrightarrow> rearm ar ep ep' = ar"
  using rearm_view[of ep' ep "[]"] by simp

lemma down_keeps:
  assumes ok: "conn_ok (conn_of ep) ph ar" and i: "i < unat (ep_num_qps ep)"
    and "q_cm_id (qps ep ! i) = Some cid"
  shows "conn_ok (conn_of (cm_down ev i e ep)) (ph(i := Down)) (rearm ar ep (cm_down ev i e ep))"
proof -
  obtain s where s: "cv_slots (conn_of ep) = Some s" "i < length s" "ep_qps ep \<noteq> None"
    "slot_ok (cv_initiator (conn_of ep)) (cv_pd (conn_of ep)) (cv_started (conn_of ep)) (s ! i) (ph i) (ar i)"
    "q_cm_id (qps ep ! i) = sl_id (s ! i)" "q_established (qps ep ! i) = sl_est (s ! i)"
    "q_accept_slot_held (qps ep ! i) = sl_held (s ! i)"
    using slots_exist[OF ok i] by metis
  define c where "c = conn_of ep"
  define c' where "c' = conn_of (cm_down ev i e ep)"
  have id: "sl_id (s ! i) \<noteq> None" using s(5) assms(3) by (metis option.distinct(1))
  obtain l where l: "set l \<subseteq> (if cv_initiator c then {i} else {})"
    "c' = (conn_of (cm_lost i ep))\<lparr>cv_retries := cv_retries c @ l\<rparr>"
    using conn_of_cm_down[OF s(3) i, of ev e] by (auto simp: c_def c'_def conn_of_get)
  define c1 where "c1 = (if sl_est (s ! i) then cv_lost i c else c)"
  define c2 where "c2 = (if \<not> cv_initiator c \<and> sl_held (s ! i) then cv_release i c1 else c1)"
  have lost: "conn_of (cm_lost i ep) = c2"
    using s(6,7) by (simp add: conn_of_cm_lost[OF s(3)] c2_def c1_def Let_def c_def conn_of_get)
  note g = cv_given_up[OF ok s(1,2,4), folded c_def, OF c1_def c2_def]
  have "conn_ok c' (ph(i := Down)) (ar(i := ar i \<or> i \<in> set l))"
  proof (rule conn_ok_update[OF ok s(1,2), folded c_def, where x = "(False, False, sl_id (s ! i))"])
    show "slot_ok (cv_initiator c) (cv_pd c') (cv_started c) (False, False, sl_id (s ! i)) Down (ar i \<or> i \<in> set l)"
      using slot_ok_down[OF s(4) id, of "i \<in> set l"] l g(6) lost by (auto simp: c_def split: if_splits)
    show "cv_pd c'" if "y \<in> set s" "sl_held y" for y
      using held_pd[OF ok s(1) that] g(6) l(2) lost by (simp add: c_def)
    show "cv_up c' \<longleftrightarrow> (\<forall>y\<in>set (s[i := (False, False, sl_id (s ! i))]). sl_est y)"
      using g(9) l(2) lost not_all_est[of i "s[i := (False, False, sl_id (s ! i))]"] s(2) by simp
  qed (use g l(2) lost in simp_all)
  moreover have "rearm ar ep (cm_down ev i e ep) = ar(i := ar i \<or> i \<in> set l)"
    by (rule rearm_one) (use l in \<open>auto simp: c'_def c_def split: if_splits\<close>)
  ultimately show ?thesis by (simp add: c'_def)
qed

lemma conn_of_ping_missed [conn_simps]: "conn_of (snd (ping_missed i ep)) = conn_of ep"
  by (simp add: ping_missed_def Let_def conn_of_upd_same slot_of_def)

lemma conn_of_ktime [conn_simps]:
  "conn_of (snd (ktime_get_ns ev ep)) = conn_of ep" "conn_of (snd (ktime_get_real_ns ev ep)) = conn_of ep"
  by (simp_all add: ktime_get_ns_def ktime_get_real_ns_def conn_simps)

lemma conn_of_post_frame [conn_simps]: "conn_of (snd (urp_post_frame ev ep q b n)) = conn_of ep"
  by (simp add: urp_post_frame_def urp_post_frame_sg_def urp_buf_free_send_def Let_def conn_simps case_prod_beta split: option.split)

lemma conn_of_alloc_send [conn_simps]: "conn_of (snd (urp_buf_alloc_send ep)) = conn_of ep"
  by (simp add: urp_buf_alloc_send_def conn_simps split: list.split)

lemma ping_missed_true:
  assumes "fst (ping_missed i ep)" "ep_qps ep \<noteq> None"
  shows "ep_is_initiator ep \<and> q_established (qps ep ! i)"
proof -
  obtain qs where q: "ep_qps ep = Some qs" using assms(2) by blast
  then show ?thesis using assms(1)
    by (cases "i < length qs") (auto simp: ping_missed_def Let_def urp_silent_drop_should_reconnect_def upd_qp_def
        list_update_beyond split: if_splits)
qed

lemma retry_or_fail_view:
  obtains l where "set l \<subseteq> {i}"
    "conn_of (retry_or_fail ev i b ep) = (conn_of ep)\<lparr>cv_retries := cv_retries (conn_of ep) @ l\<rparr>"
proof -
  obtain l where l: "set l \<subseteq> (if ep_is_initiator ep then {i} else {})"
    "conn_of (retry_or_fail ev i b ep) = (conn_of ep)\<lparr>cv_retries := cv_retries (conn_of ep) @ l\<rparr>"
    using conn_of_retry_or_fail by blast
  have "set l \<subseteq> {i}" using l(1) by (auto split: if_splits)
  then show ?thesis using l(2) by (rule that)
qed

lemma conn_of_emit_ping:
  assumes "ep_qps ep \<noteq> None"
  shows "conn_of (snd (urp_emit_ping_on ev ep i)) = conn_of ep
    \<or> ep_is_initiator ep \<and> q_established (qps ep ! i) \<and> (\<exists>l. set l \<subseteq> {i} \<and>
        conn_of (snd (urp_emit_ping_on ev ep i)) = (cv_lost i (conn_of ep))\<lparr>cv_retries := cv_retries (conn_of ep) @ l\<rparr>)"
proof (cases "\<not> q_established (qps ep ! i) \<or> q_qp (qps ep ! i) = None")
  case True
  then show ?thesis by (auto simp: urp_emit_ping_on_def)
next
  case False
  obtain m ep1 where m: "ping_missed i ep = (m, ep1)" by force
  have c1: "conn_of ep1 = conn_of ep" using conn_of_ping_missed[of i ep] m by simp
  show ?thesis
  proof (cases m)
    case True
    have "ep_is_initiator ep \<and> q_established (qps ep ! i)" using ping_missed_true[of i ep] assms m True by simp
    moreover obtain l where "set l \<subseteq> {i}" "conn_of (urp_connect_retry_on_silent_drop ev i ep1) =
        (cv_lost i (conn_of ep))\<lparr>cv_retries := cv_retries (conn_of ep) @ l\<rparr>"
      by (rule retry_or_fail_view[of i ev "q_index (qps (qp_session_lost i ep1) ! i) = 0" "qp_session_lost i ep1"])
        (simp add: urp_connect_retry_on_silent_drop_def Let_def conn_of_session_lost c1)
    ultimately show ?thesis using False m True by (auto simp: urp_emit_ping_on_def Let_def)
  next
    case f: False
    obtain o2 ep2 where 2: "urp_buf_alloc_send ep1 = (o2, ep2)" by force
    have c2: "conn_of ep2 = conn_of ep" using conn_of_alloc_send[of ep1] 2 c1 by simp
    obtain n3 ep3 where 3: "ktime_get_ns ev ep2 = (n3, ep3)" by force
    have c3: "conn_of ep3 = conn_of ep" using conn_of_ktime(1)[of ev ep2] 3 c2 by simp
    obtain n4 ep4 where 4: "ktime_get_real_ns ev ep3 = (n4, ep4)" by force
    have c4: "conn_of ep4 = conn_of ep" using conn_of_ktime(2)[of ev ep3] 4 c3 by simp
    show ?thesis
    proof (cases o2)
      case None
      then show ?thesis using False m f 2 c2 by (simp add: urp_emit_ping_on_def Let_def)
    next
      case (Some b)
      then show ?thesis using False m f 2 3 4 c4
        by (simp add: urp_emit_ping_on_def Let_def conn_simps conn_of_upd_same slot_of_def)
    qed
  qed
qed

lemma probe_keeps:
  assumes ok: "conn_ok (conn_of ep) ph ar" and i: "i < unat (ep_num_qps ep)"
  shows "conn_ok (conn_of (snd (urp_emit_ping_on ev ep i))) ph (rearm ar ep (snd (urp_emit_ping_on ev ep i)))"
proof -
  obtain s where s: "cv_slots (conn_of ep) = Some s" "i < length s" "ep_qps ep \<noteq> None"
    "slot_ok (cv_initiator (conn_of ep)) (cv_pd (conn_of ep)) (cv_started (conn_of ep)) (s ! i) (ph i) (ar i)"
    "q_established (qps ep ! i) = sl_est (s ! i)"
    using slots_exist[OF ok i] by metis
  define ep' where "ep' = snd (urp_emit_ping_on ev ep i)"
  consider (same) "conn_of ep' = conn_of ep"
    | (lost) l where "ep_is_initiator ep" "q_established (qps ep ! i)" "set l \<subseteq> {i}"
        "conn_of ep' = (cv_lost i (conn_of ep))\<lparr>cv_retries := cv_retries (conn_of ep) @ l\<rparr>"
    using conn_of_emit_ping[OF s(3), of ev i] by (auto simp: ep'_def)
  then show ?thesis
  proof cases
    case same
    then show ?thesis using ok by (simp add: rearm_none ep'_def)
  next
    case lost
    have e: "sl_est (s ! i)" using lost(2) s(5) by simp
    let ?x = "(False, sl_held (s ! i), sl_id (s ! i))"
    have "conn_ok (conn_of ep') (ph(i := ph i)) (ar(i := ar i \<or> i \<in> set l))"
    proof (rule conn_ok_update[OF ok s(1,2), where x = ?x])
      show "slot_ok (cv_initiator (conn_of ep)) (cv_pd (conn_of ep')) (cv_started (conn_of ep)) ?x (ph i) (ar i \<or> i \<in> set l)"
        using slot_ok_lost[OF s(4) _ e, of "ar i \<or> i \<in> set l"] lost(1,4) by (simp add: conn_of_get)
      show "cv_pd (conn_of ep')" if "y \<in> set s" "sl_held y" for y
        using held_pd[OF ok s(1) that] lost(4) by simp
      show "cv_up (conn_of ep') \<longleftrightarrow> (\<forall>y\<in>set (s[i := ?x]). sl_est y)"
        using cv_lost_up[OF ok s(1,2) e] lost(4) not_all_est[of i "s[i := ?x]"] s(2) by simp
    qed (use lost(4) s(1) e in simp_all)
    then show ?thesis using rearm_one[of ep' ep l i ar] lost(3,4) by (simp add: ep'_def)
  qed
qed

lemma retry_keeps:
  assumes ok: "conn_ok (conn_of ep) ph ar" and i: "i < unat (ep_num_qps ep)" and a: "ar i"
  shows "conn_ok (conn_of (urp_connect_retry_work_fn ev i ep))
    (if ep_state ep = URP_STATE_ACTIVE then ph(i := Connecting) else ph)
    (rearm (ar(i := False)) ep (urp_connect_retry_work_fn ev i ep))"
proof -
  obtain s where s: "cv_slots (conn_of ep) = Some s" "i < length s" "ep_qps ep \<noteq> None"
    "slot_ok (cv_initiator (conn_of ep)) (cv_pd (conn_of ep)) (cv_started (conn_of ep)) (s ! i) (ph i) (ar i)"
    using slots_exist[OF ok i] by metis
  define ep' where "ep' = urp_connect_retry_work_fn ev i ep"
  have e: "\<not> sl_est (s ! i)" using s(4) a unfolding slot_ok_def by blast
  have up: "\<not> cv_up (conn_of ep)" using conn_okD(5)[OF ok s(1)] not_all_est[OF s(2) e] by simp
  have upd: "conn_ok c' (ph(i := p)) (ar(i := b))"
    if "slot_ok (cv_initiator (conn_of ep)) (cv_pd (conn_of ep)) (cv_started (conn_of ep)) (False, sl_held (s ! i), d) p b"
      "c' = (conn_of ep)\<lparr>cv_slots := Some (s[i := (False, sl_held (s ! i), d)]), cv_retries := rt\<rparr>" for c' d p b rt
    using that held_pd[OF ok s(1)] e s(2) up not_all_est[of i "s[i := (False, sl_held (s ! i), d)]"]
    by (intro conn_ok_update[OF ok s(1,2), where x = "(False, sl_held (s ! i), d)"]) simp_all
  show ?thesis
  proof (cases "ep_state ep = URP_STATE_ACTIVE")
    case False
    have "s[i := (False, sl_held (s ! i), sl_id (s ! i))] = s" using e by (metis list_update_id prod.collapse)
    then have "conn_ok (conn_of ep) (ph(i := ph i)) (ar(i := False))"
      using upd[OF slot_ok_disarm[OF s(4) e], of "conn_of ep" "cv_retries (conn_of ep)"] s(1) by simp
    then show ?thesis using False by (simp add: urp_connect_retry_work_fn_def rearm_none)
  next
    case True
    define ep1 where "ep1 = urp_qp_hard_teardown ep i"
    obtain d where d: "(d \<noteq> None) = (fst (urp_qp_resolve_addr ev ep1 i) = None)"
      "conn_of (snd (urp_qp_resolve_addr ev ep1 i)) = cv_upd i (\<lambda>s. (sl_est s, sl_held s, d)) (conn_of ep1)
       \<or> d = None \<and> conn_of (snd (urp_qp_resolve_addr ev ep1 i)) = conn_of ep1"
      using conn_of_resolve_addr[of ev ep1 i] by (elim exE conjE)
    have v: "conn_of (snd (urp_qp_resolve_addr ev ep1 i)) = (conn_of ep)\<lparr>cv_slots := Some (s[i := (False, sl_held (s ! i), d)])\<rparr>"
      using d(2) s(1,2) by (auto simp: ep1_def conn_of_hard_teardown cv_clear_def cv_upd_def)
    obtain l where l: "set l \<subseteq> {i}" "d \<noteq> None \<longrightarrow> l = []"
      "conn_of ep' = (conn_of ep)\<lparr>cv_slots := Some (s[i := (False, sl_held (s ! i), d)]), cv_retries := cv_retries (conn_of ep) @ l\<rparr>"
    proof (cases d)
      case None
      then obtain er ep2 where "urp_qp_resolve_addr ev ep1 i = (Some er, ep2)" using d(1) by (metis option.exhaust surjective_pairing)
      then have e2: "ep' = retry_or_fail ev i False ep2" "conn_of ep2 = (conn_of ep)\<lparr>cv_slots := Some (s[i := (False, sl_held (s ! i), d)])\<rparr>"
        using True v by (simp_all add: ep'_def urp_connect_retry_work_fn_def ep1_def[symmetric])
      obtain l where "set l \<subseteq> {i}"
        "conn_of (retry_or_fail ev i False ep2) = (conn_of ep2)\<lparr>cv_retries := cv_retries (conn_of ep2) @ l\<rparr>"
        by (rule retry_or_fail_view)
      then show ?thesis using that[of l] e2 None by simp
    next
      case (Some h)
      then obtain ep2 where "urp_qp_resolve_addr ev ep1 i = (None, ep2)" using d(1) by (metis option.distinct(1) surjective_pairing)
      then show ?thesis using True v Some that[of "[]"]
        by (simp add: ep'_def urp_connect_retry_work_fn_def ep1_def[symmetric])
    qed
    have "slot_ok (cv_initiator (conn_of ep)) (cv_pd (conn_of ep)) (cv_started (conn_of ep)) (False, sl_held (s ! i), d) Connecting (i \<in> set l)"
      using l(2) s(4) a by (intro slot_ok_retry[of _ _ _ "s ! i" "ph i"]) auto
    from upd[OF this l(3)] have "conn_ok (conn_of ep') (ph(i := Connecting)) (ar(i := i \<in> set l))" .
    moreover have "rearm (ar(i := False)) ep ep' = ar(i := i \<in> set l)"
      using rearm_one[of ep' ep l i "ar(i := False)"] l(1,3) by simp
    ultimately show ?thesis using True by (simp add: ep'_def)
  qed
qed

lemma conn_ok_cong:
  assumes "conn_ok c ph ar" "\<And>j. j < unat (cv_num c) \<Longrightarrow> ph' j = ph j \<and> ar' j = ar j"
  shows "conn_ok c ph' ar'"
proof -
  obtain s where s: "cv_slots c = Some s" using assms(1) unfolding conn_ok_def by blast
  have "\<forall>j<length s. slot_ok (cv_initiator c) (cv_pd c) (cv_started c) (s ! j) (ph' j) (ar' j)"
    using conn_okD(6)[OF assms(1) s] conn_okD(1)[OF assms(1) s] assms(2) by simp
  then show ?thesis using conn_okD[OF assms(1) s] s unfolding conn_ok_def by blast
qed

lemma conn_of_route_resolved:
  assumes "cv_slots (conn_of ep) = Some s" "i < length s" "sl_id (s ! i) = Some cid"
  shows "conn_of (snd (route_resolved ev cid i ep)) =
    (conn_of ep)\<lparr>cv_pd := (fst (urp_endpoint_setup_shared ev ep) = None)\<rparr>"
proof -
  obtain r1 ep1 where 1: "urp_endpoint_setup_shared ev ep = (r1, ep1)" by force
  have c1: "conn_of ep1 = (conn_of ep)\<lparr>cv_pd := (r1 = None)\<rparr>" using conn_of_setup_shared[of ev ep] 1 by simp
  obtain r2 ep2 where 2: "urp_qp_create_on_cm_id ev ep1 cid i = (r2, ep2)" by force
  have "s[i := (sl_est (s ! i), sl_held (s ! i), Some cid)] = s" using assms(3) by (metis list_update_id prod.collapse)
  then have "cv_upd i (\<lambda>s. (sl_est s, sl_held s, Some cid)) (conn_of ep1) = conn_of ep1"
    using c1 assms(1) by (simp add: cv_upd_def)
  then have "conn_of ep2 = conn_of ep1" using conn_of_create_qp[of ev ep1 cid i] 2 by (simp split: if_splits)
  then show ?thesis using 1 2 c1
    by (cases r1; cases r2) (simp_all add: route_resolved_def conn_simps)
qed

lemma resolved_keeps:
  assumes ok: "conn_ok (conn_of ep) ph ar" and i: "i < unat (ep_num_qps ep)"
    and "q_cm_id (qps ep ! i) = Some cid" "ph i = Connecting"
  shows "conn_ok (conn_of (snd (route_resolved ev cid i ep))) (ph(i := p)) ar"
    "cv_retries (conn_of (snd (route_resolved ev cid i ep))) = cv_retries (conn_of ep)"
    "conn_ok (conn_of ep) (ph(i := p)) ar"
proof -
  obtain s where s: "cv_slots (conn_of ep) = Some s" "i < length s"
    "slot_ok (cv_initiator (conn_of ep)) (cv_pd (conn_of ep)) (cv_started (conn_of ep)) (s ! i) (ph i) (ar i)"
    "q_cm_id (qps ep ! i) = sl_id (s ! i)"
    using slots_exist[OF ok i] by metis
  define b where "b = (fst (urp_endpoint_setup_shared ev ep) = None)"
  have id: "sl_id (s ! i) = Some cid" using s(4) assms(3) by simp
  note v = conn_of_route_resolved[OF s(1,2) id, of ev, folded b_def]
  have pd: "b" if "cv_pd (conn_of ep)" using setup_shared_idem[OF that, of ev] by (simp add: b_def)
  have x: "slot_ok (cv_initiator (conn_of ep)) (cv_pd (conn_of ep)) (cv_started (conn_of ep)) (s ! i) p (ar i)"
    using slot_ok_phase[OF s(3)[unfolded assms(4)], of p] id by simp
  have sl: "sl_held (s ! i) \<Longrightarrow> b" using pd s(3) unfolding slot_ok_def by blast
  have "conn_ok (conn_of (snd (route_resolved ev cid i ep))) (ph(i := p)) (ar(i := ar i))"
    using slot_ok_pd[OF x sl] held_pd[OF ok s(1)] pd v s(1) conn_okD(5)[OF ok s(1)]
    by (intro conn_ok_update[OF ok s(1,2), where x = "s ! i"]) auto
  then show "conn_ok (conn_of (snd (route_resolved ev cid i ep))) (ph(i := p)) ar" by simp
  show "cv_retries (conn_of (snd (route_resolved ev cid i ep))) = cv_retries (conn_of ep)" by (simp add: v)
  have "conn_ok (conn_of ep) (ph(i := p)) (ar(i := ar i))"
    using x held_pd[OF ok s(1)] s(1) conn_okD(5)[OF ok s(1)]
    by (intro conn_ok_update[OF ok s(1,2), where x = "s ! i"]) auto
  then show "conn_ok (conn_of ep) (ph(i := p)) ar" by simp
qed

text \<open>Dialling one queue pair of an initiator that has started; the others follow by induction.\<close>

lemma slot_ok_dial:
  "slot_ok ini pd st x p a \<Longrightarrow> ini \<Longrightarrow> st \<Longrightarrow> \<not> sl_est x \<Longrightarrow> (b \<Longrightarrow> d = None) \<Longrightarrow> slot_ok ini pd st (False, sl_held x, d) Connecting b"
  unfolding slot_ok_def fst_conv snd_conv by blast

lemma slot_ok_idle: "slot_ok ini pd st x p a \<Longrightarrow> ini \<Longrightarrow> \<not> st \<Longrightarrow> sl_id x = None \<and> \<not> a \<and> \<not> sl_est x"
  unfolding slot_ok_def by (cases "sl_est x"; cases "sl_id x") simp_all

lemma conn_of_lazy_dial:
  assumes "cv_slots (conn_of ep) = Some s" "i < length s" "\<not> sl_est (s ! i)" "sl_id (s ! i) = None"
  obtains d l where "set l \<subseteq> {i}" "d \<noteq> None \<longrightarrow> l = []"
    "conn_of (lazy_dial ev i ep) = (conn_of ep)\<lparr>cv_slots := Some (s[i := (False, sl_held (s ! i), d)]),
       cv_retries := cv_retries (conn_of ep) @ l\<rparr>"
proof -
  obtain d where d: "(d \<noteq> None) = (fst (urp_qp_resolve_addr ev ep i) = None)"
    "conn_of (snd (urp_qp_resolve_addr ev ep i)) = cv_upd i (\<lambda>s. (sl_est s, sl_held s, d)) (conn_of ep)
     \<or> d = None \<and> conn_of (snd (urp_qp_resolve_addr ev ep i)) = conn_of ep"
    using conn_of_resolve_addr[of ev ep i] by (elim exE conjE)
  obtain r ep1 where r: "urp_qp_resolve_addr ev ep i = (r, ep1)" by force
  have "s[i := (False, sl_held (s ! i), None)] = s" using assms(3,4) by (metis list_update_id prod.collapse)
  then have v: "conn_of ep1 = (conn_of ep)\<lparr>cv_slots := Some (s[i := (False, sl_held (s ! i), d)])\<rparr>"
    using d(2) assms r by (auto simp: cv_upd_def)
  show ?thesis
  proof (cases r)
    case None
    then show ?thesis using that[of "[]" d] r v by (simp add: lazy_dial_def)
  next
    case (Some e)
    then show ?thesis using that[of "[i]" d] r v d(1) by (simp add: lazy_dial_def conn_of_log)
  qed
qed

lemma lazy_fold_keeps:
  assumes "conn_ok (conn_of ep) ph ar" "cv_initiator (conn_of ep)" "cv_started (conn_of ep)"
    and "distinct is" "\<And>j. j \<in> set is \<Longrightarrow> j < unat (cv_num (conn_of ep)) \<and> \<not> ar j
      \<and> (\<exists>s. cv_slots (conn_of ep) = Some s \<and> \<not> sl_est (s ! j) \<and> sl_id (s ! j) = None)"
  shows "\<exists>l. cv_retries (conn_of (fold (lazy_dial ev) is ep)) = cv_retries (conn_of ep) @ l
    \<and> conn_ok (conn_of (fold (lazy_dial ev) is ep)) (\<lambda>j. if j \<in> set is then Connecting else ph j) (\<lambda>j. ar j \<or> j \<in> set l)"
  using assms
proof (induction "is" arbitrary: ep ph ar)
  case Nil
  then show ?case by simp
next
  case (Cons i "is")
  define c where "c = conn_of ep"
  obtain s where s: "cv_slots c = Some s" "\<not> sl_est (s ! i)" "sl_id (s ! i) = None"
    using Cons.prems(5)[of i] by (auto simp: c_def)
  have ok: "conn_ok c ph ar" using Cons.prems(1) by (simp add: c_def)
  have i: "i < length s" using Cons.prems(5)[of i] conn_okD(1)[OF ok s(1)] by (simp add: c_def)
  obtain d l where dl: "set l \<subseteq> {i}" "d \<noteq> None \<longrightarrow> l = []"
    "conn_of (lazy_dial ev i ep) = c\<lparr>cv_slots := Some (s[i := (False, sl_held (s ! i), d)]), cv_retries := cv_retries c @ l\<rparr>"
    by (rule conn_of_lazy_dial[OF s(1)[unfolded c_def] i s(2,3)]) (auto simp: c_def)
  define ep1 where "ep1 = lazy_dial ev i ep"
  note v = dl(3)[folded ep1_def]
  note k = conn_okD(6)[OF ok s(1) i]
  have ok1: "conn_ok (conn_of ep1) (ph(i := Connecting)) (ar(i := i \<in> set l))"
  proof (rule conn_ok_update[OF ok s(1) i, where x = "(False, sl_held (s ! i), d)"])
    show "slot_ok (cv_initiator c) (cv_pd (conn_of ep1)) (cv_started c) (False, sl_held (s ! i), d) Connecting (i \<in> set l)"
      using slot_ok_dial[OF k _ _ s(2), of "i \<in> set l" d] Cons.prems(2,3) dl(2) v by (auto simp: c_def)
    show "cv_pd (conn_of ep1)" if "y \<in> set s" "sl_held y" for y using held_pd[OF ok s(1) that] v by simp
    show "cv_up (conn_of ep1) \<longleftrightarrow> (\<forall>y\<in>set (s[i := (False, sl_held (s ! i), d)]). sl_est y)"
      using v conn_okD(5)[OF ok s(1)] not_all_est[OF i s(2)] not_all_est[of i "s[i := (False, sl_held (s ! i), d)]"] i by simp
  qed (use v s(2) in simp_all)
  have rest: "j < unat (cv_num (conn_of ep1)) \<and> \<not> (ar(i := i \<in> set l)) j
      \<and> (\<exists>s. cv_slots (conn_of ep1) = Some s \<and> \<not> sl_est (s ! j) \<and> sl_id (s ! j) = None)" if j: "j \<in> set is" for j
    using Cons.prems(5)[of j] j Cons.prems(4) v s(1) by (auto simp: c_def)
  have "cv_initiator (conn_of ep1)" "cv_started (conn_of ep1)" "distinct is"
    using Cons.prems(2-4) v by (simp_all add: c_def)
  from Cons.IH[OF ok1 this rest] obtain l' where l': "cv_retries (conn_of (fold (lazy_dial ev) is ep1)) = cv_retries (conn_of ep1) @ l'"
    "conn_ok (conn_of (fold (lazy_dial ev) is ep1)) (\<lambda>j. if j \<in> set is then Connecting else (ph(i := Connecting)) j)
      (\<lambda>j. (ar(i := i \<in> set l)) j \<or> j \<in> set l')"
    by blast
  have "(\<lambda>j. if j \<in> set is then Connecting else (ph(i := Connecting)) j) = (\<lambda>j. if j \<in> set (i # is) then Connecting else ph j)"
    by auto
  moreover have "(\<lambda>j. (ar(i := i \<in> set l)) j \<or> j \<in> set l') = (\<lambda>j. ar j \<or> j \<in> set (l @ l'))"
    using dl(1) Cons.prems(5)[of i] by (auto simp: fun_eq_iff)
  ultimately show ?case using l' v by (intro exI[of _ "l @ l'"]) (simp add: ep1_def c_def)
qed

lemma dial_keeps:
  assumes ok: "conn_ok (conn_of ep) ph ar" and d: "urp_should_start_lazy_connect (ep_is_initiator ep) (ep_connect_started ep)"
    and ep': "ep' = urp_lazy_connect_start ev (ep\<lparr>ep_connect_started := True\<rparr>)"
  shows "conn_ok (conn_of ep') (\<lambda>i. if i < unat (ep_num_qps ep) then Connecting else ph i) (rearm ar ep ep')"
proof -
  define c where "c = conn_of ep"
  have ini: "cv_initiator c" "\<not> cv_started c"
    using d by (simp_all add: c_def urp_should_start_lazy_connect_def conn_of_def)
  obtain s where s: "cv_slots c = Some s" using ok unfolding conn_ok_def c_def by blast
  have n: "unat (ep_num_qps ep) = length s" using conn_okD(1)[OF ok[folded c_def] s] by (simp add: c_def conn_of_get)
  have k: "sl_id (s ! j) = None \<and> \<not> ar j \<and> \<not> sl_est (s ! j)" if "j < length s" for j
    using slot_ok_idle[OF conn_okD(6)[OF ok[folded c_def] s that] ini] .
  have st: "slot_ok (cv_initiator c) (cv_pd c) True (s ! j) (ph j) (ar j)" if "j < length s" for j
    using conn_okD(6)[OF ok[folded c_def] s that] unfolding slot_ok_def by blast
  define ep1 where "ep1 = ep\<lparr>ep_connect_started := True\<rparr>"
  have v: "conn_of ep1 = c\<lparr>cv_started := True\<rparr>" by (simp add: ep1_def c_def conn_of_set)
  have "conn_ok (c\<lparr>cv_started := True\<rparr>) ph ar"
    using conn_okD[OF ok[folded c_def] s] s st unfolding conn_ok_def by (intro exI[of _ s]) simp
  then obtain l where l: "cv_retries (conn_of (fold (lazy_dial ev) [0..<length s] ep1)) = cv_retries c @ l"
    "conn_ok (conn_of (fold (lazy_dial ev) [0..<length s] ep1)) (\<lambda>j. if j \<in> set [0..<length s] then Connecting else ph j) (\<lambda>j. ar j \<or> j \<in> set l)"
    using lazy_fold_keeps[of ep1 ph ar "[0..<length s]" ev] v ini k s conn_okD(1)[OF ok[folded c_def] s] by auto
  have e: "ep' = fold (lazy_dial ev) [0..<length s] ep1" using n by (simp add: ep' urp_lazy_connect_start_def ep1_def)
  have "rearm ar ep ep' = (\<lambda>j. ar j \<or> j \<in> set l)" by (rule rearm_view) (use l(1) e in \<open>simp add: c_def\<close>)
  then show ?thesis using l(2) e n by simp
qed

text \<open>The request of a peer: the slot is given up if it was held, then taken over or left free.\<close>

lemma conn_of_err_slot:
  "conn_of (snd (accept_err_slot e ep)) = (conn_of ep)\<lparr>cv_accepted := cv_accepted (conn_of ep) - 1\<rparr>"
  "conn_of (snd (accept_err_ctx e ep)) = (conn_of ep)\<lparr>cv_accepted := cv_accepted (conn_of ep) - 1\<rparr>"
  "fst (accept_err_slot e ep) = Some e" "fst (accept_err_ctx e ep) = Some e" "fst (accept_err_qp e ch i ep) = Some e"
  by (simp_all add: accept_err_slot_def accept_err_ctx_def accept_err_qp_def conn_of_set conn_of_get(2) conn_simps)

lemma conn_of_err_qp:
  "conn_of (snd (accept_err_qp e ch i ep)) =
    (cv_upd i (\<lambda>s. (sl_est s, sl_held s, None)) (conn_of ep))\<lparr>cv_accepted := cv_accepted (conn_of ep) - 1\<rparr>"
proof -
  have u: "conn_of (upd_qp i (\<lambda>q. q\<lparr>q_qp := None, q_cm_id := None\<rparr>) e') = cv_upd i (\<lambda>s. (sl_est s, sl_held s, None)) (conn_of e')" for e'
    by (rule conn_of_upd_qp) (simp add: slot_of_def)
  show ?thesis by (simp add: accept_err_qp_def conn_of_err_slot u conn_simps)
qed

lemma accept_finish_view:
  assumes "cv_slots (conn_of ep) = Some s" "i < length s" "s ! i = (False, False, Some child)"
  shows "conn_of (snd (accept_finish ev child i priv len ep)) =
    (if fst (accept_finish ev child i priv len ep) = None
     then (conn_of ep)\<lparr>cv_slots := Some (s[i := (False, True, Some child)])\<rparr>
     else (conn_of ep)\<lparr>cv_slots := Some (s[i := (False, False, None)]), cv_accepted := cv_accepted (conn_of ep) - 1\<rparr>)"
proof -
  have u: "conn_of (upd_qp i (\<lambda>q. q\<lparr>q_accept_slot_held := True\<rparr>) e') = cv_upd i (\<lambda>s. (sl_est s, True, sl_id s)) (conn_of e')" for e'
    by (rule conn_of_upd_qp) (simp add: slot_of_def)
  obtain r1 ep1 where 1: "accept_eager ev i ep = (r1, ep1)" by force
  have c1: "conn_of ep1 = conn_of ep" using conn_of_eager[of ev i ep] 1 by simp
  define ep2 where "ep2 = learn_caps i priv len (learn_kind i priv len ep1)"
  have c2: "conn_of ep2 = conn_of ep" by (simp add: ep2_def conn_simps c1)
  obtain r3 ep3 where 3: "rdma_call_data ev R_accept child (live_priv ev ep2 0) ep2 = (r3, ep3)" by force
  have c3: "conn_of ep3 = conn_of ep" using conn_of_rdma_call(2)[of ev R_accept child "live_priv ev ep2 0" ep2] 3 c2 by simp
  show ?thesis using 1 3 c1 c3 assms
    by (cases r1; cases r3) (simp_all add: accept_finish_def Let_def ep2_def[symmetric] conn_of_err_qp conn_of_err_slot u cv_upd_def)
qed

lemma accept_on_slot_view:
  assumes s: "cv_slots (conn_of ep) = Some s" "i < length s" "s ! i = (False, False, d)"
  obtains
    (no_setup) "\<not> cv_pd (conn_of ep)"
      "conn_of (snd (accept_on_slot ev child i priv len ep)) = (conn_of ep)\<lparr>cv_accepted := cv_accepted (conn_of ep) - 1\<rparr>"
  | (failed) "conn_of (snd (accept_on_slot ev child i priv len ep)) =
      (conn_of ep)\<lparr>cv_slots := Some (s[i := (False, False, None)]), cv_pd := True, cv_accepted := cv_accepted (conn_of ep) - 1\<rparr>"
  | (accepted) "conn_of (snd (accept_on_slot ev child i priv len ep)) =
      (conn_of ep)\<lparr>cv_slots := Some (s[i := (False, True, Some child)]), cv_pd := True\<rparr>"
proof -
  obtain r1 ep1 where 1: "urp_endpoint_setup_shared ev ep = (r1, ep1)" by force
  have c1: "conn_of ep1 = (conn_of ep)\<lparr>cv_pd := (r1 = None)\<rparr>" using conn_of_setup_shared[of ev ep] 1 by simp
  show ?thesis
  proof (cases r1)
    case (Some e)
    have "\<not> cv_pd (conn_of ep)" using setup_shared_idem[of ep ev] 1 Some by auto
    moreover have "(conn_of ep)\<lparr>cv_pd := False\<rparr> = conn_of ep" using calculation by simp
    ultimately show ?thesis using 1 c1 Some by (intro no_setup) (simp_all add: accept_on_slot_def conn_of_err_slot)
  next
    case None
    define ep2 where "ep2 = (if q_cm_id (qps ep1 ! i) \<noteq> None then urp_qp_hard_teardown ep1 i else ep1)"
    have "q_cm_id (qps ep1 ! i) = d" using slot_of_get[of ep1 s i] c1 s by simp
    moreover have "d = None \<longrightarrow> s[i := (False, False, None)] = s" using s(3) by (metis list_update_id)
    ultimately have c2: "conn_of ep2 = (conn_of ep)\<lparr>cv_slots := Some (s[i := (False, False, None)]), cv_pd := True\<rparr>"
      using c1 None s by (cases d) (simp_all add: ep2_def conn_of_hard_teardown cv_clear_def cv_upd_def)
    have body: "accept_on_slot ev child i priv len ep = (case kalloc ev O_ctx ep2 of
        (Some _, ep) \<Rightarrow> accept_err_slot ENOMEM ep
      | (None, ep) \<Rightarrow> (case urp_qp_create_on_cm_id ev ep child i of
           (Some e, ep) \<Rightarrow> accept_err_ctx e ep
         | (None, ep) \<Rightarrow> accept_finish ev child i priv len ep))"
      using 1 None unfolding accept_on_slot_def ep2_def Let_def by simp
    obtain r3 ep3 where 3: "kalloc ev O_ctx ep2 = (r3, ep3)" by force
    have c3: "conn_of ep3 = conn_of ep2" using 3 by (simp add: conn_simps)
    obtain r4 ep4 where 4: "urp_qp_create_on_cm_id ev ep3 child i = (r4, ep4)" by force
    note create = conn_of_create_qp[of ev ep3 child i, unfolded 4 fst_conv snd_conv]
    consider (ctx) e where "r3 = Some e" | (qp) e where "r3 = None" "r4 = Some e" | (fin) "r3 = None" "r4 = None"
      by (cases r3; cases r4) auto
    then show ?thesis
    proof cases
      case ctx
      then show ?thesis using 3 c3 c2 by (intro failed) (simp add: body conn_of_err_slot)
    next
      case qp
      then show ?thesis using 3 4 c3 c2 create by (intro failed) (simp add: body conn_of_err_slot)
    next
      case fin
      define s' where "s' = s[i := (False, False, Some child)]"
      have c4: "conn_of ep4 = (conn_of ep)\<lparr>cv_slots := Some s', cv_pd := True\<rparr>"
        using create fin c3 c2 s(2) by (simp add: cv_upd_def s'_def)
      have s': "cv_slots (conn_of ep4) = Some s'" "i < length s'" "s' ! i = (False, False, Some child)"
        using c4 s(2) by (simp_all add: s'_def)
      have r: "accept_on_slot ev child i priv len ep = accept_finish ev child i priv len ep4"
        using 3 4 fin by (simp add: body)
      show ?thesis
      proof (cases "fst (accept_finish ev child i priv len ep4)")
        case None
        then show ?thesis using accept_finish_view[OF s', of ev priv len] c4
          by (intro accepted) (simp add: r s'_def)
      next
        case (Some e)
        then show ?thesis using accept_finish_view[OF s', of ev priv len] c4
          by (intro failed) (simp add: r s'_def)
      qed
    qed
  qed
qed

lemma accept_slot_some:
  assumes "accept_slot ep priv len = (d, Some i)"
  shows "unat i < unat (ep_num_qps ep)" "d = URP_SLOT_REUSE \<longleftrightarrow> q_accept_slot_held (qps ep ! unat i)"
  using assms by (auto simp: accept_slot_def urp_acceptor_slot_decide_def Let_def word_less_nat_alt word_le_nat_alt
      split: if_splits option.splits)

lemma slot_ok_unheld: "slot_ok ini pd st x p a \<Longrightarrow> \<not> ini \<Longrightarrow> \<not> sl_held x \<Longrightarrow> \<not> sl_est x"
  unfolding slot_ok_def by (metis cm_phase.distinct(5))

lemma accept_claim_view:
  assumes "slot_ok (cv_initiator c) (cv_pd c) (cv_started c) (s ! i) p a" "\<not> cv_initiator c"
    and "d = URP_SLOT_REUSE \<longleftrightarrow> sl_held (s ! i)" "c = conn_of ep" "q_established (qps ep ! i) = sl_est (s ! i)"
    and c1: "c1 = (if sl_est (s ! i) then cv_lost i c else c)"
    and c2: "c2 = (if \<not> cv_initiator c \<and> sl_held (s ! i) then cv_release i c1 else c1)"
  shows "conn_of (accept_claim d i ep) = c2\<lparr>cv_accepted := cv_accepted c2 + 1\<rparr>"
proof (cases "sl_held (s ! i)")
  case True
  then show ?thesis
    using assms(2-5) by (simp add: accept_claim_def Let_def conn_of_set conn_of_get(2) conn_of_accept_release c1 c2)
next
  case False
  then show ?thesis using slot_ok_unheld[OF assms(1,2) False] assms(3,4)
    by (simp add: accept_claim_def Let_def conn_of_set conn_of_get(2) c1 c2)
qed

lemma request_keeps:
  assumes ok: "conn_ok (conn_of ep) ph ar" and l: "ep_listen_id ep \<noteq> None"
    and fresh: "\<forall>q\<in>set (qps ep). q_cm_id q \<noteq> Some child"
    and ep': "ep' = snd (urp_cm_accept_one ev child priv len ep)"
  shows "conn_ok (conn_of ep') (\<lambda>i. if q_cm_id (qps ep' ! i) = Some child then Connecting else ph i) ar
    \<and> cv_retries (conn_of ep') = cv_retries (conn_of ep)"
proof -
  define c where "c = conn_of ep"
  obtain s where s: "cv_slots c = Some s" using ok unfolding conn_ok_def c_def by blast
  note okc = ok[folded c_def]
  have n: "length s = unat (cv_num c)" using conn_okD(1)[OF okc s] .
  have nini: "\<not> cv_initiator c" using conn_okD(7)[OF okc s] l by (auto simp: c_def conn_of_def)
  have nochild: "sl_id (s ! j) \<noteq> Some child" if "j < length s" for j
    using fresh s that by (auto simp: c_def conn_of_def slot_of_def)
  have settle: ?thesis
    if v: "cv_slots (conn_of ep') = Some s'" "length s' = length s" "cv_num (conn_of ep') = cv_num c" "cv_retries (conn_of ep') = cv_retries c"
      and k: "conn_ok (conn_of ep') ph' ar" "\<And>j. j < length s \<Longrightarrow> ph' j = (if sl_id (s' ! j) = Some child then Connecting else ph j)" for s' ph'
    using conn_ok_cong[OF k(1), of "\<lambda>i. if q_cm_id (qps ep' ! i) = Some child then Connecting else ph i" ar]
      slot_of_get[OF v(1)] k(2) v n by (simp add: c_def)
  show ?thesis
  proof (cases "ep_has_password ep \<and> \<not> psk_ok ep priv len \<or> snd (accept_slot ep priv len) = None")
    case True
    then have "conn_of ep' = c"
      by (auto simp: ep' urp_cm_accept_one_def conn_simps c_def split: prod.split)
    then show ?thesis using settle[of s ph] okc s nochild by simp
  next
    case False
    then obtain d w where w: "accept_slot ep priv len = (d, Some w)" by (metis option.exhaust surjective_pairing)
    define i where "i = unat w"
    have i: "i < length s" using accept_slot_some(1)[OF w] n by (simp add: i_def c_def conn_of_get)
    note g = slot_of_get[OF s[unfolded c_def] i] and k = conn_okD(6)[OF okc s i]
    have d: "d = URP_SLOT_REUSE \<longleftrightarrow> sl_held (s ! i)" using accept_slot_some(2)[OF w] g by (simp add: i_def)
    define c1 where "c1 = (if sl_est (s ! i) then cv_lost i c else c)"
    define c2 where "c2 = (if \<not> cv_initiator c \<and> sl_held (s ! i) then cv_release i c1 else c1)"
    note u = cv_given_up[OF okc s i k c1_def c2_def]
    define ep0 where "ep0 = accept_claim d i ep"
    have c0: "conn_of ep0 = c2\<lparr>cv_accepted := cv_accepted c2 + 1\<rparr>"
      using accept_claim_view[OF k nini d c_def conjunct1[OF g] c1_def c2_def] by (simp add: ep0_def)
    define s0 where "s0 = s[i := (False, False, sl_id (s ! i))]"
    have s0: "cv_slots (conn_of ep0) = Some s0" "i < length s0" "s0 ! i = (False, False, sl_id (s ! i))"
      using c0 u(1) i by (simp_all add: s0_def)
    have r: "ep' = snd (accept_on_slot ev child i priv len ep0)"
      using False w by (auto simp: ep' urp_cm_accept_one_def i_def ep0_def)
    show ?thesis
    proof (rule accept_on_slot_view[OF s0, of ev child priv len, folded r])
      assume a: "\<not> cv_pd (conn_of ep0)" "conn_of ep' = (conn_of ep0)\<lparr>cv_accepted := cv_accepted (conn_of ep0) - 1\<rparr>"
      have "\<not> cv_pd c" using a(1) c0 u(6) by simp
      then have "\<not> sl_held (s ! i)" using held_pd[OF okc s nth_mem[OF i]] by blast
      then have "c2 = c" using slot_ok_unheld[OF k nini] by (simp add: c2_def c1_def)
      then have "conn_of ep' = c" using a(2) c0 by simp
      then show ?thesis using settle[of s ph] okc s nochild by simp
    next
      assume a: "conn_of ep' = (conn_of ep0)\<lparr>cv_slots := Some (s0[i := (False, False, None)]), cv_pd := True,
        cv_accepted := cv_accepted (conn_of ep0) - 1\<rparr>"
      have "conn_ok (conn_of ep') (ph(i := ph i)) (ar(i := ar i))"
        using slot_ok_free[OF k nini, of False True None "ph i"] a c0 u i not_all_est[of i "s[i := (False, False, None)]"]
        by (intro conn_ok_update[OF okc s i, where x = "(False, False, None)"]) (simp_all add: s0_def)
      then show ?thesis using a c0 u nochild i by (intro settle[of "s[i := (False, False, None)]" ph]) (auto simp: s0_def nth_list_update)
    next
      assume a: "conn_of ep' = (conn_of ep0)\<lparr>cv_slots := Some (s0[i := (False, True, Some child)]), cv_pd := True\<rparr>"
      have "conn_ok (conn_of ep') (ph(i := Connecting)) (ar(i := ar i))"
        using slot_ok_free[OF k nini, of True True "Some child" Connecting] a c0 u i not_all_est[of i "s[i := (False, True, Some child)]"]
        by (intro conn_ok_update[OF okc s i, where x = "(False, True, Some child)"]) (simp_all add: s0_def)
      then show ?thesis using a c0 u nochild i
        by (intro settle[of "s[i := (False, True, Some child)]" "ph(i := Connecting)"]) (auto simp: s0_def nth_list_update)
    qed
  qed
qed

lemma deliver_view: "deliver ev cid ctx e ep = (r, ep') \<Longrightarrow> conn_of ep' = conn_of (snd (urp_cm_handler ev cid ctx e ep))"
  by (auto simp: deliver_def conn_simps split: prod.splits option.splits)

definition sys_ok :: "conn_sys \<Rightarrow> bool" where
  "sys_ok s \<longleftrightarrow> conn_ok (conn_of (cy_ep s)) (cy_phase s) (cy_armed s)"

lemma rearm_cong: "conn_of a = conn_of a' \<Longrightarrow> conn_of b = conn_of b' \<Longrightarrow> rearm ar a b = rearm ar a' b'"
  by (simp add: rearm_def conn_of_def)

lemma conn_step_keeps:
  assumes "conn_step ev s t" "sys_ok s"
  shows "sys_ok t"
  using assms
proof (cases rule: conn_step.cases)
  case (request ep child e r ep' ph ar)
  define ep1 where "ep1 = log_ext (X_alloc O_cm_id) ep"
  have v: "conn_of ep1 = conn_of ep" "ep_listen_id ep1 = ep_listen_id ep" "qps ep1 = qps ep"
    by (simp_all add: ep1_def conn_simps) (simp_all add: log_ext_def)
  define ep2 where "ep2 = snd (urp_cm_accept_one ev child (ce_priv e) (ce_priv_len e) ep1)"
  have e2: "conn_of ep' = conn_of ep2" "ep_qps ep' = ep_qps ep2"
    using request(5,6) deliver_view[OF request(6)]
    by (auto simp: ep1_def ep2_def deliver_def urp_cm_handler_def listener_ctx_def log_ext_def split: prod.splits option.splits)
  have k: "conn_ok (conn_of ep2) (\<lambda>i. if q_cm_id (qps ep2 ! i) = Some child then Connecting else ph i) ar
      \<and> cv_retries (conn_of ep2) = cv_retries (conn_of ep1)"
    by (rule request_keeps[of ep1, OF _ _ _ ep2_def]) (use assms(2) request v in \<open>simp_all add: sys_ok_def\<close>)
  then have "rearm ar ep ep' = ar" using e2 v by (intro rearm_none) simp
  then show ?thesis using k e2 request(2) by (simp add: sys_ok_def)
next
  case (resolved i ep cid ph e r ep' ar)
  have h: "conn_of ep' = conn_of ep \<or> conn_of ep' = conn_of (snd (route_resolved ev cid i ep))"
    using resolved(6) deliver_view[OF resolved(7)] by (auto simp: urp_cm_handler_def qp_ctx_def conn_simps)
  have "conn_ok (conn_of ep) ph ar" using assms(2) resolved(1) by (simp add: sys_ok_def)
  note k = resolved_keeps[OF this resolved(3-5)]
  from k h have "conn_ok (conn_of ep') (ph(i := if r = None then Connecting else Down)) ar"
    "cv_retries (conn_of ep') = cv_retries (conn_of ep)" by auto
  then show ?thesis using resolved(2) by (simp add: sys_ok_def rearm_none)
next
  case (connect i ep ph ar)
  then show ?thesis using assms(2) by (simp add: sys_ok_def urp_connect_work_fn_def Let_def conn_simps)
next
  case (established i ep cid ph e r ep' ar)
  have h: "conn_of ep' = conn_of (cm_established ev i e ep)"
    using established(6) deliver_view[OF established(7)] by (simp add: urp_cm_handler_def qp_ctx_def)
  have "ep_qps ep \<noteq> None" using assms(2) established(1) unfolding sys_ok_def conn_ok_def by (auto simp: conn_of_get)
  from conn_of_established[OF this established(3), of ev e] h
  have "cv_retries (conn_of ep') = cv_retries (conn_of ep)" by (simp add: Let_def)
  moreover have "conn_ok (conn_of ep) ph ar" using assms(2) established(1) by (simp add: sys_ok_def)
  ultimately show ?thesis using established_keeps[of ep ph ar i cid ev e] established(2-5) h
    by (simp add: sys_ok_def rearm_none)
next
  case (down i ep cid e r ep' ph ar)
  have h: "conn_of ep' = conn_of (cm_down ev i e ep)"
    using down(5) deliver_view[OF down(6)] by (auto simp: urp_cm_handler_def qp_ctx_def)
  then show ?thesis using down_keeps[of ep ph ar i cid ev e] down(3,4) assms(2) down(1,2) rearm_cong[OF refl h]
    by (simp add: sys_ok_def)
next
  case (probe i ep r ep' ph ar)
  then show ?thesis using probe_keeps[of ep ph ar i ev] assms(2) by (simp add: sys_ok_def)
next
  case (retry i ep ar ep' ph)
  then show ?thesis using retry_keeps[of ep ph ar i ev] assms(2) by (simp add: sys_ok_def)
next
  case (dial ep ep' ph ar)
  then show ?thesis using dial_keeps[of ep ph ar ep' ev] assms(2) by (simp add: sys_ok_def)
qed

lemma conn_run_keeps: "(conn_step ev)\<^sup>*\<^sup>* s t \<Longrightarrow> sys_ok s \<Longrightarrow> sys_ok t"
  by (induction rule: rtranclp_induct) (auto intro: conn_step_keeps)

text \<open>What the invariant says about the endpoint.\<close>

lemma sys_ok_counts:
  assumes "sys_ok t" and ep: "ep = cy_ep t"
  obtains qs where "ep_qps ep = Some qs" "length qs = unat (ep_num_qps ep)"
    "unat (ep_qps_connected ep) = length (filter q_established qs)"
    "unat (ep_qps_accepted ep) = length (filter q_accept_slot_held qs)"
    "ep_connected ep \<longleftrightarrow> (\<forall>q\<in>set qs. q_established q)"
    "\<And>q. q \<in> set qs \<Longrightarrow> q_established q \<Longrightarrow> ep_is_initiator ep \<or> q_accept_slot_held q"
proof -
  have ok: "conn_ok (conn_of ep) (cy_phase t) (cy_armed t)" using assms by (simp add: sys_ok_def)
  obtain s where s: "cv_slots (conn_of ep) = Some s" using ok unfolding conn_ok_def by blast
  obtain qs where q: "ep_qps ep = Some qs" "s = map slot_of qs" using s by (auto simp: conn_of_def)
  note o = conn_okD[OF ok s]
  have len: "length qs = unat (ep_num_qps ep)" using o(1) q by (simp add: conn_of_get)
  have cnt: "unat (sum_list (map (\<lambda>x. of_bool (f x)) s) :: u32) = length (filter (f \<circ> slot_of) qs)" for f
  proof -
    have "(sum_list (map (\<lambda>x. of_bool (f x)) s) :: u32) = of_nat (length (filter (f \<circ> slot_of) qs))"
      unfolding q(2) by (induction qs) auto
    moreover have "length (filter (f \<circ> slot_of) qs) < 2 ^ 32"
      using le_less_trans[OF length_filter_le[of "f \<circ> slot_of" qs]] len unsigned_less[of "ep_num_qps ep"] by simp
    ultimately show ?thesis by (simp add: unat_of_nat take_bit_nat_eq_self)
  qed
  have f: "sl_est \<circ> slot_of = q_established" "sl_held \<circ> slot_of = q_accept_slot_held"
    by (simp_all add: fun_eq_iff slot_of_def)
  have "ep_is_initiator ep \<or> q_accept_slot_held x" if x: "x \<in> set qs" "q_established x" for x
  proof -
    obtain j where j: "j < length s" "s ! j = slot_of x" using x(1) q(2) by (auto simp: in_set_conv_nth)
    show ?thesis using slot_ok_unheld[OF o(6)[OF j(1)]] j(2) x(2) by (auto simp: slot_of_def conn_of_get)
  qed
  then show ?thesis using that[OF q(1) len] o(3-5) cnt[of sl_est] cnt[of sl_held] q(2)
    by (simp add: f conn_of_get slot_of_def)
qed

end
