(* ===== verification/Urp_Endpoint.thy ===== *)
theory Urp_Endpoint
  imports Urp_Conn_Inv
begin

text \<open>
  Sockets and lifecycle of an endpoint: the local listening socket and the accept thread of an
  initiator (kernel/urp\_socket.c), creation, activation with its unwinding, draining and removal of
  endpoints (kernel/urp\_endpoint.c) and the load and unload of the module (kernel/urp\_main.c).  The
  directory of an endpoint under /proc counts as one kernel object.
\<close>

section \<open>Accept thread\<close>

text \<open>
  One iteration of the accept loop, with whether the loop goes on.  What other threads do while the
  thread blocks, in accept and in the wait for the connection, is a parameter.
\<close>

definition accept_lazy :: "env \<Rightarrow> urp_endpoint \<Rightarrow> urp_endpoint" where
  "accept_lazy ev ep =
    (if ep_state ep \<noteq> URP_STATE_ACTIVE then ep
     else
       let prior = ep_connect_started ep; ep = ep\<lparr>ep_connect_started := True\<rparr>
       in if urp_should_start_lazy_connect (ep_is_initiator ep) prior then urp_lazy_connect_start ev ep else ep)"

datatype accept_wait_result = AW_ready | AW_next | AW_stop

definition accept_wait ::
    "(urp_endpoint \<Rightarrow> urp_endpoint) \<Rightarrow> nat \<Rightarrow> urp_endpoint \<Rightarrow> accept_wait_result \<times> urp_endpoint" where
  "accept_wait others sk ep =
    (if ep_connected ep then (AW_ready, ep)
     else if ep_connect_failed ep then (AW_next, sock_release sk ep)
     else
       let ep = others (log_ext X_wait_cm_done ep)
       in if ep_state ep \<noteq> URP_STATE_ACTIVE then (AW_stop, sock_release sk ep)
          else if \<not> ep_connected ep then (AW_next, sock_release sk ep)
          else (AW_ready, ep))"

definition accept_open :: "env \<Rightarrow> nat \<Rightarrow> urp_endpoint \<Rightarrow> urp_endpoint" where
  "accept_open ev sk ep =
    (case urp_stream_create ev ep 0 of
       (Inl _, ep) \<Rightarrow> sock_release sk ep
     | (Inr sid, ep) \<Rightarrow>
         let ep = upd_stream sid (\<lambda>s. s\<lparr>s_uds_sock := Some sk\<rparr>) ep;
             ep = upd_stats (\<lambda>st. st\<lparr>stat_connections := stat_connections st + 1\<rparr>) ep
         in case urp_stream_pump_start ev ep sid of
              (Some _, ep) \<Rightarrow> urp_stream_destroy ep sid
            | (None, ep) \<Rightarrow> ep)"

definition accept_iter ::
    "env \<Rightarrow> (urp_endpoint \<Rightarrow> urp_endpoint) \<Rightarrow> urp_endpoint \<Rightarrow> bool \<times> urp_endpoint" where
  "accept_iter ev others ep =
    (let r = ev_accept ev (ep_trace ep); ep = others (log_ext X_accept ep)
     in case r of
          Inl e \<Rightarrow> (e = EAGAIN \<or> e = ERESTARTSYS, ep)
        | Inr sk \<Rightarrow>
            let ep = accept_lazy ev (log_ext (X_alloc O_sock) ep)
            in case accept_wait others sk ep of
                 (AW_stop, ep) \<Rightarrow> (False, ep)
               | (AW_next, ep) \<Rightarrow> (True, ep)
               | (AW_ready, ep) \<Rightarrow> (True, accept_open ev sk ep))"

text \<open>The first n iterations.\<close>

primrec urp_accept_thread_fn ::
    "env \<Rightarrow> (urp_endpoint \<Rightarrow> urp_endpoint) \<Rightarrow> nat \<Rightarrow> urp_endpoint \<Rightarrow> urp_endpoint" where
  "urp_accept_thread_fn ev others 0 ep = ep"
| "urp_accept_thread_fn ev others (Suc n) ep =
    (if ev_kthread_should_stop ev (ep_trace ep) then ep
     else case accept_iter ev others ep of
       (False, ep) \<Rightarrow> ep
     | (True, ep) \<Rightarrow> urp_accept_thread_fn ev others n ep)"

section \<open>Local sockets\<close>

definition urp_unlink_stale_socket :: "env \<Rightarrow> string \<Rightarrow> urp_endpoint \<Rightarrow> urp_endpoint" where
  "urp_unlink_stale_socket ev path ep =
    (case ev_path_node ev (ep_trace ep) path of PN_socket \<Rightarrow> log_ext (X_unlink path) ep | _ \<Rightarrow> ep)"

definition listen_start :: "env \<Rightarrow> nat \<Rightarrow> urp_endpoint \<Rightarrow> errno option \<times> urp_endpoint" where
  "listen_start ev sk ep =
    (let ep = ep\<lparr>ep_listen_sock := Some sk\<rparr>;
         r = ev_kthread_run ev (ep_trace ep); ep = log_ext X_kthread_run ep
     in case r of
          Some e \<Rightarrow> (Some e, (sock_release sk (ep\<lparr>ep_accept_thread := False\<rparr>))\<lparr>ep_listen_sock := None\<rparr>)
        | None \<Rightarrow> (None, ep\<lparr>ep_accept_thread := True\<rparr>))"

definition urp_listen_uds :: "env \<Rightarrow> urp_endpoint \<Rightarrow> string \<Rightarrow> errno option \<times> urp_endpoint" where
  "urp_listen_uds ev ep path =
    (case sock_create ev ep of
       (Inl e, ep) \<Rightarrow> (Some e, ep)
     | (Inr sk, ep) \<Rightarrow>
         let ep = (if urp_should_unlink_listen_path (ep_is_initiator ep) (path \<noteq> [])
                   then urp_unlink_stale_socket ev path ep else ep);
             r = ev_bind ev (ep_trace ep); ep = log_ext (X_sock_bind sk path) ep
         in case r of
              Some e \<Rightarrow> (Some e, sock_release sk ep)
            | None \<Rightarrow>
                let r = ev_listen ev (ep_trace ep); ep = log_ext (X_sock_listen sk) ep
                in case r of
                     Some e \<Rightarrow> (Some e, sock_release sk ep)
                   | None \<Rightarrow> listen_start ev sk ep)"

definition URP_PATH_MAX_LEN :: nat where "URP_PATH_MAX_LEN = 108"

definition urp_socket_init :: "env \<Rightarrow> urp_endpoint \<Rightarrow> string \<Rightarrow> errno option \<times> urp_endpoint" where
  "urp_socket_init ev ep path =
    (if URP_PATH_MAX_LEN \<le> length path then (Some ENAMETOOLONG, ep)
     else if urp_ep_is_fast ep then (None, ep)
     else if ep_is_initiator ep then urp_listen_uds ev ep path
     else (None, ep))"

definition urp_socket_cleanup :: "env \<Rightarrow> urp_endpoint \<Rightarrow> urp_endpoint" where
  "urp_socket_cleanup ev ep =
    (let ep = (case ep_listen_sock ep of None \<Rightarrow> ep | Some sk \<Rightarrow> log_ext (X_sock_shutdown sk SHUT_RDWR) ep);
         ep = log_ext (X_cm_done True) ep;
         ep = (if ep_accept_thread ep then (log_ext X_kthread_stop ep)\<lparr>ep_accept_thread := False\<rparr> else ep);
         ep = urp_socket_conn_cleanup ep;
         ep = (case ep_listen_sock ep of None \<Rightarrow> ep | Some sk \<Rightarrow> (sock_release sk ep)\<lparr>ep_listen_sock := None\<rparr>)
     in if urp_should_unlink_listen_path (ep_is_initiator ep) (ep_listen_path ep \<noteq> [])
        then urp_unlink_stale_socket ev (ep_listen_path ep) ep else ep)"

section \<open>Creation\<close>

definition urp_stats_zero :: urp_stats where
  "urp_stats_zero = \<lparr> stat_tx_bytes = 0, stat_rx_bytes = 0, stat_tx_frames = 0, stat_rx_frames = 0,
     stat_connections = 0, stat_credit_stalls = 0, stat_reorder_insertions = 0,
     stat_reorder_drops = 0, stat_buffer_alloc_fails = 0, stat_auth_failures = 0 \<rparr>"

definition urp_hist15_zero :: urp_hist15 where
  "urp_hist15_zero = \<lparr> hi_bucket = replicate 15 0, hi_sum_ns = 0, hi_count = 0 \<rparr>"

text \<open>What the template must satisfy.\<close>

definition create_check :: "env \<Rightarrow> urp_ep_config \<Rightarrow> errno option" where
  "create_check ev cfg =
    (let initiator = ep_listen_path cfg \<noteq> []
     in if ep_name cfg = [] then Some EINVAL
        else if initiator \<and> ep_connect_path cfg \<noteq> [] then Some EINVAL
        else if \<not> initiator \<and> ep_connect_path cfg = [] then Some EINVAL
        else if initiator \<and> \<not> ep_has_peer_addr cfg then Some EINVAL
        else if \<not> initiator \<and> \<not> ep_has_bind_addr cfg then Some EINVAL
        else if ep_kind cfg = URP_EP_KIND_FAST \<and> \<not> ev_fast_enabled ev then Some EOPNOTSUPP
        else None)"

definition create_auth_priv :: "env \<Rightarrow> urp_ep_config \<Rightarrow> bytes" where
  "create_auth_priv ev cfg =
    (if ep_has_password cfg then URP_PSK_AUTH_METHOD_SHA256 # ev_sha256 ev (ep_password cfg)
     else replicate (1 + URP_PSK_HASH_LEN) 0)"

definition create_conn_priv :: "env \<Rightarrow> urp_ep_config \<Rightarrow> bytes" where
  "create_conn_priv ev cfg =
    (let auth_len = (if ep_has_password cfg then of_nat (1 + URP_PSK_HASH_LEN) else 0);
         buf = take (unat auth_len) (create_auth_priv ev cfg) @ replicate (1 + URP_PSK_HASH_LEN + 5 - unat auth_len) 0
     in fst (urp_conn_priv_build_full buf auth_len (ep_kind_u8 (ep_kind cfg)) 0
          (if sy_window_bytes_advertise (ev_sysctl ev) \<noteq> 0 then URP_CONN_CAP_WINDOW_BYTES else 0)))"

definition endpoint_new :: "env \<Rightarrow> urp_ep_config \<Rightarrow> urp_endpoint" where
  "endpoint_new ev cfg =
    \<lparr> ep_name = ep_name cfg, ep_listen_path = ep_listen_path cfg, ep_connect_path = ep_connect_path cfg,
      ep_rdma_device = ep_rdma_device cfg, ep_peer_addr = ep_peer_addr cfg, ep_bind_addr = ep_bind_addr cfg,
      ep_has_peer_addr = ep_has_peer_addr cfg, ep_has_bind_addr = ep_has_bind_addr cfg,
      ep_num_qps = (if ep_num_qps cfg \<noteq> 0 then ep_num_qps cfg else URP_NUM_QPS_DEFAULT),
      ep_buffer_count = (if ep_buffer_count cfg \<noteq> 0 then ep_buffer_count cfg else URP_BUFFER_COUNT_DEFAULT),
      ep_buffer_size = (if ep_buffer_size cfg \<noteq> 0 then ep_buffer_size cfg else URP_BUFFER_SIZE_DEFAULT),
      ep_mode = ep_mode cfg, ep_kind = ep_kind cfg, ep_password = replicate 16 0,
      ep_password_hash = (if ep_has_password cfg then ev_sha256 ev (ep_password cfg) else replicate URP_PSK_HASH_LEN 0),
      ep_has_password = ep_has_password cfg, ep_auth_priv = create_auth_priv ev cfg,
      ep_conn_priv = create_conn_priv ev cfg,
      ep_auth_len = (if ep_has_password cfg then of_nat (1 + URP_PSK_HASH_LEN) else 0),
      ep_state = URP_STATE_CREATING, ep_refcount = 2, ep_is_initiator = (ep_listen_path cfg \<noteq> []),
      ep_listen_sock = None, ep_accept_thread = False,
      ep_conn = \<lparr> c_uds_sock = None, c_tx_thread = False, c_seq = 0, c_active = False \<rparr>,
      ep_listen_id = None, ep_ib_dev = False, ep_pd = False, ep_send_cq = False, ep_recv_cq = False,
      ep_page_pool = False, ep_srq = False, ep_srq_pool_target = 0, ep_proc = False,
      ep_qps = None, ep_qps_connected = 0, ep_qps_accepted = 0, ep_rr_counter = 0,
      ep_streams = [], ep_streams_inited = False, ep_next_stream_id = 0, ep_pending_reap = 0,
      ep_bufs = None, ep_num_bufs = 0, ep_buf_size = 0, ep_num_chunks = 0, ep_chunk_size = 0,
      ep_max_frame = 0, ep_recv_scratch = None, ep_send_free = [], ep_recv_free = [],
      ep_stats = urp_stats_zero,
      ep_interarrival = \<lparr> ia_last_ns = [0, 0, 0], ia_nframes = 0, ia_h = replicate 3 urp_hist15_zero \<rparr>,
      ep_owd = \<lparr> owd_h = urp_hist15_zero, owd_anomalies = 0 \<rparr>, ep_cm_status = None, ep_connected = False,
      ep_window_negotiated = False, ep_tstamp_negotiated = False, ep_link_mbps = 0,
      ep_connect_started = False, ep_connect_failed = False, ep_probe_active = False,
      ep_trace = [X_alloc O_endpoint] \<rparr>"

text \<open>The table of endpoints, and those that have left it.\<close>

record urp_module =
  um_endpoints :: "(string \<times> urp_endpoint) list"
  um_endpoints_inited :: bool
  um_gone :: "urp_endpoint list"

definition urp_endpoint_table_init :: "env \<Rightarrow> urp_module \<Rightarrow> errno option \<times> urp_module" where
  "urp_endpoint_table_init ev m =
    (case ev_alloc ev [] O_streams of
       Some e \<Rightarrow> (Some e, m)
     | None \<Rightarrow> (None, m\<lparr>um_endpoints := [], um_endpoints_inited := True\<rparr>))"

definition urp_endpoint_table_destroy :: "urp_module \<Rightarrow> urp_module" where
  "urp_endpoint_table_destroy m =
    (if \<not> um_endpoints_inited m then m else m\<lparr>um_endpoints := [], um_endpoints_inited := False\<rparr>)"

definition urp_endpoint_create :: "env \<Rightarrow> urp_ep_config \<Rightarrow> urp_module \<Rightarrow> errno option \<times> urp_module" where
  "urp_endpoint_create ev cfg m =
    (case create_check ev cfg of
       Some e \<Rightarrow> (Some e, m)
     | None \<Rightarrow>
         (case ev_alloc ev [] O_endpoint of
            Some _ \<Rightarrow> (Some ENOMEM, m)
          | None \<Rightarrow>
              let ep = endpoint_new ev cfg
              in case ev_alloc ev (ep_trace ep) O_endpoint of
                   Some e \<Rightarrow> (Some e, m)
                 | None \<Rightarrow>
                     (case ht_insert (um_endpoints m) (ep_name cfg) ep of
                        Inl e \<Rightarrow> (Some e, m)
                      | Inr t \<Rightarrow> (None, m\<lparr>um_endpoints := t\<rparr>))))"

definition urp_endpoint_lookup :: "urp_module \<Rightarrow> string \<Rightarrow> urp_endpoint option" where
  "urp_endpoint_lookup m name =
    (if \<not> um_endpoints_inited m then None else ht_lookup (um_endpoints m) name)"

definition upd_ep :: "string \<Rightarrow> (urp_endpoint \<Rightarrow> urp_endpoint) \<Rightarrow> urp_module \<Rightarrow> urp_module" where
  "upd_ep name f m = m\<lparr>um_endpoints := ht_update (um_endpoints m) name f\<rparr>"

definition urp_endpoint_get :: "string \<Rightarrow> urp_module \<Rightarrow> urp_endpoint option \<times> urp_module" where
  "urp_endpoint_get name m =
    (case urp_endpoint_lookup m name of
       None \<Rightarrow> (None, m)
     | Some ep \<Rightarrow>
         if ep_refcount ep = 0 then (None, m)
         else let ep = ep\<lparr>ep_refcount := ep_refcount ep + 1\<rparr> in (Some ep, upd_ep name (\<lambda>_. ep) m))"

section \<open>Activation and draining\<close>

definition urp_endpoint_proc_create :: "env \<Rightarrow> urp_endpoint \<Rightarrow> errno option \<times> urp_endpoint" where
  "urp_endpoint_proc_create ev ep =
    (case kalloc ev O_proc ep of (Some e, ep) \<Rightarrow> (Some e, ep) | (None, ep) \<Rightarrow> (None, ep\<lparr>ep_proc := True\<rparr>))"

definition urp_endpoint_proc_remove :: "urp_endpoint \<Rightarrow> urp_endpoint" where
  "urp_endpoint_proc_remove ep = (if ep_proc ep then (log_ext (X_free O_proc) ep)\<lparr>ep_proc := False\<rparr> else ep)"

definition activate_err_proc :: "errno \<Rightarrow> urp_endpoint \<Rightarrow> errno option \<times> urp_endpoint" where
  "activate_err_proc e ep = (Some e, urp_endpoint_proc_remove ep)"

definition activate_err_qps :: "errno \<Rightarrow> urp_endpoint \<Rightarrow> errno option \<times> urp_endpoint" where
  "activate_err_qps e ep = activate_err_proc e (urp_qps_destroy ep)"

definition activate_err_streams :: "errno \<Rightarrow> urp_endpoint \<Rightarrow> errno option \<times> urp_endpoint" where
  "activate_err_streams e ep = activate_err_qps e (urp_streams_destroy_all ep)"

definition activate_err_rdma :: "errno \<Rightarrow> urp_endpoint \<Rightarrow> errno option \<times> urp_endpoint" where
  "activate_err_rdma e ep = activate_err_streams e (urp_rdma_cleanup ep)"

definition activate_address :: "urp_endpoint \<Rightarrow> (u16 \<times> string) result" where
  "activate_address ep =
    (if ep_is_initiator ep then
       (case urp_endpoint_extract_v4 (ep_peer_addr ep) of
          Inl e \<Rightarrow> Inl e
        | Inr (ip, port) \<Rightarrow> Inr (0, ep_listen_path ep))
     else if \<not> sin6_inet6 (ep_bind_addr ep) then Inl EAFNOSUPPORT
     else Inr (sin6_port (ep_bind_addr ep), ep_connect_path ep))"

definition activate_finish :: "env \<Rightarrow> urp_endpoint \<Rightarrow> urp_endpoint" where
  "activate_finish ev ep =
    (let ep = ep\<lparr>ep_state := URP_STATE_ACTIVE\<rparr>;
         ep = (if \<not> urp_ep_is_fast ep then urp_probe_work_start ep else ep);
         ep = (if urp_ep_is_fast ep \<and> ep_is_initiator ep
               then let prior = ep_connect_started ep; ep = ep\<lparr>ep_connect_started := True\<rparr>
                    in if urp_should_start_lazy_connect (ep_is_initiator ep) prior
                       then urp_lazy_connect_start ev ep else ep
               else ep)
     in log_ext X_send_event ep)"

definition activate_rdma :: "env \<Rightarrow> u16 \<Rightarrow> string \<Rightarrow> urp_endpoint \<Rightarrow> errno option \<times> urp_endpoint" where
  "activate_rdma ev bind_port uds_path ep =
    (case urp_rdma_init ev ep bind_port of
       (Some e, ep) \<Rightarrow> activate_err_streams e ep
     | (None, ep) \<Rightarrow>
         (case urp_socket_init ev ep uds_path of
            (Some e, ep) \<Rightarrow> activate_err_rdma e ep
          | (None, ep) \<Rightarrow> (None, activate_finish ev ep)))"

definition activate_objects :: "env \<Rightarrow> u16 \<Rightarrow> string \<Rightarrow> urp_endpoint \<Rightarrow> errno option \<times> urp_endpoint" where
  "activate_objects ev bind_port uds_path ep =
    (case urp_endpoint_proc_create ev ep of
       (Some e, ep) \<Rightarrow> (Some e, ep)
     | (None, ep) \<Rightarrow>
         (case urp_qps_init ev ep of
            (Some e, ep) \<Rightarrow> activate_err_proc e ep
          | (None, ep) \<Rightarrow>
              (case urp_streams_init ev ep of
                 (Some e, ep) \<Rightarrow> activate_err_qps e ep
               | (None, ep) \<Rightarrow> activate_rdma ev bind_port uds_path ep)))"

definition urp_endpoint_activate :: "env \<Rightarrow> urp_endpoint \<Rightarrow> errno option \<times> urp_endpoint" where
  "urp_endpoint_activate ev ep =
    (if ep_state ep \<noteq> URP_STATE_CREATING then (Some EINVAL, ep)
     else
       let ep = ep\<lparr>ep_num_bufs := urp_resolve_num_bufs (ep_buffer_count ep),
                   ep_buf_size := urp_resolve_buf_size (ep_buffer_size ep)\<rparr>
       in case activate_address ep of
            Inl e \<Rightarrow> (Some e, ep)
          | Inr (bind_port, uds_path) \<Rightarrow> activate_objects ev bind_port uds_path ep)"

definition urp_endpoint_drain :: "env \<Rightarrow> urp_endpoint \<Rightarrow> urp_endpoint" where
  "urp_endpoint_drain ev ep =
    (if ep_state ep = URP_STATE_STOPPED then ep
     else
       let ep = log_ext X_send_event (ep\<lparr>ep_state := URP_STATE_DRAINING\<rparr>);
           ep = urp_probe_work_stop ep;
           ep = urp_socket_cleanup ev ep;
           ep = urp_streams_destroy_all ep;
           ep = urp_rdma_cleanup ep;
           ep = urp_qps_destroy ep;
           ep = urp_endpoint_proc_remove ep
       in log_ext X_send_event (ep\<lparr>ep_state := URP_STATE_STOPPED\<rparr>))"

section \<open>References and removal\<close>

definition urp_endpoint_rcu_free :: "urp_endpoint \<Rightarrow> urp_endpoint" where
  "urp_endpoint_rcu_free ep = log_ext (X_free O_endpoint) ep"

definition urp_endpoint_put :: "urp_endpoint \<Rightarrow> urp_endpoint" where
  "urp_endpoint_put ep =
    (let ep = ep\<lparr>ep_refcount := ep_refcount ep - 1\<rparr>
     in if ep_refcount ep = 0 then urp_endpoint_rcu_free ep else ep)"

text \<open>Dropping a reference on an endpoint of the table, or on the one that left it last.\<close>

definition urp_endpoint_remove :: "env \<Rightarrow> string \<Rightarrow> urp_module \<Rightarrow> urp_module" where
  "urp_endpoint_remove ev name m =
    (case ht_lookup (um_endpoints m) name of
       None \<Rightarrow> m
     | Some ep \<Rightarrow>
         m\<lparr>um_endpoints := ht_remove (um_endpoints m) name,
           um_gone := urp_endpoint_put (urp_endpoint_drain ev ep) # um_gone m\<rparr>)"

definition put_gone :: "urp_module \<Rightarrow> urp_module" where
  "put_gone m = (case um_gone m of [] \<Rightarrow> m | ep # eps \<Rightarrow> m\<lparr>um_gone := urp_endpoint_put ep # eps\<rparr>)"

definition kref_get :: "urp_endpoint \<Rightarrow> urp_endpoint" where
  "kref_get ep = ep\<lparr>ep_refcount := ep_refcount ep + 1\<rparr>"

lemma remove_shrinks:
  assumes "(name, ep) \<in> set (um_endpoints m)"
  shows "length (um_endpoints (put_gone (urp_endpoint_remove ev name (upd_ep name f m)))) < length (um_endpoints m)"
proof -
  let ?t = "ht_update (um_endpoints m) name f"
  have "name \<in> set (map fst ?t)" using assms fst_ht_update[of "um_endpoints m" name f] by force
  then have in_t: "name \<in> fst ` set ?t" by simp
  have len: "length ?t = length (um_endpoints m)" by (simp add: ht_update_def)
  obtain e where e: "e \<in> set ?t" "fst e = name" using in_t by auto
  then have "length (ht_remove ?t name) < length ?t"
    unfolding ht_remove_def by (intro length_filter_less[of e]) auto
  moreover obtain v where "ht_lookup ?t name = Some v"
    using in_t by (metis ht_lookup_def map_of_eq_None_iff not_None_eq)
  ultimately show ?thesis using len
    by (simp add: put_gone_def urp_endpoint_remove_def upd_ep_def split: list.split)
qed

function drain_all_loop :: "env \<Rightarrow> urp_module \<Rightarrow> urp_module" where
  "drain_all_loop ev m =
    (case find (\<lambda>e. ep_refcount (snd e) \<noteq> 0) (um_endpoints m) of
       None \<Rightarrow> m
     | Some (name, _) \<Rightarrow> drain_all_loop ev (put_gone (urp_endpoint_remove ev name (upd_ep name kref_get m))))"
  by pat_completeness auto
termination
proof (relation "measure (\<lambda>(ev, m). length (um_endpoints m))", goal_cases)
  case (2 ev m e name ep)
  then have "(name, ep) \<in> set (um_endpoints m)" by (auto simp: find_Some_iff)
  then show ?case using remove_shrinks[of name ep m ev kref_get] by simp
qed simp

definition urp_endpoint_drain_all :: "env \<Rightarrow> urp_module \<Rightarrow> urp_module" where
  "urp_endpoint_drain_all ev m = (if \<not> um_endpoints_inited m then m else drain_all_loop ev m)"

section \<open>Activation establishes the connection invariant\<close>

lemma conn_of_num_bufs [conn_simps]:
  "conn_of (ep\<lparr>ep_num_bufs := n, ep_buf_size := b\<rparr>) = conn_of ep" "conn_of (ep\<lparr>ep_proc := p\<rparr>) = conn_of ep"
  "conn_of (ep\<lparr>ep_listen_sock := l\<rparr>) = conn_of ep" "conn_of (ep\<lparr>ep_accept_thread := a\<rparr>) = conn_of ep"
  "conn_of (ep\<lparr>ep_probe_active := a\<rparr>) = conn_of ep"
  "conn_of (ep\<lparr>ep_streams := t, ep_streams_inited := i, ep_pending_reap := r, ep_next_stream_id := w\<rparr>) = conn_of ep"
  by (simp_all add: conn_of_def retry_log_def)

lemma conn_of_proc_create [conn_simps]: "conn_of (snd (urp_endpoint_proc_create ev ep)) = conn_of ep"
  by (simp add: urp_endpoint_proc_create_def conn_simps split: prod.split option.split)

lemma conn_of_qps_init:
  assumes "urp_qps_init ev ep = (None, ep')"
  shows "ep_num_qps ep \<noteq> 0" "conn_of ep' = (conn_of ep)\<lparr>cv_slots := Some (replicate (unat (ep_num_qps ep)) (False, False, None)),
    cv_connected := 0\<rparr>"
proof -
  show n: "ep_num_qps ep \<noteq> 0" using assms by (auto simp: urp_qps_init_def)
  obtain r ep1 where 1: "kalloc ev O_qps ep = (r, ep1)" by force
  have r: "r = None" using assms 1 n by (cases r) (simp_all add: urp_qps_init_def)
  have c: "conn_of ep1 = conn_of ep" using 1 by (simp add: conn_simps)
  define qs where "qs = map (\<lambda>i. urp_qp_zero\<lparr>q_index := of_nat i, q_credit := urp_credit_init (ucast (ep_num_bufs ep1 div 2)),
      q_health := URP_QP_STATE_QUALIFYING, q_connect_attempts := 0\<rparr>) [0..<unat (ep_num_qps ep1)]"
  have ep': "ep' = ep1\<lparr>ep_qps := Some qs, ep_qps_connected := 0, ep_rr_counter := 0\<rparr>"
    using assms 1 r n by (simp add: urp_qps_init_def qs_def)
  have n1: "ep_num_qps ep1 = ep_num_qps ep" using c by (simp add: conn_of_get)
  have c': "conn_of ep' = (conn_of ep1)\<lparr>cv_slots := Some (map slot_of qs), cv_connected := 0\<rparr>"
    by (simp add: ep' conn_of_def retry_log_def)
  have "map slot_of qs = replicate (unat (ep_num_qps ep1)) (False, False, None)"
    by (simp add: qs_def comp_def slot_of_def urp_qp_zero_def map_replicate_const)
  then show "conn_of ep' = (conn_of ep)\<lparr>cv_slots := Some (replicate (unat (ep_num_qps ep)) (False, False, None)), cv_connected := 0\<rparr>"
    using c' c n1 by simp
qed

lemma conn_of_streams_init [conn_simps]: "conn_of (snd (urp_streams_init ev ep)) = conn_of ep"
  by (simp add: urp_streams_init_def conn_simps split: prod.split option.split)

lemma conn_of_rdma_init:
  "urp_rdma_init ev ep port = (None, ep') \<Longrightarrow>
    conn_of ep' = (conn_of ep)\<lparr>cv_listen := (cv_listen (conn_of ep) \<or> \<not> ep_is_initiator ep)\<rparr>"
proof (cases "ep_is_initiator ep")
  case True
  assume "urp_rdma_init ev ep port = (None, ep')"
  then show ?thesis using True by (simp add: urp_rdma_init_def)
next
  case False
  assume r: "urp_rdma_init ev ep port = (None, ep')"
  obtain r1 ep1 where 1: "urp_make_cm_id ev ep = (r1, ep1)" by force
  have "conn_of ep1 = conn_of ep" using conn_of_make_cm_id[of ev ep] 1 by simp
  then show ?thesis using r False 1
    by (cases r1) (auto simp: urp_rdma_init_def rdma_call_def rdma_call_data_def Let_def conn_of_set conn_simps split: option.splits)
qed

lemma conn_of_unlink [conn_simps]: "conn_of (urp_unlink_stale_socket ev path ep) = conn_of ep"
  by (simp add: urp_unlink_stale_socket_def conn_simps split: path_node.split)

lemma conn_of_listen_start [conn_simps]: "conn_of (snd (listen_start ev sk ep)) = conn_of ep"
  by (simp add: listen_start_def Let_def conn_simps split: option.split)

lemma conn_of_socket_init [conn_simps]: "conn_of (snd (urp_socket_init ev ep path)) = conn_of ep"
proof -
  obtain r1 ep1 where 1: "sock_create ev ep = (r1, ep1)" by force
  have "conn_of ep1 = conn_of ep" using conn_of_sock(1)[of ev ep] 1 by simp
  then show ?thesis using 1
    by (cases r1) (simp_all add: urp_socket_init_def urp_listen_uds_def Let_def conn_simps split: option.split)
qed

definition conn_start :: "urp_endpoint \<Rightarrow> conn_sys" where
  "conn_start ep = \<lparr> cy_ep = ep, cy_phase = (\<lambda>_. Connecting), cy_armed = (\<lambda>j. j \<in> set (retry_log ep)) \<rparr>"

lemma conn_ok_start:
  assumes "cv_slots c = Some (replicate (unat (cv_num c)) (False, False, None))" "cv_num c \<noteq> 0"
    "cv_connected c = 0" "cv_accepted c = 0" "\<not> cv_up c" "cv_initiator c \<longrightarrow> \<not> cv_listen c"
  shows "conn_ok c (\<lambda>_. Connecting) (\<lambda>_. False)"
proof -
  have "0 < unat (cv_num c)" using assms(2) by (simp add: unat_gt_0)
  then show ?thesis
    unfolding conn_ok_def using assms
    by (intro exI[of _ "replicate (unat (cv_num c)) (False, False, None)"])
      (simp add: slot_ok_def map_replicate_const sum_list_replicate)
qed

lemma activate_steps:
  assumes "urp_endpoint_activate ev ep = (None, ep')"
  obtains port path ep1 ep2 ep3 ep4 ep5 where "ep_state ep = URP_STATE_CREATING"
    "urp_endpoint_proc_create ev (ep\<lparr>ep_num_bufs := urp_resolve_num_bufs (ep_buffer_count ep),
       ep_buf_size := urp_resolve_buf_size (ep_buffer_size ep)\<rparr>) = (None, ep1)"
    "urp_qps_init ev ep1 = (None, ep2)" "urp_streams_init ev ep2 = (None, ep3)"
    "urp_rdma_init ev ep3 port = (None, ep4)" "urp_socket_init ev ep4 path = (None, ep5)"
    "ep' = activate_finish ev ep5"
proof -
  define ep0 where "ep0 = ep\<lparr>ep_num_bufs := urp_resolve_num_bufs (ep_buffer_count ep),
       ep_buf_size := urp_resolve_buf_size (ep_buffer_size ep)\<rparr>"
  have st: "ep_state ep = URP_STATE_CREATING" using assms by (auto simp: urp_endpoint_activate_def split: if_splits)
  obtain port path where o: "activate_objects ev port path ep0 = (None, ep')"
    using assms st by (auto simp: urp_endpoint_activate_def ep0_def[symmetric] Let_def split: sum.splits)
  obtain ep1 where 1: "urp_endpoint_proc_create ev ep0 = (None, ep1)"
    using o by (auto simp: activate_objects_def split: prod.splits option.splits)
  obtain ep2 where 2: "urp_qps_init ev ep1 = (None, ep2)"
    using o 1 by (auto simp: activate_objects_def activate_err_proc_def split: prod.splits option.splits)
  obtain ep3 where 3: "urp_streams_init ev ep2 = (None, ep3)"
    using o 1 2 by (auto simp: activate_objects_def activate_err_proc_def activate_err_qps_def split: prod.splits option.splits)
  have r: "activate_rdma ev port path ep3 = (None, ep')" using o 1 2 3 by (simp add: activate_objects_def)
  obtain ep4 where 4: "urp_rdma_init ev ep3 port = (None, ep4)"
    using r by (auto simp: activate_rdma_def activate_err_proc_def activate_err_qps_def activate_err_streams_def split: prod.splits option.splits)
  obtain ep5 where 5: "urp_socket_init ev ep4 path = (None, ep5)" "ep' = activate_finish ev ep5"
    using r 4 by (auto simp: activate_rdma_def activate_err_proc_def activate_err_qps_def activate_err_streams_def
        activate_err_rdma_def split: prod.splits option.splits)
  show ?thesis by (rule that[OF st 1[unfolded ep0_def] 2 3 4 5])
qed

lemma conn_of_state:
  "conn_of (ep\<lparr>ep_state := st\<rparr>) = (conn_of ep)\<lparr>cv_active := (st = URP_STATE_ACTIVE)\<rparr>"
  by (simp add: conn_of_def retry_log_def)

lemma conn_ok_active: "conn_ok (c\<lparr>cv_active := b\<rparr>) ph ar = conn_ok c ph ar"
  by (simp add: conn_ok_def)

lemma activate_finish_ok:
  assumes "conn_ok (conn_of ep) (\<lambda>_. Connecting) (\<lambda>_. False)" "retry_log ep = []" "\<not> ep_connect_started ep"
  shows "sys_ok (conn_start (activate_finish ev ep))"
proof -
  define ep1 where "ep1 = (let ep = ep\<lparr>ep_state := URP_STATE_ACTIVE\<rparr> in if \<not> urp_ep_is_fast ep then urp_probe_work_start ep else ep)"
  have body: "activate_finish ev ep = log_ext X_send_event (if urp_ep_is_fast ep1 \<and> ep_is_initiator ep1
      then if urp_should_start_lazy_connect (ep_is_initiator (ep1\<lparr>ep_connect_started := True\<rparr>)) (ep_connect_started ep1)
           then urp_lazy_connect_start ev (ep1\<lparr>ep_connect_started := True\<rparr>) else ep1\<lparr>ep_connect_started := True\<rparr>
      else ep1)"
    by (simp only: activate_finish_def ep1_def Let_def)
  have f: "urp_ep_is_fast ep1 = urp_ep_is_fast ep" "ep_is_initiator ep1 = ep_is_initiator ep" "ep_connect_started ep1 = ep_connect_started ep"
    by (simp_all add: ep1_def urp_ep_is_fast_def urp_probe_work_start_def Let_def log_ext_def)
  have c1: "conn_of ep1 = (conn_of ep)\<lparr>cv_active := True\<rparr>"
    by (simp add: ep1_def urp_probe_work_start_def Let_def conn_simps conn_of_state)
  have ok1: "conn_ok (conn_of ep1) (\<lambda>_. Connecting) (\<lambda>_. False)" using assms(1) by (simp add: c1 conn_ok_active)
  have rl: "retry_log ep1 = []" using c1 assms(2) by (simp add: conn_of_def)
  show ?thesis
  proof (cases "urp_ep_is_fast ep \<and> ep_is_initiator ep")
    case True
    have d: "urp_should_start_lazy_connect (ep_is_initiator ep1) (ep_connect_started ep1)"
      using True f assms(3) by (simp add: urp_should_start_lazy_connect_def)
    define ep2 where "ep2 = urp_lazy_connect_start ev (ep1\<lparr>ep_connect_started := True\<rparr>)"
    have ep': "activate_finish ev ep = log_ext X_send_event ep2"
      using True d f by (simp add: body ep2_def)
    have "conn_ok (conn_of ep2) (\<lambda>_. Connecting) (rearm (\<lambda>_. False) ep1 ep2)"
      using dial_keeps[OF ok1 d ep2_def] by simp
    moreover have "rearm (\<lambda>_. False) ep1 ep2 = (\<lambda>j. j \<in> set (retry_log ep2))" by (simp add: rearm_def rl)
    moreover have "retry_log (log_ext X_send_event ep2) = retry_log ep2" by (simp add: retry_log_def log_ext_def)
    ultimately show ?thesis by (simp add: ep' sys_ok_def conn_start_def conn_simps)
  next
    case False
    then have ep': "activate_finish ev ep = log_ext X_send_event ep1"
      using f by (auto simp: body)
    moreover have "retry_log (log_ext X_send_event ep1) = []" using rl by (simp add: retry_log_def log_ext_def)
    ultimately show ?thesis using ok1 by (simp add: sys_ok_def conn_start_def conn_simps)
  qed
qed

lemma activate_conn_ok:
  assumes "urp_endpoint_activate ev ep = (None, ep')" "ep_qps_accepted ep = 0" "\<not> ep_connected ep"
    "ep_listen_id ep = None" "\<not> ep_connect_started ep" "retry_log ep = []"
  shows "sys_ok (conn_start ep')"
proof -
  obtain port path ep1 ep2 ep3 ep4 ep5 where e:
    "urp_endpoint_proc_create ev (ep\<lparr>ep_num_bufs := urp_resolve_num_bufs (ep_buffer_count ep),
       ep_buf_size := urp_resolve_buf_size (ep_buffer_size ep)\<rparr>) = (None, ep1)"
    "urp_qps_init ev ep1 = (None, ep2)" "urp_streams_init ev ep2 = (None, ep3)"
    "urp_rdma_init ev ep3 port = (None, ep4)" "urp_socket_init ev ep4 path = (None, ep5)"
    "ep' = activate_finish ev ep5"
    using activate_steps[OF assms(1)] by metis
  define c where "c = conn_of ep"
  have c1: "conn_of ep1 = c" using conn_of_proc_create[of ev "ep\<lparr>ep_num_bufs := urp_resolve_num_bufs (ep_buffer_count ep),
       ep_buf_size := urp_resolve_buf_size (ep_buffer_size ep)\<rparr>"] e(1) by (simp add: conn_simps c_def)
  note q = conn_of_qps_init[OF e(2)]
  have c3: "conn_of ep3 = conn_of ep2" using conn_of_streams_init[of ev ep2] e(3) by simp
  note c4 = conn_of_rdma_init[OF e(4)]
  have c5: "conn_of ep5 = conn_of ep4" using conn_of_socket_init[of ev ep4 path] e(5) by simp
  have n: "ep_num_qps ep1 = cv_num c" "ep_is_initiator ep3 = cv_initiator c" using c1 q(2) c3 by (simp_all add: conn_of_get)
  have f: "cv_accepted c = 0" "\<not> cv_up c" "\<not> cv_listen c" "\<not> cv_started c" "cv_retries c = []"
    using assms(2-6) by (simp_all add: c_def conn_of_def)
  have v: "conn_of ep5 = c\<lparr>cv_slots := Some (replicate (unat (cv_num c)) (False, False, None)), cv_connected := 0,
      cv_listen := \<not> cv_initiator c\<rparr>"
    using c5 c4 c3 q(2) c1 n f by simp
  have "conn_ok (conn_of ep5) (\<lambda>_. Connecting) (\<lambda>_. False)"
    using v f q(1) n by (intro conn_ok_start) simp_all
  moreover have "retry_log ep5 = cv_retries (conn_of ep5)" "ep_connect_started ep5 = cv_started (conn_of ep5)"
    by (simp_all add: conn_of_def)
  ultimately show ?thesis using activate_finish_ok[of ep5 ev] v f e(6) by simp
qed

text \<open>
  C32: The connection counters are exact.  Start from any endpoint that was created and activated,
  and let the connection manager deliver any events in any order, queue pairs be probed and retries
  run: in every state reached, the number of connected queue pairs is the number of established
  slots, the number of accepted ones the number of held slots, the endpoint counts as connected
  exactly when all its queue pairs are established, and on an acceptor an established slot is held.
\<close>

theorem connection_counters_exact:
  assumes "urp_endpoint_activate ev (endpoint_new ev cfg) = (None, ep)"
    and "(conn_step ev)\<^sup>*\<^sup>* (conn_start ep) t"
  shows "let ep = cy_ep t; qs = qps ep
    in ep_qps ep \<noteq> None \<and> length qs = unat (ep_num_qps ep)
       \<and> unat (ep_qps_connected ep) = length (filter q_established qs)
       \<and> unat (ep_qps_accepted ep) = length (filter q_accept_slot_held qs)
       \<and> (ep_connected ep \<longleftrightarrow> (\<forall>q\<in>set qs. q_established q))
       \<and> (\<forall>q\<in>set qs. q_established q \<longrightarrow> ep_is_initiator ep \<or> q_accept_slot_held q)"
proof -
  have "sys_ok (conn_start ep)"
    by (rule activate_conn_ok[OF assms(1)]) (simp_all add: endpoint_new_def retry_log_def)
  then have "sys_ok t" by (rule conn_run_keeps[OF assms(2)])
  then show ?thesis by (rule sys_ok_counts[OF _ refl]) (simp add: Let_def)
qed

definition sample_cfg :: urp_ep_config where
  "sample_cfg = \<lparr> ep_name = ''ep0'', ep_listen_path = ''/run/urp'', ep_connect_path = [], ep_rdma_device = [],
     ep_peer_addr = sample_addr, ep_bind_addr = sample_addr, ep_has_peer_addr = True, ep_has_bind_addr = False,
     ep_num_qps = 2, ep_buffer_count = 0, ep_buffer_size = 0, ep_mode = URP_EP_MODE_MULTISTREAM,
     ep_kind = URP_EP_KIND_UDS, ep_password = [], ep_password_hash = [], ep_has_password = False,
     ep_auth_priv = [], ep_conn_priv = [], ep_auth_len = 0 \<rparr>"

definition sample_active :: urp_endpoint where
  "sample_active = snd (urp_endpoint_activate sample_env (endpoint_new sample_env sample_cfg))"

lemma sample_active:
  "urp_endpoint_activate sample_env (endpoint_new sample_env sample_cfg) = (None, sample_active)"
  "ep_state sample_active = URP_STATE_ACTIVE" "ep_is_initiator sample_active" "\<not> ep_connect_started sample_active"
proof -
  have addr: "activate_address (ep\<lparr>ep_num_bufs := n, ep_buf_size := b\<rparr>) = Inr (0, ''/run/urp'')"
    if "ep = endpoint_new sample_env sample_cfg" for ep n b
    using that by (simp add: activate_address_def endpoint_new_def sample_cfg_def urp_endpoint_extract_v4_def sample_addr_def
        ipv6_addr_v4mapped_def)
  have "fst (urp_endpoint_activate sample_env (endpoint_new sample_env sample_cfg)) = None
    \<and> ep_state (snd (urp_endpoint_activate sample_env (endpoint_new sample_env sample_cfg))) = URP_STATE_ACTIVE
    \<and> ep_is_initiator (snd (urp_endpoint_activate sample_env (endpoint_new sample_env sample_cfg)))
    \<and> \<not> ep_connect_started (snd (urp_endpoint_activate sample_env (endpoint_new sample_env sample_cfg)))"
    unfolding urp_endpoint_activate_def Let_def addr[OF refl]
    by (simp add: endpoint_new_def sample_cfg_def activate_objects_def urp_endpoint_proc_create_def kalloc_def
        urp_qps_init_def urp_streams_init_def activate_rdma_def urp_rdma_init_def urp_socket_init_def urp_ep_is_fast_def
        urp_listen_uds_def sock_create_def urp_should_unlink_listen_path_def urp_unlink_stale_socket_def
        listen_start_def activate_finish_def urp_probe_work_start_def URP_PATH_MAX_LEN_def log_ext_def sample_env_def Let_def)
  then show "urp_endpoint_activate sample_env (endpoint_new sample_env sample_cfg) = (None, sample_active)"
    "ep_state sample_active = URP_STATE_ACTIVE" "ep_is_initiator sample_active" "\<not> ep_connect_started sample_active"
    by (simp_all add: sample_active_def prod_eq_iff)
qed

definition sample_dialled :: conn_sys where
  "sample_dialled =
    (let ep = urp_lazy_connect_start sample_env (sample_active\<lparr>ep_connect_started := True\<rparr>)
     in \<lparr> cy_ep = ep, cy_phase = (\<lambda>i. if i < unat (ep_num_qps sample_active) then Connecting else Connecting),
          cy_armed = rearm (\<lambda>j. j \<in> set (retry_log sample_active)) sample_active ep \<rparr>)"

theorem connection_counters_exact_witness:
  "urp_endpoint_activate sample_env (endpoint_new sample_env sample_cfg) = (None, sample_active)
   \<and> (conn_step sample_env)\<^sup>*\<^sup>* (conn_start sample_active) sample_dialled
   \<and> (let ep = cy_ep sample_dialled; qs = qps ep
      in unat (ep_qps_connected ep) = length (filter q_established qs)
         \<and> (ep_connected ep \<longleftrightarrow> (\<forall>q\<in>set qs. q_established q)))"
proof -
  have "conn_step sample_env (conn_start sample_active) sample_dialled"
    unfolding conn_start_def sample_dialled_def Let_def
    by (rule conn_step.dial) (simp_all add: sample_active urp_should_start_lazy_connect_def)
  then have r: "(conn_step sample_env)\<^sup>*\<^sup>* (conn_start sample_active) sample_dialled" by (rule r_into_rtranclp)
  show ?thesis using sample_active(1) r connection_counters_exact[OF sample_active(1) r] by (simp add: Let_def)
qed

end
