(* ===== verification/Urp_Config.thy ===== *)
theory Urp_Config
  imports Urp_Endpoint
begin

text \<open>
  The configuration of an endpoint is immutable: activation, with all its failure paths, and draining
  change neither it nor the role, nor the reference count.
\<close>

definition base_of :: "urp_endpoint \<Rightarrow> urp_ep_config \<times> nat \<times> bool" where
  "base_of ep = (urp_ep_config.truncate ep, ep_refcount ep, ep_is_initiator ep)"

named_theorems base_simps

lemma base_of_eq:
  "base_of ep' = base_of ep \<Longrightarrow>
    urp_ep_config.truncate ep' = urp_ep_config.truncate ep \<and> ep_refcount ep' = ep_refcount ep \<and>
    ep_is_initiator ep' = ep_is_initiator ep"
  by (simp add: base_of_def)

lemma base_log [base_simps]: "base_of (log_ext x ep) = base_of ep"
  by (simp add: base_of_def log_ext_def urp_ep_config.truncate_def)

lemma base_fields [base_simps]:
  "base_of (ep\<lparr>ep_ib_dev := b\<rparr>) = base_of ep" "base_of (ep\<lparr>ep_pd := b\<rparr>) = base_of ep"
  "base_of (ep\<lparr>ep_send_cq := b\<rparr>) = base_of ep" "base_of (ep\<lparr>ep_recv_cq := b\<rparr>) = base_of ep"
  "base_of (ep\<lparr>ep_srq := b\<rparr>) = base_of ep" "base_of (ep\<lparr>ep_page_pool := b\<rparr>) = base_of ep"
  "base_of (ep\<lparr>ep_bufs := bs\<rparr>) = base_of ep" "base_of (ep\<lparr>ep_recv_scratch := sc\<rparr>) = base_of ep"
  "base_of (ep\<lparr>ep_send_free := l\<rparr>) = base_of ep" "base_of (ep\<lparr>ep_recv_free := l\<rparr>) = base_of ep"
  "base_of (ep\<lparr>ep_srq_pool_target := w\<rparr>) = base_of ep" "base_of (ep\<lparr>ep_num_chunks := w\<rparr>) = base_of ep"
  "base_of (ep\<lparr>ep_chunk_size := w\<rparr>) = base_of ep" "base_of (ep\<lparr>ep_max_frame := w\<rparr>) = base_of ep"
  "base_of (ep\<lparr>ep_num_bufs := w\<rparr>) = base_of ep" "base_of (ep\<lparr>ep_buf_size := w\<rparr>) = base_of ep"
  "base_of (ep\<lparr>ep_state := st\<rparr>) = base_of ep" "base_of (ep\<lparr>ep_proc := b\<rparr>) = base_of ep"
  "base_of (ep\<lparr>ep_listen_sock := sk\<rparr>) = base_of ep" "base_of (ep\<lparr>ep_accept_thread := b\<rparr>) = base_of ep"
  "base_of (ep\<lparr>ep_conn := c\<rparr>) = base_of ep" "base_of (ep\<lparr>ep_listen_id := sk\<rparr>) = base_of ep"
  "base_of (ep\<lparr>ep_connected := b\<rparr>) = base_of ep" "base_of (ep\<lparr>ep_connect_started := b\<rparr>) = base_of ep"
  "base_of (ep\<lparr>ep_probe_active := b\<rparr>) = base_of ep" "base_of (ep\<lparr>ep_streams := t\<rparr>) = base_of ep"
  "base_of (ep\<lparr>ep_streams_inited := b\<rparr>) = base_of ep" "base_of (ep\<lparr>ep_next_stream_id := w\<rparr>) = base_of ep"
  "base_of (ep\<lparr>ep_pending_reap := w\<rparr>) = base_of ep" "base_of (ep\<lparr>ep_qps := qs\<rparr>) = base_of ep"
  "base_of (ep\<lparr>ep_qps_connected := w\<rparr>) = base_of ep" "base_of (ep\<lparr>ep_qps_accepted := w\<rparr>) = base_of ep"
  "base_of (ep\<lparr>ep_rr_counter := w\<rparr>) = base_of ep" "base_of (upd_qp i f ep) = base_of ep"
  "base_of (upd_buf j g ep) = base_of ep" "base_of (upd_stream sid h ep) = base_of ep"
  "base_of (upd_stats u ep) = base_of ep"
  by (simp_all add: base_of_def urp_ep_config.truncate_def upd_qp_def upd_buf_def upd_stream_def upd_stats_def)

interpretation bf: shared_frame base_of
  by unfold_locales (simp_all add: base_simps)

lemmas base_pool [base_simps] = bf.proj_kalloc bf.proj_kalloc_eq bf.proj_bufs_init bf.proj_bufs_cleanup
  bf.proj_srq_create bf.proj_srq_destroy bf.proj_setup_shared

lemma base_sock [base_simps]: "base_of (snd (sock_create ev ep)) = base_of ep" "base_of (sock_release sk ep) = base_of ep"
  by (simp_all add: sock_create_def sock_release_def base_simps split: prod.split option.split)

lemma base_sock_eq [base_simps]: "sock_create ev ep = (r, ep') \<Longrightarrow> base_of ep' = base_of ep"
  using base_sock(1)[of ev ep] by simp

lemma base_rdma_call [base_simps]:
  "base_of (snd (rdma_call ev op cid ep)) = base_of ep" "base_of (snd (rdma_call_data ev op cid d ep)) = base_of ep"
  by (simp_all add: rdma_call_def rdma_call_data_def base_simps)

lemma base_rdma_call_eq [base_simps]:
  "rdma_call ev op cid ep = (r, ep') \<Longrightarrow> base_of ep' = base_of ep"
  "rdma_call_data ev op cid d ep = (r, ep') \<Longrightarrow> base_of ep' = base_of ep"
  by (metis base_rdma_call(1) snd_conv, metis base_rdma_call(2) snd_conv)

lemma base_cm_id_destroy [base_simps]: "base_of (urp_cm_id_destroy cid ep) = base_of ep"
  by (simp add: urp_cm_id_destroy_def rdma_destroy_id_def base_simps)

lemma base_make_cm_id [base_simps]: "base_of (snd (urp_make_cm_id ev ep)) = base_of ep"
  by (simp add: urp_make_cm_id_def rdma_create_id_def base_simps Let_def split: prod.split option.split)

lemma base_make_cm_id_eq [base_simps]: "urp_make_cm_id ev ep = (r, ep') \<Longrightarrow> base_of ep' = base_of ep"
  using base_make_cm_id[of ev ep] by simp

section \<open>Activation\<close>

lemma base_fold [base_simps]: "(\<And>x ep. base_of (f x ep) = base_of ep) \<Longrightarrow> base_of (fold f xs ep) = base_of ep"
  by (induction xs arbitrary: ep) simp_all

lemma base_proc [base_simps]:
  "base_of (snd (urp_endpoint_proc_create ev ep)) = base_of ep" "base_of (urp_endpoint_proc_remove ep) = base_of ep"
  by (simp_all add: urp_endpoint_proc_create_def urp_endpoint_proc_remove_def base_simps split: prod.split option.split)

lemma base_qps [base_simps]: "base_of (snd (urp_qps_init ev ep)) = base_of ep" "base_of (urp_qps_destroy ep) = base_of ep"
  by (simp_all add: urp_qps_init_def urp_qps_destroy_def base_simps Let_def split: prod.split option.split)

lemma base_streams_init [base_simps]: "base_of (snd (urp_streams_init ev ep)) = base_of ep"
  by (simp add: urp_streams_init_def base_simps split: prod.split option.split)

lemma base_rdma_init [base_simps]: "base_of (snd (urp_rdma_init ev ep port)) = base_of ep"
  by (simp add: urp_rdma_init_def base_simps Let_def split: prod.split option.split sum.split)

lemma base_listen [base_simps]:
  "base_of (urp_unlink_stale_socket ev path ep) = base_of ep" "base_of (snd (listen_start ev sk ep)) = base_of ep"
  "base_of (snd (urp_listen_uds ev ep path)) = base_of ep"
proof -
  show u: "base_of (urp_unlink_stale_socket ev path ep) = base_of ep" for ep
    by (simp add: urp_unlink_stale_socket_def base_simps split: path_node.split)
  show l: "base_of (snd (listen_start ev sk ep)) = base_of ep" for sk ep
    by (simp add: listen_start_def base_simps Let_def split: option.split)
  show "base_of (snd (urp_listen_uds ev ep path)) = base_of ep"
    by (simp add: urp_listen_uds_def u l base_simps Let_def split: prod.split option.split sum.split)
qed

lemma base_socket_init [base_simps]: "base_of (snd (urp_socket_init ev ep path)) = base_of ep"
  by (simp add: urp_socket_init_def base_simps)

lemma base_lazy_dial [base_simps]: "base_of (lazy_dial ev i ep) = base_of ep"
  by (simp add: lazy_dial_def urp_qp_resolve_addr_def base_simps Let_def split: prod.split option.split sum.split)

lemma base_lazy_start [base_simps]: "base_of (urp_lazy_connect_start ev ep) = base_of ep"
  by (simp add: urp_lazy_connect_start_def base_simps)

section \<open>Draining\<close>

lemma base_conn_cleanup [base_simps]: "base_of (urp_socket_conn_cleanup ep) = base_of ep"
  by (simp add: urp_socket_conn_cleanup_def urp_pump_stop_def base_simps Let_def split: option.split)

lemma base_socket_cleanup [base_simps]: "base_of (urp_socket_cleanup ev ep) = base_of ep"
  by (simp add: urp_socket_cleanup_def base_simps Let_def split: option.split)

lemma base_stream_destroy [base_simps]: "base_of (urp_stream_destroy ep sid) = base_of ep"
  by (simp add: urp_stream_destroy_def urp_stream_pump_stop_def urp_stream_rcu_free_def base_simps Let_def
      split: option.split prod.split)

lemma base_destroy_all_loop [base_simps]: "base_of (destroy_all_loop ep) = base_of ep"
proof (induction ep rule: destroy_all_loop.induct)
  case (1 ep)
  then show ?case
    by (subst destroy_all_loop.simps) (cases "ep_streams ep"; simp add: base_simps split: prod.split)
qed

lemma base_destroy_all [base_simps]: "base_of (urp_streams_destroy_all ep) = base_of ep"
  by (simp add: urp_streams_destroy_all_def base_simps)

lemma base_listener [base_simps]: "base_of (listener_destroy ep) = base_of ep"
  by (simp add: listener_destroy_def base_simps split: option.split)

lemma base_qp_steps [base_simps]:
  "base_of (qp_disconnect i ep) = base_of ep" "base_of (qp_drain_destroy i ep) = base_of ep"
  "base_of (qp_id_destroy i ep) = base_of ep"
  by (simp_all add: qp_disconnect_def qp_drain_destroy_def qp_id_destroy_def rdma_destroy_qp_def base_simps Let_def
      split: option.split)

lemma base_cleanup_qps [base_simps]: "base_of (cleanup_qps ep) = base_of ep"
  by (simp add: cleanup_qps_def Let_def base_simps)

lemma base_cleanup_shared [base_simps]: "base_of (cleanup_shared ep) = base_of ep"
  by (simp add: cleanup_shared_def base_simps Let_def)

lemma base_rdma_cleanup [base_simps]: "base_of (urp_rdma_cleanup ep) = base_of ep"
  by (simp add: urp_rdma_cleanup_def base_simps)

lemma base_drain: "base_of (urp_endpoint_drain ev ep) = base_of ep"
  by (simp add: urp_endpoint_drain_def urp_probe_work_stop_def base_simps Let_def)

lemma base_activate_err [base_simps]:
  "base_of (snd (activate_err_proc e ep)) = base_of ep" "base_of (snd (activate_err_qps e ep)) = base_of ep"
  "base_of (snd (activate_err_streams e ep)) = base_of ep" "base_of (snd (activate_err_rdma e ep)) = base_of ep"
  by (simp_all add: activate_err_rdma_def activate_err_streams_def activate_err_qps_def activate_err_proc_def base_simps)

lemma base_activate_finish [base_simps]: "base_of (activate_finish ev ep) = base_of ep"
  by (simp add: activate_finish_def urp_probe_work_start_def base_simps Let_def)

lemma base_activate_rdma [base_simps]: "base_of (snd (activate_rdma ev port path ep)) = base_of ep"
proof -
  obtain r1 ep1 where 1: "urp_rdma_init ev ep port = (r1, ep1)" by force
  obtain r2 ep2 where 2: "urp_socket_init ev ep1 path = (r2, ep2)" by force
  have "base_of ep1 = base_of ep" "base_of ep2 = base_of ep1"
    using base_rdma_init[of ev ep port] base_socket_init[of ev ep1 path] 1 2 by simp_all
  then show ?thesis using 1 2 by (cases r1; cases r2) (simp_all add: activate_rdma_def base_simps)
qed

lemma base_activate_objects [base_simps]: "base_of (snd (activate_objects ev port path ep)) = base_of ep"
proof -
  obtain r1 ep1 where 1: "urp_endpoint_proc_create ev ep = (r1, ep1)" by force
  obtain r2 ep2 where 2: "urp_qps_init ev ep1 = (r2, ep2)" by force
  obtain r3 ep3 where 3: "urp_streams_init ev ep2 = (r3, ep3)" by force
  have "base_of ep1 = base_of ep" "base_of ep2 = base_of ep1" "base_of ep3 = base_of ep2"
    using base_proc(1)[of ev ep] base_qps(1)[of ev ep1] base_streams_init[of ev ep2] 1 2 3 by simp_all
  then show ?thesis using 1 2 3 by (cases r1; cases r2; cases r3) (simp_all add: activate_objects_def base_simps)
qed

lemma base_activate: "base_of (snd (urp_endpoint_activate ev ep)) = base_of ep"
proof -
  define ep0 where "ep0 = ep\<lparr>ep_num_bufs := urp_resolve_num_bufs (ep_buffer_count ep),
                   ep_buf_size := urp_resolve_buf_size (ep_buffer_size ep)\<rparr>"
  have "base_of ep0 = base_of ep" by (simp add: ep0_def base_simps)
  then show ?thesis
    by (simp add: urp_endpoint_activate_def ep0_def[symmetric] base_simps Let_def split: sum.split prod.split)
qed

lemma state_lazy_start: "ep_state (urp_lazy_connect_start ev ep) = ep_state ep"
proof -
  have c: "ep_state (snd (urp_make_cm_id ev ep)) = ep_state ep" for ep
    by (simp add: urp_make_cm_id_def rdma_create_id_def kalloc_def log_ext_def Let_def split: option.split)
  have "ep_state (lazy_dial ev i ep) = ep_state ep" for i ep
  proof (cases "urp_make_cm_id ev ep")
    case (Pair r ep1)
    have "ep_state ep1 = ep_state ep" using c[of ep] Pair by simp
    then show ?thesis using Pair
      by (simp add: lazy_dial_def urp_qp_resolve_addr_def rdma_call_data_def urp_cm_id_destroy_def rdma_destroy_id_def
          log_ext_def upd_qp_def Let_def split: sum.split prod.split option.split)
  qed
  then have "ep_state (fold (lazy_dial ev) is ep) = ep_state ep" for "is" ep by (induction "is" arbitrary: ep) simp_all
  then show ?thesis by (simp add: urp_lazy_connect_start_def)
qed

lemma activate_state: "urp_endpoint_activate ev ep = (None, ep') \<Longrightarrow> ep_state ep' = URP_STATE_ACTIVE"
  by (erule activate_steps)
    (simp add: activate_finish_def urp_probe_work_start_def state_lazy_start log_ext_def Let_def)

lemma drain_state: "ep_state (urp_endpoint_drain ev ep) = URP_STATE_STOPPED"
  by (simp add: urp_endpoint_drain_def log_ext_def Let_def)

end
