(* ===== verification/Urp_Netlink_Msg.thy ===== *)
theory Urp_Netlink_Msg
  imports Urp_Config
begin

text \<open>
  Messages of the generic netlink family (kernel/urp\_netlink.c, the attribute enumerations of
  kernel/include/uapi/linux/urp.h): attribute trees, a message buffer of bounded size, and the
  description of an endpoint that replies, dumps and events carry.  Attributes are put one after the
  other and each fails when the buffer has no room for it; a failure inside the endpoint's nest cancels
  the nest.  The main lemma says that the result is all of the description or nothing.
\<close>

section \<open>Attributes\<close>

datatype urp_endpoint_attr =
    URP_ENDPOINT_A_NAME | URP_ENDPOINT_A_LISTEN_PATH | URP_ENDPOINT_A_CONNECT_PATH
  | URP_ENDPOINT_A_RDMA_DEVICE | URP_ENDPOINT_A_PEER_ADDR | URP_ENDPOINT_A_BIND_ADDR
  | URP_ENDPOINT_A_NUM_QPS | URP_ENDPOINT_A_BUFFER_COUNT | URP_ENDPOINT_A_BUFFER_SIZE
  | URP_ENDPOINT_A_PASSWORD | URP_ENDPOINT_A_STATE | URP_ENDPOINT_A_QPS | URP_ENDPOINT_A_STREAMS
  | URP_ENDPOINT_A_STATS | URP_ENDPOINT_A_MODE | URP_ENDPOINT_A_KIND | URP_ENDPOINT_A_INTERARRIVAL
  | URP_ENDPOINT_A_OWD

datatype urp_qp_attr =
    URP_QP_A_INDEX | URP_QP_A_STATE | URP_QP_A_RTT_NS | URP_QP_A_TX_BYTES | URP_QP_A_RX_BYTES
  | URP_QP_A_TX_FRAMES | URP_QP_A_RX_FRAMES

datatype urp_stream_attr =
    URP_STREAM_A_ID | URP_STREAM_A_STATE | URP_STREAM_A_TX_BYTES | URP_STREAM_A_RX_BYTES
  | URP_STREAM_A_REORDER_DEPTH | URP_STREAM_A_CREDITS_LOCAL | URP_STREAM_A_CREDITS_REMOTE

datatype urp_stats_attr =
    URP_STATS_A_ACTIVE_STREAMS | URP_STATS_A_TX_BYTES | URP_STATS_A_RX_BYTES | URP_STATS_A_TX_FRAMES
  | URP_STATS_A_RX_FRAMES | URP_STATS_A_CREDIT_STALLS | URP_STATS_A_REORDER_INSERTIONS
  | URP_STATS_A_REORDER_DROPS | URP_STATS_A_BUFFER_ALLOC_FAILS | URP_STATS_A_AUTH_FAILURES

datatype urp_hist_attr = URP_HIST_A_STRIDE | URP_HIST_A_BUCKETS | URP_HIST_A_SUM_NS | URP_HIST_A_COUNT

datatype urp_owd_attr = URP_OWD_A_HIST | URP_OWD_A_CLOCK_OFFSET_NS | URP_OWD_A_ANOMALIES

text \<open>
  The type of an attribute is one of its enumeration, or a position for the entries of an array.
  Values keep their width; the buckets of a histogram are one binary attribute.
\<close>

datatype nla_type = URP_A_ENDPOINT | EP_A urp_endpoint_attr | QP_A urp_qp_attr | STREAM_A urp_stream_attr
  | STATS_A urp_stats_attr | HIST_A urp_hist_attr | OWD_A urp_owd_attr | ENTRY nat

datatype nla = Nla nla_type nla_value
  and nla_value = NV_string string | NV_u8 u8 | NV_u16 u16 | NV_u32 u32 | NV_u64 u64
    | NV_u64s "u64 list" | NV_addr sockaddr_in6 | NV_nest "nla list"

text \<open>
  An attribute is a header of four bytes and its payload, padded to four bytes.  A 64-bit value
  takes no extra padding on the platforms with efficient unaligned access that the module is built for.
\<close>

definition NLA_HDRLEN :: nat where "NLA_HDRLEN = 4"

definition nla_total_size :: "nat \<Rightarrow> nat" where
  "nla_total_size n = (NLA_HDRLEN + n + 3) div 4 * 4"

fun nla_size :: "nla \<Rightarrow> nat" and value_len :: "nla_value \<Rightarrow> nat" where
  "nla_size (Nla t v) = nla_total_size (value_len v)"
| "value_len (NV_string s) = length s + 1"
| "value_len (NV_u8 _) = 1"
| "value_len (NV_u16 _) = 2"
| "value_len (NV_u32 _) = 4"
| "value_len (NV_u64 _) = 8"
| "value_len (NV_u64s ws) = 8 * length ws"
| "value_len (NV_addr _) = 28"
| "value_len (NV_nest as) = sum_list (map nla_size as)"

definition attrs_size :: "nla list \<Rightarrow> nat" where
  "attrs_size as = sum_list (map nla_size as)"

section \<open>Message buffers\<close>

record sk_buff =
  sk_room :: nat
  sk_attrs :: "nla list"

type_synonym writer = "sk_buff \<Rightarrow> sk_buff option"

definition nla_put :: "nla_type \<Rightarrow> nla_value \<Rightarrow> writer" where
  "nla_put t v sk =
    (if sk_room sk < nla_size (Nla t v) then None
     else Some \<lparr> sk_room = sk_room sk - nla_size (Nla t v), sk_attrs = sk_attrs sk @ [Nla t v] \<rparr>)"

definition nla_nest :: "nla_type \<Rightarrow> writer \<Rightarrow> writer" where
  "nla_nest t w sk =
    (if sk_room sk < NLA_HDRLEN then None
     else case w \<lparr> sk_room = sk_room sk - NLA_HDRLEN, sk_attrs = [] \<rparr> of
       None \<Rightarrow> None
     | Some sub \<Rightarrow> Some \<lparr> sk_room = sk_room sub, sk_attrs = sk_attrs sk @ [Nla t (NV_nest (sk_attrs sub))] \<rparr>)"

text \<open>Writers one after the other, the first failure ending the sequence.\<close>

primrec nl_all :: "writer list \<Rightarrow> writer" where
  "nl_all [] sk = Some sk"
| "nl_all (w # ws) sk = (case w sk of None \<Rightarrow> None | Some sk \<Rightarrow> nl_all ws sk)"

definition nl_when :: "bool \<Rightarrow> writer \<Rightarrow> writer" where
  "nl_when b w = (if b then w else Some)"

section \<open>The description of an endpoint\<close>

definition ep_state_u8 :: "urp_endpoint_state \<Rightarrow> u8" where
  "ep_state_u8 st = (case st of URP_STATE_CREATING \<Rightarrow> 0 | URP_STATE_ACTIVE \<Rightarrow> 1 | URP_STATE_DRAINING \<Rightarrow> 2
     | URP_STATE_STOPPED \<Rightarrow> 3)"

definition qp_state_u8 :: "urp_qp_state \<Rightarrow> u8" where
  "qp_state_u8 st = (case st of URP_QP_STATE_QUALIFYING \<Rightarrow> 0 | URP_QP_STATE_ACTIVE \<Rightarrow> 1
     | URP_QP_STATE_DRAINING \<Rightarrow> 2 | URP_QP_STATE_REMOVED \<Rightarrow> 3)"

definition stream_state_u8 :: "urp_stream_state \<Rightarrow> u8" where
  "stream_state_u8 st = (case st of URP_STREAM_STATE_SYN_SENT \<Rightarrow> 0 | URP_STREAM_STATE_SYN_RECEIVED \<Rightarrow> 1
     | URP_STREAM_STATE_ESTABLISHED \<Rightarrow> 2 | URP_STREAM_STATE_FIN_WAIT \<Rightarrow> 3 | URP_STREAM_STATE_CLOSE_WAIT \<Rightarrow> 4
     | URP_STREAM_STATE_CLOSED \<Rightarrow> 5)"

definition fill_config :: "urp_endpoint \<Rightarrow> writer" where
  "fill_config ep = nl_all
    [nla_put (EP_A URP_ENDPOINT_A_NAME) (NV_string (ep_name ep)),
     nl_when (ep_listen_path ep \<noteq> []) (nla_put (EP_A URP_ENDPOINT_A_LISTEN_PATH) (NV_string (ep_listen_path ep))),
     nl_when (ep_connect_path ep \<noteq> []) (nla_put (EP_A URP_ENDPOINT_A_CONNECT_PATH) (NV_string (ep_connect_path ep))),
     nl_when (ep_rdma_device ep \<noteq> []) (nla_put (EP_A URP_ENDPOINT_A_RDMA_DEVICE) (NV_string (ep_rdma_device ep))),
     nl_when (ep_has_peer_addr ep) (nla_put (EP_A URP_ENDPOINT_A_PEER_ADDR) (NV_addr (ep_peer_addr ep))),
     nl_when (ep_has_bind_addr ep) (nla_put (EP_A URP_ENDPOINT_A_BIND_ADDR) (NV_addr (ep_bind_addr ep))),
     nla_put (EP_A URP_ENDPOINT_A_NUM_QPS) (NV_u32 (ep_num_qps ep)),
     nla_put (EP_A URP_ENDPOINT_A_BUFFER_COUNT) (NV_u32 (ep_buffer_count ep)),
     nla_put (EP_A URP_ENDPOINT_A_BUFFER_SIZE) (NV_u32 (ep_buffer_size ep)),
     nla_put (EP_A URP_ENDPOINT_A_STATE) (NV_u8 (ep_state_u8 (ep_state ep)))]"

definition fill_qp :: "urp_qp \<Rightarrow> writer" where
  "fill_qp q = nl_all
    [nla_put (QP_A URP_QP_A_INDEX) (NV_u32 (q_index q)),
     nla_put (QP_A URP_QP_A_STATE)
       (NV_u8 (qp_state_u8 (if q_established q then q_health q else URP_QP_STATE_QUALIFYING))),
     nla_put (QP_A URP_QP_A_RTT_NS) (NV_u64 (q_rtt_ewma_ns q)),
     nla_put (QP_A URP_QP_A_TX_BYTES) (NV_u64 (q_tx_bytes q)),
     nla_put (QP_A URP_QP_A_RX_BYTES) (NV_u64 (q_rx_bytes q)),
     nla_put (QP_A URP_QP_A_TX_FRAMES) (NV_u64 (q_tx_frames q)),
     nla_put (QP_A URP_QP_A_RX_FRAMES) (NV_u64 (q_rx_frames q))]"

definition fill_qps :: "urp_endpoint \<Rightarrow> writer" where
  "fill_qps ep = nla_nest (EP_A URP_ENDPOINT_A_QPS)
    (case ep_qps ep of
       None \<Rightarrow> Some
     | Some qs \<Rightarrow> nl_all (map (\<lambda>i. nla_nest (ENTRY (i + 1)) (fill_qp (qs ! i))) [0..<unat (ep_num_qps ep)]))"

definition fill_stream :: "urp_stream \<Rightarrow> writer" where
  "fill_stream s = nl_all
    [nla_put (STREAM_A URP_STREAM_A_ID) (NV_u32 (s_id s)),
     nla_put (STREAM_A URP_STREAM_A_STATE) (NV_u8 (stream_state_u8 (s_state s))),
     nla_put (STREAM_A URP_STREAM_A_TX_BYTES) (NV_u64 (s_tx_bytes s)),
     nla_put (STREAM_A URP_STREAM_A_RX_BYTES) (NV_u64 (s_rx_bytes s)),
     nla_put (STREAM_A URP_STREAM_A_REORDER_DEPTH) (NV_u32 (urp_reorder_gap_count (Some (s_reorder s)))),
     nla_put (STREAM_A URP_STREAM_A_CREDITS_LOCAL) (NV_u16 (send_credits (s_credit s))),
     nla_put (STREAM_A URP_STREAM_A_CREDITS_REMOTE) (NV_u16 (credits_to_grant (s_credit s)))]"

definition fill_conn :: "urp_endpoint \<Rightarrow> writer" where
  "fill_conn ep = nl_all
    [nla_put (STREAM_A URP_STREAM_A_ID) (NV_u32 0),
     nla_put (STREAM_A URP_STREAM_A_STATE) (NV_u8 (stream_state_u8 URP_STREAM_STATE_ESTABLISHED)),
     nla_put (STREAM_A URP_STREAM_A_TX_BYTES) (NV_u64 (stat_tx_bytes (ep_stats ep))),
     nla_put (STREAM_A URP_STREAM_A_RX_BYTES) (NV_u64 (stat_rx_bytes (ep_stats ep))),
     nla_put (STREAM_A URP_STREAM_A_REORDER_DEPTH) (NV_u32 0),
     nla_put (STREAM_A URP_STREAM_A_CREDITS_LOCAL) (NV_u16 0),
     nla_put (STREAM_A URP_STREAM_A_CREDITS_REMOTE) (NV_u16 0)]"

definition shown_streams :: "urp_endpoint \<Rightarrow> urp_stream list" where
  "shown_streams ep = (if ep_streams_inited ep then map snd (ep_streams ep) else [])"

definition shows_conn :: "urp_endpoint \<Rightarrow> bool" where
  "shows_conn ep \<longleftrightarrow> shown_streams ep = [] \<and> c_active (ep_conn ep)"

definition fill_streams :: "urp_endpoint \<Rightarrow> writer" where
  "fill_streams ep = nla_nest (EP_A URP_ENDPOINT_A_STREAMS)
    (nl_all (map (\<lambda>(i, s). nla_nest (ENTRY i) (fill_stream s)) (enumerate 1 (shown_streams ep))
       @ [nl_when (shows_conn ep) (nla_nest (ENTRY 1) (fill_conn ep))]))"

definition active_streams :: "urp_endpoint \<Rightarrow> u32" where
  "active_streams ep = (if shows_conn ep then 1 else of_nat (length (shown_streams ep)))"

definition fill_stats :: "urp_endpoint \<Rightarrow> writer" where
  "fill_stats ep = nla_nest (EP_A URP_ENDPOINT_A_STATS) (nl_all
    [nla_put (STATS_A URP_STATS_A_ACTIVE_STREAMS) (NV_u32 (active_streams ep)),
     nla_put (STATS_A URP_STATS_A_TX_BYTES) (NV_u64 (stat_tx_bytes (ep_stats ep))),
     nla_put (STATS_A URP_STATS_A_RX_BYTES) (NV_u64 (stat_rx_bytes (ep_stats ep))),
     nla_put (STATS_A URP_STATS_A_TX_FRAMES) (NV_u64 (stat_tx_frames (ep_stats ep))),
     nla_put (STATS_A URP_STATS_A_RX_FRAMES) (NV_u64 (stat_rx_frames (ep_stats ep))),
     nla_put (STATS_A URP_STATS_A_CREDIT_STALLS) (NV_u64 (stat_credit_stalls (ep_stats ep))),
     nla_put (STATS_A URP_STATS_A_REORDER_INSERTIONS) (NV_u64 (stat_reorder_insertions (ep_stats ep))),
     nla_put (STATS_A URP_STATS_A_REORDER_DROPS) (NV_u64 (stat_reorder_drops (ep_stats ep))),
     nla_put (STATS_A URP_STATS_A_BUFFER_ALLOC_FAILS) (NV_u64 (stat_buffer_alloc_fails (ep_stats ep))),
     nla_put (STATS_A URP_STATS_A_AUTH_FAILURES) (NV_u64 (stat_auth_failures (ep_stats ep)))])"

definition fill_hist :: "u32 \<Rightarrow> nat \<Rightarrow> urp_hist15 \<Rightarrow> writer" where
  "fill_hist stride n h = nl_all
    [nla_put (HIST_A URP_HIST_A_STRIDE) (NV_u32 stride),
     nla_put (HIST_A URP_HIST_A_BUCKETS) (NV_u64s (map (\<lambda>b. hi_bucket h ! b) [0..<n])),
     nla_put (HIST_A URP_HIST_A_SUM_NS) (NV_u64 (hi_sum_ns h)),
     nla_put (HIST_A URP_HIST_A_COUNT) (NV_u64 (hi_count h))]"

definition fill_interarrival :: "urp_endpoint \<Rightarrow> writer" where
  "fill_interarrival ep = nla_nest (EP_A URP_ENDPOINT_A_INTERARRIVAL)
    (nl_all (map (\<lambda>i. nla_nest (ENTRY (i + 1))
        (fill_hist (urp_ia_stride (of_nat i)) (unat URP_HIST_NBUCKETS) (ia_h (ep_interarrival ep) ! i)))
      [0..<unat URP_IA_NSTRIDES]))"

definition fill_owd :: "urp_sysctl \<Rightarrow> urp_endpoint \<Rightarrow> writer" where
  "fill_owd sy ep = nla_nest (EP_A URP_ENDPOINT_A_OWD) (nl_all
    [nla_nest (OWD_A URP_OWD_A_HIST) (fill_hist 0 (unat URP_OWD_NBUCKETS) (owd_h (ep_owd ep))),
     nla_put (OWD_A URP_OWD_A_CLOCK_OFFSET_NS) (NV_u64 (ucast (sy_owd_clock_offset_ns sy))),
     nla_put (OWD_A URP_OWD_A_ANOMALIES) (NV_u64 (owd_anomalies (ep_owd ep)))])"

definition fill_verbose :: "urp_sysctl \<Rightarrow> urp_endpoint \<Rightarrow> writer" where
  "fill_verbose sy ep = nl_all
    [fill_qps ep, fill_streams ep, fill_stats ep,
     nl_when (sy_interarrival_hist sy \<noteq> 0) (fill_interarrival ep),
     nl_when (sy_latency_sample_period sy \<noteq> 0) (fill_owd sy ep)]"

definition urp_fill_endpoint :: "urp_sysctl \<Rightarrow> urp_endpoint \<Rightarrow> bool \<Rightarrow> writer" where
  "urp_fill_endpoint sy ep verbose = nla_nest URP_A_ENDPOINT
    (nl_all [fill_config ep, nl_when verbose (fill_verbose sy ep)])"

section \<open>The description as a tree\<close>

text \<open>What the writers are meant to put, as a pure function of the endpoint.\<close>

definition opt_attr :: "bool \<Rightarrow> nla \<Rightarrow> nla list" where
  "opt_attr b a = (if b then [a] else [])"

definition config_attrs :: "urp_endpoint \<Rightarrow> nla list" where
  "config_attrs ep =
    [Nla (EP_A URP_ENDPOINT_A_NAME) (NV_string (ep_name ep))]
    @ opt_attr (ep_listen_path ep \<noteq> []) (Nla (EP_A URP_ENDPOINT_A_LISTEN_PATH) (NV_string (ep_listen_path ep)))
    @ opt_attr (ep_connect_path ep \<noteq> []) (Nla (EP_A URP_ENDPOINT_A_CONNECT_PATH) (NV_string (ep_connect_path ep)))
    @ opt_attr (ep_rdma_device ep \<noteq> []) (Nla (EP_A URP_ENDPOINT_A_RDMA_DEVICE) (NV_string (ep_rdma_device ep)))
    @ opt_attr (ep_has_peer_addr ep) (Nla (EP_A URP_ENDPOINT_A_PEER_ADDR) (NV_addr (ep_peer_addr ep)))
    @ opt_attr (ep_has_bind_addr ep) (Nla (EP_A URP_ENDPOINT_A_BIND_ADDR) (NV_addr (ep_bind_addr ep)))
    @ [Nla (EP_A URP_ENDPOINT_A_NUM_QPS) (NV_u32 (ep_num_qps ep)),
       Nla (EP_A URP_ENDPOINT_A_BUFFER_COUNT) (NV_u32 (ep_buffer_count ep)),
       Nla (EP_A URP_ENDPOINT_A_BUFFER_SIZE) (NV_u32 (ep_buffer_size ep)),
       Nla (EP_A URP_ENDPOINT_A_STATE) (NV_u8 (ep_state_u8 (ep_state ep)))]"

definition qp_attrs :: "urp_qp \<Rightarrow> nla list" where
  "qp_attrs q =
    [Nla (QP_A URP_QP_A_INDEX) (NV_u32 (q_index q)),
     Nla (QP_A URP_QP_A_STATE)
       (NV_u8 (qp_state_u8 (if q_established q then q_health q else URP_QP_STATE_QUALIFYING)))]
    @ map (\<lambda>(a, w). Nla (QP_A a) (NV_u64 w))
        [(URP_QP_A_RTT_NS, q_rtt_ewma_ns q), (URP_QP_A_TX_BYTES, q_tx_bytes q), (URP_QP_A_RX_BYTES, q_rx_bytes q),
         (URP_QP_A_TX_FRAMES, q_tx_frames q), (URP_QP_A_RX_FRAMES, q_rx_frames q)]"

definition stream_attrs :: "u32 \<Rightarrow> urp_stream_state \<Rightarrow> u64 \<Rightarrow> u64 \<Rightarrow> u32 \<Rightarrow> u16 \<Rightarrow> u16 \<Rightarrow> nla list" where
  "stream_attrs sid st tx rx gaps loc rem =
    [Nla (STREAM_A URP_STREAM_A_ID) (NV_u32 sid), Nla (STREAM_A URP_STREAM_A_STATE) (NV_u8 (stream_state_u8 st)),
     Nla (STREAM_A URP_STREAM_A_TX_BYTES) (NV_u64 tx), Nla (STREAM_A URP_STREAM_A_RX_BYTES) (NV_u64 rx),
     Nla (STREAM_A URP_STREAM_A_REORDER_DEPTH) (NV_u32 gaps),
     Nla (STREAM_A URP_STREAM_A_CREDITS_LOCAL) (NV_u16 loc), Nla (STREAM_A URP_STREAM_A_CREDITS_REMOTE) (NV_u16 rem)]"

definition streams_attrs :: "urp_endpoint \<Rightarrow> nla list" where
  "streams_attrs ep =
    map (\<lambda>(i, s). Nla (ENTRY i) (NV_nest (stream_attrs (s_id s) (s_state s) (s_tx_bytes s) (s_rx_bytes s)
        (ro_pending_count (s_reorder s)) (send_credits (s_credit s)) (credits_to_grant (s_credit s)))))
      (enumerate 1 (shown_streams ep))
    @ opt_attr (shows_conn ep)
        (Nla (ENTRY 1) (NV_nest (stream_attrs 0 URP_STREAM_STATE_ESTABLISHED
          (stat_tx_bytes (ep_stats ep)) (stat_rx_bytes (ep_stats ep)) 0 0 0)))"

definition stats_attrs :: "urp_endpoint \<Rightarrow> nla list" where
  "stats_attrs ep =
    Nla (STATS_A URP_STATS_A_ACTIVE_STREAMS) (NV_u32 (active_streams ep))
    # map (\<lambda>(a, w). Nla (STATS_A a) (NV_u64 (w (ep_stats ep))))
        [(URP_STATS_A_TX_BYTES, stat_tx_bytes), (URP_STATS_A_RX_BYTES, stat_rx_bytes),
         (URP_STATS_A_TX_FRAMES, stat_tx_frames), (URP_STATS_A_RX_FRAMES, stat_rx_frames),
         (URP_STATS_A_CREDIT_STALLS, stat_credit_stalls), (URP_STATS_A_REORDER_INSERTIONS, stat_reorder_insertions),
         (URP_STATS_A_REORDER_DROPS, stat_reorder_drops), (URP_STATS_A_BUFFER_ALLOC_FAILS, stat_buffer_alloc_fails),
         (URP_STATS_A_AUTH_FAILURES, stat_auth_failures)]"

definition hist_attrs :: "u32 \<Rightarrow> nat \<Rightarrow> urp_hist15 \<Rightarrow> nla list" where
  "hist_attrs stride n h =
    [Nla (HIST_A URP_HIST_A_STRIDE) (NV_u32 stride),
     Nla (HIST_A URP_HIST_A_BUCKETS) (NV_u64s (map (\<lambda>b. hi_bucket h ! b) [0..<n])),
     Nla (HIST_A URP_HIST_A_SUM_NS) (NV_u64 (hi_sum_ns h)), Nla (HIST_A URP_HIST_A_COUNT) (NV_u64 (hi_count h))]"

definition verbose_attrs :: "urp_sysctl \<Rightarrow> urp_endpoint \<Rightarrow> nla list" where
  "verbose_attrs sy ep =
    [Nla (EP_A URP_ENDPOINT_A_QPS) (NV_nest (case ep_qps ep of None \<Rightarrow> []
        | Some qs \<Rightarrow> map (\<lambda>i. Nla (ENTRY (i + 1)) (NV_nest (qp_attrs (qs ! i)))) [0..<unat (ep_num_qps ep)])),
     Nla (EP_A URP_ENDPOINT_A_STREAMS) (NV_nest (streams_attrs ep)),
     Nla (EP_A URP_ENDPOINT_A_STATS) (NV_nest (stats_attrs ep))]
    @ opt_attr (sy_interarrival_hist sy \<noteq> 0)
        (Nla (EP_A URP_ENDPOINT_A_INTERARRIVAL) (NV_nest
          (map (\<lambda>i. Nla (ENTRY (i + 1)) (NV_nest (hist_attrs (urp_ia_stride (of_nat i)) 15 (ia_h (ep_interarrival ep) ! i))))
            [0..<3])))
    @ opt_attr (sy_latency_sample_period sy \<noteq> 0)
        (Nla (EP_A URP_ENDPOINT_A_OWD) (NV_nest
          [Nla (OWD_A URP_OWD_A_HIST) (NV_nest (hist_attrs 0 14 (owd_h (ep_owd ep)))),
           Nla (OWD_A URP_OWD_A_CLOCK_OFFSET_NS) (NV_u64 (ucast (sy_owd_clock_offset_ns sy))),
           Nla (OWD_A URP_OWD_A_ANOMALIES) (NV_u64 (owd_anomalies (ep_owd ep)))]))"

definition endpoint_attrs :: "urp_sysctl \<Rightarrow> urp_endpoint \<Rightarrow> bool \<Rightarrow> nla list" where
  "endpoint_attrs sy ep verbose = config_attrs ep @ (if verbose then verbose_attrs sy ep else [])"

section \<open>All or nothing\<close>

definition writes :: "writer \<Rightarrow> nla list \<Rightarrow> bool" where
  "writes w as \<longleftrightarrow> (\<forall>sk. w sk =
    (if attrs_size as \<le> sk_room sk
     then Some \<lparr> sk_room = sk_room sk - attrs_size as, sk_attrs = sk_attrs sk @ as \<rparr> else None))"

named_theorems writer_rules

lemma attrs_size_simps [simp]:
  "attrs_size [] = 0" "attrs_size (a # as) = nla_size a + attrs_size as"
  "attrs_size (as @ bs) = attrs_size as + attrs_size bs"
  by (simp_all add: attrs_size_def)

lemma nla_size_dvd: "4 dvd nla_size a"
  by (cases a) (simp add: nla_total_size_def)

lemma attrs_size_dvd: "4 dvd attrs_size as"
  by (induction as) (simp_all add: nla_size_dvd)

lemma nla_size_nest: "nla_size (Nla t (NV_nest as)) = NLA_HDRLEN + attrs_size as"
proof -
  have "4 dvd attrs_size as" by (rule attrs_size_dvd)
  then obtain k where "attrs_size as = 4 * k" by (elim dvdE)
  then show ?thesis by (simp add: nla_total_size_def NLA_HDRLEN_def attrs_size_def)
qed

lemma writes_put [writer_rules]: "writes (nla_put t v) [Nla t v]"
  by (simp add: writes_def nla_put_def not_less del: nla_size.simps)

lemma writes_none [writer_rules]: "writes Some []"
  by (simp add: writes_def)

lemma writes_nest [writer_rules]: "writes w as \<Longrightarrow> writes (nla_nest t w) [Nla t (NV_nest as)]"
  by (auto simp: writes_def nla_nest_def nla_size_nest simp del: nla_size.simps)

lemma writes_when [writer_rules]: "(b \<Longrightarrow> writes w [a]) \<Longrightarrow> writes (nl_when b w) (opt_attr b a)"
  by (simp add: nl_when_def opt_attr_def writes_none)

lemma writes_nil [writer_rules]: "writes (nl_all []) []"
  by (simp add: writes_def)

lemma writes_cons: "writes w as \<Longrightarrow> writes (nl_all ws) bs \<Longrightarrow> writes (nl_all (w # ws)) (as @ bs)"
  by (auto simp: writes_def split: option.split)

lemma writes_cons1 [writer_rules]: "writes w [a] \<Longrightarrow> writes (nl_all ws) bs \<Longrightarrow> writes (nl_all (w # ws)) (a # bs)"
  using writes_cons[of w "[a]" ws bs] by simp

lemma writes_map [writer_rules]:
  "(\<And>x. x \<in> set xs \<Longrightarrow> writes (f x) [g x]) \<Longrightarrow> writes (nl_all (map f xs)) (map g xs)"
  by (induction xs) (simp_all add: writes_nil writes_cons1)

lemma nl_all_append: "nl_all (ws @ vs) sk = (case nl_all ws sk of None \<Rightarrow> None | Some sk \<Rightarrow> nl_all vs sk)"
  by (induction ws arbitrary: sk) (simp_all split: option.split)

lemma writes_append: "writes (nl_all ws) as \<Longrightarrow> writes (nl_all vs) bs \<Longrightarrow> writes (nl_all (ws @ vs)) (as @ bs)"
  by (auto simp: writes_def nl_all_append split: option.split)

lemma writes_last: "writes w as \<Longrightarrow> writes (nl_all [w]) as"
  using writes_cons[OF _ writes_nil, of w as] by simp

lemma fill_config_writes: "writes (fill_config ep) (config_attrs ep)"
  unfolding fill_config_def config_attrs_def by (intro writes_cons writer_rules)

lemma fill_qp_writes [writer_rules]: "writes (fill_qp q) (qp_attrs q)"
  unfolding fill_qp_def qp_attrs_def list.map prod.case append.simps by (intro writer_rules)

lemma fill_stream_writes [writer_rules]:
  "writes (fill_stream s) (stream_attrs (s_id s) (s_state s) (s_tx_bytes s) (s_rx_bytes s)
        (ro_pending_count (s_reorder s)) (send_credits (s_credit s)) (credits_to_grant (s_credit s)))"
  unfolding fill_stream_def stream_attrs_def urp_reorder_gap_count_def option.case by (intro writer_rules)

lemma fill_conn_writes [writer_rules]:
  "writes (fill_conn ep) (stream_attrs 0 URP_STREAM_STATE_ESTABLISHED
     (stat_tx_bytes (ep_stats ep)) (stat_rx_bytes (ep_stats ep)) 0 0 0)"
  unfolding fill_conn_def stream_attrs_def by (intro writer_rules)

lemma fill_hist_writes [writer_rules]: "writes (fill_hist stride n h) (hist_attrs stride n h)"
  unfolding fill_hist_def hist_attrs_def by (intro writer_rules)

lemma fill_qps_writes [writer_rules]:
  "writes (fill_qps ep) [Nla (EP_A URP_ENDPOINT_A_QPS) (NV_nest (case ep_qps ep of None \<Rightarrow> []
        | Some qs \<Rightarrow> map (\<lambda>i. Nla (ENTRY (i + 1)) (NV_nest (qp_attrs (qs ! i)))) [0..<unat (ep_num_qps ep)]))]"
  unfolding fill_qps_def by (cases "ep_qps ep") (simp_all only: option.case, (intro writer_rules)+)

lemma fill_streams_writes [writer_rules]:
  "writes (fill_streams ep) [Nla (EP_A URP_ENDPOINT_A_STREAMS) (NV_nest (streams_attrs ep))]"
  unfolding fill_streams_def streams_attrs_def
  by (intro writes_nest writes_append writes_map writes_last writes_when) (auto intro: writer_rules)

lemma fill_stats_writes [writer_rules]:
  "writes (fill_stats ep) [Nla (EP_A URP_ENDPOINT_A_STATS) (NV_nest (stats_attrs ep))]"
  unfolding fill_stats_def stats_attrs_def list.map prod.case by (intro writer_rules)

lemma fill_interarrival_writes [writer_rules]:
  "writes (fill_interarrival ep) [Nla (EP_A URP_ENDPOINT_A_INTERARRIVAL) (NV_nest
     (map (\<lambda>i. Nla (ENTRY (i + 1)) (NV_nest (hist_attrs (urp_ia_stride (of_nat i)) 15 (ia_h (ep_interarrival ep) ! i))))
       [0..<3]))]"
proof -
  have "unat URP_HIST_NBUCKETS = 15" "unat URP_IA_NSTRIDES = 3"
    by (simp_all add: URP_HIST_NBUCKETS_def URP_IA_NSTRIDES_def)
  then show ?thesis unfolding fill_interarrival_def by (simp only:) (intro writer_rules)
qed

lemma fill_owd_writes [writer_rules]:
  "writes (fill_owd sy ep) [Nla (EP_A URP_ENDPOINT_A_OWD) (NV_nest
     [Nla (OWD_A URP_OWD_A_HIST) (NV_nest (hist_attrs 0 14 (owd_h (ep_owd ep)))),
      Nla (OWD_A URP_OWD_A_CLOCK_OFFSET_NS) (NV_u64 (ucast (sy_owd_clock_offset_ns sy))),
      Nla (OWD_A URP_OWD_A_ANOMALIES) (NV_u64 (owd_anomalies (ep_owd ep)))])]"
proof -
  have "unat URP_OWD_NBUCKETS = 14" by (simp add: URP_OWD_NBUCKETS_def)
  then show ?thesis unfolding fill_owd_def by (simp only:) (intro writer_rules)
qed

lemma fill_verbose_writes: "writes (fill_verbose sy ep) (verbose_attrs sy ep)"
  unfolding fill_verbose_def verbose_attrs_def append.simps
  by (intro writes_cons1 writes_cons writes_last writes_when fill_qps_writes fill_streams_writes fill_stats_writes
      fill_interarrival_writes fill_owd_writes)

lemma fill_endpoint_writes:
  "writes (urp_fill_endpoint sy ep verbose) [Nla URP_A_ENDPOINT (NV_nest (endpoint_attrs sy ep verbose))]"
proof -
  have "writes (nl_when verbose (fill_verbose sy ep)) (if verbose then verbose_attrs sy ep else [])"
    by (simp add: nl_when_def fill_verbose_writes writes_none)
  then show ?thesis unfolding urp_fill_endpoint_def endpoint_attrs_def
    by (intro writes_nest writes_cons fill_config_writes writes_last)
qed

lemma fill_endpoint_eq:
  "urp_fill_endpoint sy ep verbose sk =
    (if NLA_HDRLEN + attrs_size (endpoint_attrs sy ep verbose) \<le> sk_room sk
     then Some \<lparr> sk_room = sk_room sk - (NLA_HDRLEN + attrs_size (endpoint_attrs sy ep verbose)),
       sk_attrs = sk_attrs sk @ [Nla URP_A_ENDPOINT (NV_nest (endpoint_attrs sy ep verbose))] \<rparr>
     else None)"
  using fill_endpoint_writes[of sy ep verbose] by (simp add: writes_def nla_size_nest del: nla_size.simps)

end
