(* ===== verification/Urp_Netlink.thy ===== *)
theory Urp_Netlink
  imports Urp_Netlink_Msg "HOL-Library.Sublist"
begin

text \<open>
  The commands of the generic netlink family (kernel/urp\_netlink.c): creating, removing, changing
  and showing endpoints, the dump of the table and the events.  The kernel runs the commands of the
  family one at a time.  Parsing a message against a policy is the kernel's: it is a parameter, with
  the named hypothesis that what it accepts obeys the policy.
\<close>

section \<open>Policy and requests\<close>

definition URP_NAME_MAX :: nat where "URP_NAME_MAX = 16"
definition URP_DEVICE_MAX :: nat where "URP_DEVICE_MAX = 64"
definition URP_PASSWORD_MAX :: nat where "URP_PASSWORD_MAX = 16"

datatype nla_policy = NLA_UNSPEC | NLA_NUL_STRING nat | NLA_ADDR | NLA_U32_RANGE u32 u32 | NLA_U8_RANGE u8 u8

definition urp_endpoint_policy :: "urp_endpoint_attr \<Rightarrow> nla_policy" where
  "urp_endpoint_policy a =
    (case a of
       URP_ENDPOINT_A_NAME \<Rightarrow> NLA_NUL_STRING (URP_NAME_MAX - 1)
     | URP_ENDPOINT_A_LISTEN_PATH \<Rightarrow> NLA_NUL_STRING (URP_PATH_MAX_LEN - 1)
     | URP_ENDPOINT_A_CONNECT_PATH \<Rightarrow> NLA_NUL_STRING (URP_PATH_MAX_LEN - 1)
     | URP_ENDPOINT_A_RDMA_DEVICE \<Rightarrow> NLA_NUL_STRING (URP_DEVICE_MAX - 1)
     | URP_ENDPOINT_A_PEER_ADDR \<Rightarrow> NLA_ADDR
     | URP_ENDPOINT_A_BIND_ADDR \<Rightarrow> NLA_ADDR
     | URP_ENDPOINT_A_NUM_QPS \<Rightarrow> NLA_U32_RANGE URP_NUM_QPS_MIN URP_NUM_QPS_MAX
     | URP_ENDPOINT_A_BUFFER_COUNT \<Rightarrow> NLA_U32_RANGE URP_BUFFER_COUNT_MIN URP_BUFFER_COUNT_MAX
     | URP_ENDPOINT_A_BUFFER_SIZE \<Rightarrow> NLA_U32_RANGE URP_BUFFER_SIZE_MIN URP_BUFFER_SIZE_MAX
     | URP_ENDPOINT_A_PASSWORD \<Rightarrow> NLA_NUL_STRING (URP_PASSWORD_MAX - 1)
     | URP_ENDPOINT_A_STATE \<Rightarrow> NLA_U8_RANGE 0 3
     | URP_ENDPOINT_A_MODE \<Rightarrow> NLA_U8_RANGE 0 1
     | URP_ENDPOINT_A_KIND \<Rightarrow> NLA_U8_RANGE 0 1
     | _ \<Rightarrow> NLA_UNSPEC)"

text \<open>
  A parsed request maps each attribute to its value.  Strings stand for their characters before the
  terminating NUL.
\<close>

type_synonym nl_request = "urp_endpoint_attr \<Rightarrow> nla_value option"

definition policy_accepts :: "nla_policy \<Rightarrow> nla_value \<Rightarrow> bool" where
  "policy_accepts p v =
    (case (p, v) of
       (NLA_NUL_STRING n, NV_string s) \<Rightarrow> length s \<le> n
     | (NLA_ADDR, NV_addr _) \<Rightarrow> True
     | (NLA_U32_RANGE lo hi, NV_u32 w) \<Rightarrow> lo \<le> w \<and> w \<le> hi
     | (NLA_U8_RANGE lo hi, NV_u8 w) \<Rightarrow> lo \<le> w \<and> w \<le> hi
     | _ \<Rightarrow> False)"

text \<open>
  What the kernel provides to a handler: the parser, whether the scratch for the configuration can be
  allocated, the room of a new message if it can be, and the outcome of sending a reply.
\<close>

record genl_env =
  ge_parse :: "(urp_endpoint_attr \<Rightarrow> nla_policy) \<Rightarrow> bytes \<Rightarrow> nl_request result"
  ge_cfg_alloc :: bool
  ge_msg_room :: "nat option"
  ge_reply :: "nla list \<Rightarrow> errno option"

definition parse_obeys_policy :: "genl_env \<Rightarrow> bool" where
  "parse_obeys_policy ge \<longleftrightarrow>
    (\<forall>pol raw tb a v. ge_parse ge pol raw = Inr tb \<and> tb a = Some v \<longrightarrow> policy_accepts (pol a) v)"

definition urp_parse_endpoint :: "genl_env \<Rightarrow> bytes option \<Rightarrow> nl_request result" where
  "urp_parse_endpoint ge outer =
    (case outer of None \<Rightarrow> Inl EINVAL | Some raw \<Rightarrow> ge_parse ge urp_endpoint_policy raw)"

definition nla_strscpy :: "nla_value \<Rightarrow> nat \<Rightarrow> string" where
  "nla_strscpy v n = take (n - 1) (case v of NV_string s \<Rightarrow> s | _ \<Rightarrow> [])"

definition nla_get_u32 :: "nla_value \<Rightarrow> u32" where
  "nla_get_u32 v = (case v of NV_u32 w \<Rightarrow> w | _ \<Rightarrow> 0)"

definition nla_get_u8 :: "nla_value \<Rightarrow> u8" where
  "nla_get_u8 v = (case v of NV_u8 w \<Rightarrow> w | _ \<Rightarrow> 0)"

definition sockaddr_zero :: sockaddr_in6 where
  "sockaddr_zero = \<lparr> sin6_inet6 = False, sin6_port = 0, sin6_addr = replicate 16 0 \<rparr>"

definition nla_addr :: "nla_value \<Rightarrow> sockaddr_in6" where
  "nla_addr v = (case v of NV_addr a \<Rightarrow> a | _ \<Rightarrow> sockaddr_zero)"

definition tb_string :: "nl_request \<Rightarrow> urp_endpoint_attr \<Rightarrow> nat \<Rightarrow> string" where
  "tb_string tb a n = (case tb a of None \<Rightarrow> [] | Some v \<Rightarrow> nla_strscpy v n)"

definition tb_name :: "nl_request \<Rightarrow> string" where
  "tb_name tb = tb_string tb URP_ENDPOINT_A_NAME URP_NAME_MAX"

text \<open>
  The preamble of the commands: parse and require a name, and when asked for look the endpoint up
  and take a reference.  An endpoint pointer is the endpoint's name.
\<close>

definition urp_genl_lookup_by_name ::
    "genl_env \<Rightarrow> bytes option \<Rightarrow> bool \<Rightarrow> urp_module \<Rightarrow> nl_request result \<times> urp_module" where
  "urp_genl_lookup_by_name ge outer want_ep m =
    (case urp_parse_endpoint ge outer of
       Inl e \<Rightarrow> (Inl e, m)
     | Inr tb \<Rightarrow>
         if tb URP_ENDPOINT_A_NAME = None then (Inl EINVAL, m)
         else if want_ep then
           (case urp_endpoint_get (tb_name tb) m of
              (None, m) \<Rightarrow> (Inl ENOENT, m)
            | (Some _, m) \<Rightarrow> (Inr tb, m))
         else (Inr tb, m))"

section \<open>Creating and removing\<close>

definition password_bytes :: "string \<Rightarrow> bytes" where
  "password_bytes s = map of_char s @ replicate (URP_PASSWORD_MAX - length s) 0"

definition new_config :: "nl_request \<Rightarrow> urp_ep_config" where
  "new_config tb =
    \<lparr> ep_name = tb_name tb,
      ep_listen_path = tb_string tb URP_ENDPOINT_A_LISTEN_PATH URP_PATH_MAX_LEN,
      ep_connect_path = tb_string tb URP_ENDPOINT_A_CONNECT_PATH URP_PATH_MAX_LEN,
      ep_rdma_device = tb_string tb URP_ENDPOINT_A_RDMA_DEVICE URP_DEVICE_MAX,
      ep_peer_addr = (case tb URP_ENDPOINT_A_PEER_ADDR of None \<Rightarrow> sockaddr_zero | Some v \<Rightarrow> nla_addr v),
      ep_bind_addr = (case tb URP_ENDPOINT_A_BIND_ADDR of None \<Rightarrow> sockaddr_zero | Some v \<Rightarrow> nla_addr v),
      ep_has_peer_addr = (tb URP_ENDPOINT_A_PEER_ADDR \<noteq> None),
      ep_has_bind_addr = (tb URP_ENDPOINT_A_BIND_ADDR \<noteq> None),
      ep_num_qps = (case tb URP_ENDPOINT_A_NUM_QPS of None \<Rightarrow> 0 | Some v \<Rightarrow> nla_get_u32 v),
      ep_buffer_count = (case tb URP_ENDPOINT_A_BUFFER_COUNT of None \<Rightarrow> 0 | Some v \<Rightarrow> nla_get_u32 v),
      ep_buffer_size = (case tb URP_ENDPOINT_A_BUFFER_SIZE of None \<Rightarrow> 0 | Some v \<Rightarrow> nla_get_u32 v),
      ep_mode = (case tb URP_ENDPOINT_A_MODE of None \<Rightarrow> URP_EP_MODE_MULTISTREAM
                 | Some v \<Rightarrow> if nla_get_u8 v = 1 then URP_EP_MODE_K0 else URP_EP_MODE_MULTISTREAM),
      ep_kind = (case tb URP_ENDPOINT_A_KIND of None \<Rightarrow> URP_EP_KIND_UDS
                 | Some v \<Rightarrow> if nla_get_u8 v = 1 then URP_EP_KIND_FAST else URP_EP_KIND_UDS),
      ep_password = password_bytes (tb_string tb URP_ENDPOINT_A_PASSWORD URP_PASSWORD_MAX),
      ep_password_hash = replicate URP_PSK_HASH_LEN 0,
      ep_has_password = (tb URP_ENDPOINT_A_PASSWORD \<noteq> None),
      ep_auth_priv = [], ep_conn_priv = [], ep_auth_len = 0 \<rparr>"

definition new_activate :: "env \<Rightarrow> string \<Rightarrow> urp_module \<Rightarrow> errno option \<times> urp_module" where
  "new_activate ev name m =
    (case ht_lookup (um_endpoints m) name of
       None \<Rightarrow> (None, m)
     | Some ep \<Rightarrow>
         (case urp_endpoint_activate ev ep of
            (Some e, ep) \<Rightarrow> (Some e, put_gone (urp_endpoint_remove ev name (upd_ep name (\<lambda>_. ep) m)))
          | (None, ep) \<Rightarrow> (None, upd_ep name (\<lambda>_. urp_endpoint_put ep) m)))"

definition urp_new_endpoint_doit :: "env \<Rightarrow> genl_env \<Rightarrow> bytes option \<Rightarrow> urp_module \<Rightarrow> errno option \<times> urp_module" where
  "urp_new_endpoint_doit ev ge outer m =
    (case urp_genl_lookup_by_name ge outer False m of
       (Inl e, m) \<Rightarrow> (Some e, m)
     | (Inr tb, m) \<Rightarrow>
         if \<not> ge_cfg_alloc ge then (Some ENOMEM, m)
         else case urp_endpoint_create ev (new_config tb) m of
           (Some e, m) \<Rightarrow> (Some e, m)
         | (None, m) \<Rightarrow> new_activate ev (tb_name tb) m)"

definition urp_del_endpoint_doit :: "env \<Rightarrow> genl_env \<Rightarrow> bytes option \<Rightarrow> urp_module \<Rightarrow> errno option \<times> urp_module" where
  "urp_del_endpoint_doit ev ge outer m =
    (case urp_genl_lookup_by_name ge outer True m of
       (Inl e, m) \<Rightarrow> (Some e, m)
     | (Inr tb, m) \<Rightarrow> (None, put_gone (urp_endpoint_remove ev (tb_name tb) m)))"

section \<open>Changing\<close>

definition urp_set_sizing_u32 :: "urp_endpoint \<Rightarrow> nla_value option \<Rightarrow> u32 \<Rightarrow> u32 result" where
  "urp_set_sizing_u32 ep attr field =
    (case attr of
       None \<Rightarrow> Inr field
     | Some v \<Rightarrow> if ep_qps ep \<noteq> None \<and> nla_get_u32 v \<noteq> field then Inl EBUSY else Inr (nla_get_u32 v))"

definition set_locked :: "nl_request \<Rightarrow> urp_endpoint \<Rightarrow> errno option \<times> urp_endpoint" where
  "set_locked tb ep =
    (case urp_set_sizing_u32 ep (tb URP_ENDPOINT_A_NUM_QPS) (ep_num_qps ep) of
       Inl e \<Rightarrow> (Some e, ep)
     | Inr n \<Rightarrow>
         let ep = ep\<lparr>ep_num_qps := n\<rparr>
         in case urp_set_sizing_u32 ep (tb URP_ENDPOINT_A_BUFFER_COUNT) (ep_buffer_count ep) of
              Inl e \<Rightarrow> (Some e, ep)
            | Inr c \<Rightarrow>
                let ep = ep\<lparr>ep_buffer_count := c\<rparr>
                in (None, case tb URP_ENDPOINT_A_PASSWORD of
                            None \<Rightarrow> ep
                          | Some v \<Rightarrow> ep\<lparr>ep_password := password_bytes (nla_strscpy v URP_PASSWORD_MAX),
                                        ep_has_password := True\<rparr>))"

definition set_endpoint :: "env \<Rightarrow> nl_request \<Rightarrow> urp_endpoint \<Rightarrow> errno option \<times> urp_endpoint" where
  "set_endpoint ev tb ep =
    (case tb URP_ENDPOINT_A_STATE of
       Some v \<Rightarrow>
         if nla_get_u8 v \<noteq> ep_state_u8 URP_STATE_DRAINING then (Some EINVAL, ep)
         else (case set_locked tb ep of
                 (Some e, ep) \<Rightarrow> (Some e, ep)
               | (None, ep) \<Rightarrow> (None, urp_endpoint_drain ev ep))
     | None \<Rightarrow> set_locked tb ep)"

definition urp_set_endpoint_doit :: "env \<Rightarrow> genl_env \<Rightarrow> bytes option \<Rightarrow> urp_module \<Rightarrow> errno option \<times> urp_module" where
  "urp_set_endpoint_doit ev ge outer m =
    (case urp_genl_lookup_by_name ge outer True m of
       (Inl e, m) \<Rightarrow> (Some e, m)
     | (Inr tb, m) \<Rightarrow>
         (case ht_lookup (um_endpoints m) (tb_name tb) of
            None \<Rightarrow> (None, m)
          | Some ep \<Rightarrow>
              (case set_endpoint ev tb ep of
                 (r, ep) \<Rightarrow> (r, upd_ep (tb_name tb) (\<lambda>_. urp_endpoint_put ep) m))))"

section \<open>Showing\<close>

text \<open>The headers of a netlink message and of the family take twenty bytes.\<close>

definition GENL_MSG_HDR :: nat where "GENL_MSG_HDR = 20"

definition endpoint_message :: "urp_sysctl \<Rightarrow> nat \<Rightarrow> urp_endpoint \<Rightarrow> bool \<Rightarrow> sk_buff option" where
  "endpoint_message sy room ep verbose =
    (if room < GENL_MSG_HDR then None
     else urp_fill_endpoint sy ep verbose \<lparr> sk_room = room - GENL_MSG_HDR, sk_attrs = [] \<rparr>)"

definition get_reply :: "env \<Rightarrow> genl_env \<Rightarrow> urp_endpoint \<Rightarrow> errno option \<times> nla list option" where
  "get_reply ev ge ep =
    (case ge_msg_room ge of
       None \<Rightarrow> (Some ENOMEM, None)
     | Some room \<Rightarrow>
         (case endpoint_message (ev_sysctl ev) room ep True of
            None \<Rightarrow> (Some EMSGSIZE, None)
          | Some sk \<Rightarrow> (ge_reply ge (sk_attrs sk), Some (sk_attrs sk))))"

definition urp_get_endpoint_doit ::
    "env \<Rightarrow> genl_env \<Rightarrow> bytes option \<Rightarrow> urp_module \<Rightarrow> (errno option \<times> nla list option) \<times> urp_module" where
  "urp_get_endpoint_doit ev ge outer m =
    (case urp_genl_lookup_by_name ge outer True m of
       (Inl e, m) \<Rightarrow> ((Some e, None), m)
     | (Inr tb, m) \<Rightarrow>
         (case ht_lookup (um_endpoints m) (tb_name tb) of
            None \<Rightarrow> ((None, None), m)
          | Some ep \<Rightarrow> (get_reply ev ge ep, upd_ep (tb_name tb) urp_endpoint_put m)))"

text \<open>
  A dump walks the table.  The walk belongs to the kernel's hash table: each call gives the next
  endpoint, an error, or the end.  The error EAGAIN says that the table was resized and that the walk
  has started again from its beginning, so that an endpoint may come a second time.  A walk that is
  stopped and started again goes on behind what it gave last.  The state of a dump is what the coming
  calls give; a walk over a table is described by the positions it visits and the errors between them.
\<close>

datatype 'e walk_item = W_obj 'e | W_err errno

definition walk_table :: "(string \<times> 'e) list \<Rightarrow> (errno + nat) list \<Rightarrow> 'e walk_item list" where
  "walk_table t visits = concat (map (\<lambda>x. case x of
       Inl e \<Rightarrow> [W_err e]
     | Inr i \<Rightarrow> if i < length t then [W_obj (snd (t ! i))] else []) visits)"

definition urp_get_endpoint_start ::
    "bool \<Rightarrow> (errno + nat) list \<Rightarrow> urp_module \<Rightarrow> urp_endpoint walk_item list result" where
  "urp_get_endpoint_start ctx_alloc visits m =
    (if \<not> um_endpoints_inited m then Inl ENODEV
     else if \<not> ctx_alloc then Inl ENOMEM
     else Inr (walk_table (um_endpoints m) visits))"

primrec dump_loop ::
    "urp_sysctl \<Rightarrow> urp_endpoint walk_item list \<Rightarrow> nat \<Rightarrow> errno option \<times> nla list list \<times> urp_endpoint walk_item list" where
  "dump_loop sy [] room = (None, [], [])"
| "dump_loop sy (w # ws) room =
    (case w of
       W_err e \<Rightarrow> if e = EAGAIN then dump_loop sy ws room else (Some e, [], ws)
     | W_obj ep \<Rightarrow>
         (case endpoint_message sy room ep False of
            None \<Rightarrow> (Some EMSGSIZE, [], ws)
          | Some sk \<Rightarrow>
              (case dump_loop sy ws (sk_room sk) of (r, ms, rest) \<Rightarrow> (r, sk_attrs sk # ms, rest))))"

text \<open>The error returned, none for the length of the buffer; the messages in the buffer; the walk that is left.\<close>

definition urp_get_endpoint_dumpit ::
    "urp_sysctl \<Rightarrow> urp_endpoint walk_item list option \<Rightarrow> nat
      \<Rightarrow> errno option \<times> nla list list \<times> urp_endpoint walk_item list" where
  "urp_get_endpoint_dumpit sy ctx room =
    (case ctx of
       None \<Rightarrow> (Some EINVAL, [], [])
     | Some ws \<Rightarrow>
         (case dump_loop sy ws room of
            (r, ms, rest) \<Rightarrow> (if r = Some EMSGSIZE then None else r, ms, rest)))"

text \<open>
  The netlink core calls the dump with one buffer after the other until one stays empty or the dump
  fails; what is in the buffer is sent in any case.
\<close>

primrec dump_run :: "urp_sysctl \<Rightarrow> urp_endpoint walk_item list \<Rightarrow> nat list \<Rightarrow> nla list list" where
  "dump_run sy ws [] = []"
| "dump_run sy ws (room # rooms) =
    (case urp_get_endpoint_dumpit sy (Some ws) room of
       (r, ms, rest) \<Rightarrow> if r \<noteq> None \<or> ms = [] then ms else ms @ dump_run sy rest rooms)"

definition urp_send_event :: "urp_sysctl \<Rightarrow> bool \<Rightarrow> nat option \<Rightarrow> urp_endpoint \<Rightarrow> nla list option" where
  "urp_send_event sy registered msg_room ep =
    (if \<not> registered then None
     else case msg_room of
       None \<Rightarrow> None
     | Some room \<Rightarrow> map_option sk_attrs (endpoint_message sy room ep False))"

section \<open>Dispatch\<close>

datatype urp_cmd = URP_CMD_NEW_ENDPOINT | URP_CMD_DEL_ENDPOINT | URP_CMD_SET_ENDPOINT | URP_CMD_GET_ENDPOINT

definition EPERM :: errno where "EPERM = EOTHER 1"

definition genl_admin_perm :: "urp_cmd \<Rightarrow> bool" where
  "genl_admin_perm cmd \<longleftrightarrow> cmd \<noteq> URP_CMD_GET_ENDPOINT"

definition urp_genl_ops ::
    "env \<Rightarrow> genl_env \<Rightarrow> bool \<Rightarrow> urp_cmd \<Rightarrow> bytes option \<Rightarrow> urp_module \<Rightarrow> (errno option \<times> nla list option) \<times> urp_module" where
  "urp_genl_ops ev ge net_admin cmd outer m =
    (if genl_admin_perm cmd \<and> \<not> net_admin then ((Some EPERM, None), m)
     else case cmd of
       URP_CMD_NEW_ENDPOINT \<Rightarrow> (case urp_new_endpoint_doit ev ge outer m of (r, m) \<Rightarrow> ((r, None), m))
     | URP_CMD_DEL_ENDPOINT \<Rightarrow> (case urp_del_endpoint_doit ev ge outer m of (r, m) \<Rightarrow> ((r, None), m))
     | URP_CMD_SET_ENDPOINT \<Rightarrow> (case urp_set_endpoint_doit ev ge outer m of (r, m) \<Rightarrow> ((r, None), m))
     | URP_CMD_GET_ENDPOINT \<Rightarrow> urp_get_endpoint_doit ev ge outer m)"

section \<open>The table between commands\<close>

text \<open>
  Between commands every endpoint of the table is stored under its name and referenced by the table
  only, and those that left the table are stopped and not referenced at all.
\<close>

definition freed :: "urp_endpoint \<Rightarrow> bool" where
  "freed ep \<longleftrightarrow> ep_refcount ep = 0 \<and> ep_state ep = URP_STATE_STOPPED"

definition module_ok :: "urp_module \<Rightarrow> bool" where
  "module_ok m \<longleftrightarrow> um_endpoints_inited m \<and> ht_inv (um_endpoints m)
    \<and> (\<forall>name ep. ht_lookup (um_endpoints m) name = Some ep \<longrightarrow> ep_name ep = name \<and> ep_refcount ep = 1)
    \<and> (\<forall>ep\<in>set (um_gone m). freed ep)"

lemma ht_update_same: "ht_inv t \<Longrightarrow> ht_lookup t k = Some v \<Longrightarrow> ht_update t k (\<lambda>_. v) = t"
proof (induction t)
  case (Cons e t)
  have d: "ht_inv t" "fst e \<notin> fst ` set t" using Cons.prems(1) by (simp_all add: ht_inv_def)
  show ?case
  proof (cases "fst e = k")
    case True
    then have "snd e = v" "k \<notin> fst ` set t" using Cons.prems(2) d(2) by (auto simp: ht_lookup_def)
    moreover from this have "ht_update t k (\<lambda>_. v) = t" by (force simp: ht_update_def intro: map_idI)
    ultimately show ?thesis using True by (cases e) (simp add: ht_update_def)
  next
    case False
    then have "ht_lookup t k = Some v" using Cons.prems(2) by (cases e) (simp add: ht_lookup_def)
    then show ?thesis using Cons.IH d(1) False by (simp add: ht_update_def)
  qed
qed (simp add: ht_lookup_def)

lemma ht_update_absent: "ht_lookup t k = None \<Longrightarrow> ht_update t k f = t"
  unfolding ht_update_def ht_lookup_def by (rule map_idI) (auto simp: map_of_eq_None_iff image_iff)

lemma upd_ep_same: "ht_inv (um_endpoints m) \<Longrightarrow> ht_lookup (um_endpoints m) name = Some ep \<Longrightarrow> upd_ep name (\<lambda>_. ep) m = m"
  by (simp add: upd_ep_def ht_update_same)

lemma upd_ep_twice: "upd_ep name f (upd_ep name g m) = upd_ep name (f \<circ> g) m"
  by (simp add: upd_ep_def ht_update_def)

lemma upd_ep_lookup:
  "ht_lookup (um_endpoints (upd_ep name f m)) = (ht_lookup (um_endpoints m))(name := map_option f (ht_lookup (um_endpoints m) name))"
  by (simp add: upd_ep_def ht_lookup_update)

lemma upd_ep_fields: "um_endpoints_inited (upd_ep name f m) = um_endpoints_inited m" "um_gone (upd_ep name f m) = um_gone m"
    "ht_inv (um_endpoints (upd_ep name f m)) = ht_inv (um_endpoints m)"
  by (simp_all add: upd_ep_def ht_inv_def fst_ht_update)

lemma module_ok_upd:
  assumes "module_ok m" "ep_name ep = name" "ep_refcount ep = 1"
  shows "module_ok (upd_ep name (\<lambda>_. ep) m)"
  using assms by (auto simp: module_ok_def upd_ep_fields upd_ep_lookup)

lemma module_ok_ref: "module_ok m \<Longrightarrow> ht_lookup (um_endpoints m) name = Some ep \<Longrightarrow> ep_refcount ep = 1 \<and> ep_name ep = name"
  by (simp add: module_ok_def)

text \<open>The preamble with a lookup fails and changes nothing, or takes a second reference.\<close>

lemma lookup_by_name_cases:
  assumes "module_ok m"
  obtains (refused) e where "urp_genl_lookup_by_name ge outer True m = (Inl e, m)"
  | (found) tb ep where "urp_parse_endpoint ge outer = Inr tb" "ht_lookup (um_endpoints m) (tb_name tb) = Some ep"
      "urp_genl_lookup_by_name ge outer True m = (Inr tb, upd_ep (tb_name tb) (\<lambda>_. ep\<lparr>ep_refcount := 2\<rparr>) m)"
proof (cases "urp_parse_endpoint ge outer")
  case (Inl e)
  then show ?thesis by (intro refused[of e]) (simp add: urp_genl_lookup_by_name_def)
next
  case (Inr tb)
  show ?thesis
  proof (cases "tb URP_ENDPOINT_A_NAME = None \<or> ht_lookup (um_endpoints m) (tb_name tb) = None")
    case True
    then have "\<exists>e. urp_genl_lookup_by_name ge outer True m = (Inl e, m)"
      using Inr by (auto simp: urp_genl_lookup_by_name_def urp_endpoint_get_def urp_endpoint_lookup_def)
    then show ?thesis using refused by (elim exE)
  next
    case False
    then obtain ep where ep: "ht_lookup (um_endpoints m) (tb_name tb) = Some ep" by blast
    have "ep_refcount ep = 1" "um_endpoints_inited m" using assms ep by (simp_all add: module_ok_def)
    then have "urp_genl_lookup_by_name ge outer True m = (Inr tb, upd_ep (tb_name tb) (\<lambda>_. ep\<lparr>ep_refcount := 2\<rparr>) m)"
      using Inr False ep by (simp add: urp_genl_lookup_by_name_def urp_endpoint_get_def urp_endpoint_lookup_def Let_def
          numeral_2_eq_2)
    then show ?thesis by (rule found[OF Inr ep])
  qed
qed

lemma put_second: "ep_refcount ep = 2 \<Longrightarrow> urp_endpoint_put ep = ep\<lparr>ep_refcount := 1\<rparr>"
  by (simp add: urp_endpoint_put_def Let_def)

lemma put_freed: "ep_refcount ep = 1 \<Longrightarrow> ep_refcount (urp_endpoint_put ep) = 0"
  by (simp add: urp_endpoint_put_def urp_endpoint_rcu_free_def log_ext_def Let_def)

section \<open>Showing changes nothing\<close>

lemma get_leaves_module:
  assumes ok: "module_ok m"
  shows "snd (urp_get_endpoint_doit ev ge outer m) = m"
  using ok
proof (cases rule: lookup_by_name_cases[of m ge outer])
  case (found tb ep)
  have "urp_endpoint_put (ep\<lparr>ep_refcount := 2\<rparr>) = ep"
    using module_ok_ref[OF ok found(2)] by (simp add: put_second)
  moreover have "ht_inv (um_endpoints m)" using ok by (simp add: module_ok_def)
  ultimately show ?thesis using found upd_ep_same[of m "tb_name tb" ep]
    by (simp add: urp_get_endpoint_doit_def upd_ep_lookup upd_ep_twice comp_def)
qed (simp_all add: urp_get_endpoint_doit_def)

section \<open>Changing\<close>

lemma sizing_active:
  "ep_qps ep \<noteq> None \<Longrightarrow> urp_set_sizing_u32 ep a f = Inr f \<or> urp_set_sizing_u32 ep a f = Inl EBUSY"
  by (auto simp: urp_set_sizing_u32_def split: option.split)

lemma sizing_inactive: "ep_qps ep = None \<Longrightarrow> \<exists>w. urp_set_sizing_u32 ep a f = Inr w"
  by (auto simp: urp_set_sizing_u32_def split: option.split)

lemma set_locked_base:
  "set_locked tb ep = (r, ep') \<Longrightarrow> ep_refcount ep' = ep_refcount ep \<and> ep_name ep' = ep_name ep"
  by (auto simp: set_locked_def Let_def split: sum.splits option.splits)

lemma set_locked_error:
  assumes "set_locked tb ep = (Some e, ep')"
  shows "ep' = ep"
proof (cases "ep_qps ep")
  case None
  then obtain n where n: "urp_set_sizing_u32 ep (tb URP_ENDPOINT_A_NUM_QPS) (ep_num_qps ep) = Inr n"
    using sizing_inactive by blast
  obtain c where "urp_set_sizing_u32 (ep\<lparr>ep_num_qps := n\<rparr>) (tb URP_ENDPOINT_A_BUFFER_COUNT) (ep_buffer_count ep) = Inr c"
    using sizing_inactive[of "ep\<lparr>ep_num_qps := n\<rparr>"] None by fastforce
  then show ?thesis using assms n by (simp add: set_locked_def Let_def)
next
  case (Some qs)
  then show ?thesis using assms sizing_active[of ep "tb URP_ENDPOINT_A_NUM_QPS" "ep_num_qps ep"]
    by (auto simp: set_locked_def Let_def split: sum.splits)
qed

lemma set_endpoint_base:
  assumes "set_endpoint ev tb ep = (r, ep')"
  shows "ep_refcount ep' = ep_refcount ep \<and> ep_name ep' = ep_name ep"
proof -
  obtain r1 ep1 where 1: "set_locked tb ep = (r1, ep1)" by force
  have d: "ep_refcount (urp_endpoint_drain ev ep1) = ep_refcount ep1 \<and> ep_name (urp_endpoint_drain ev ep1) = ep_name ep1"
    using base_of_eq[OF base_drain[of ev ep1]] by (simp add: urp_ep_config.truncate_def)
  show ?thesis using assms 1 d set_locked_base[OF 1]
    by (auto simp: set_endpoint_def split: option.splits if_splits)
qed

lemma set_endpoint_error: "set_endpoint ev tb ep = (Some e, ep') \<Longrightarrow> ep' = ep"
  by (auto simp: set_endpoint_def split: option.splits if_splits prod.splits dest: set_locked_error)

lemma set_doit:
  assumes "module_ok m" "urp_set_endpoint_doit ev ge outer m = (r, m')"
  shows "module_ok m'" "r \<noteq> None \<Longrightarrow> m' = m"
proof -
  have "module_ok m' \<and> (r \<noteq> None \<longrightarrow> m' = m)"
    using assms(1)
  proof (cases rule: lookup_by_name_cases[of m ge outer])
    case (refused e)
    then show ?thesis using assms by (simp add: urp_set_endpoint_doit_def)
  next
    case (found tb ep)
    obtain r1 ep1 where 1: "set_endpoint ev tb (ep\<lparr>ep_refcount := 2\<rparr>) = (r1, ep1)" by force
    have b: "ep_refcount ep1 = 2" "ep_name ep1 = tb_name tb"
      using set_endpoint_base[OF 1] module_ok_ref[OF assms(1) found(2)] by simp_all
    have m': "r = r1" "m' = upd_ep (tb_name tb) (\<lambda>_. ep1\<lparr>ep_refcount := 1\<rparr>) m"
      using assms(2) found 1 b(1) by (simp_all add: urp_set_endpoint_doit_def upd_ep_lookup upd_ep_twice comp_def put_second)
    moreover have "ep1\<lparr>ep_refcount := 1\<rparr> = ep" if "r1 \<noteq> None"
      using that set_endpoint_error[of ev tb "ep\<lparr>ep_refcount := 2\<rparr>" _ ep1] 1 module_ok_ref[OF assms(1) found(2)] by auto
    moreover have "ht_inv (um_endpoints m)" using assms(1) by (simp add: module_ok_def)
    ultimately show ?thesis
      using module_ok_upd[OF assms(1), of "ep1\<lparr>ep_refcount := 1\<rparr>" "tb_name tb"] b(2) upd_ep_same[of m "tb_name tb" ep] found(2)
      by simp
  qed
  then show "module_ok m'" "r \<noteq> None \<Longrightarrow> m' = m" by simp_all
qed

section \<open>Creating and removing\<close>

lemma ht_remove_update: "ht_remove (ht_update t k f) k = ht_remove t k"
  by (induction t) (auto simp: ht_remove_def ht_update_def)

lemma remove_put:
  assumes "ht_lookup (um_endpoints m) name = Some ep"
  shows "put_gone (urp_endpoint_remove ev name m) =
    m\<lparr>um_endpoints := ht_remove (um_endpoints m) name,
      um_gone := urp_endpoint_put (urp_endpoint_put (urp_endpoint_drain ev ep)) # um_gone m\<rparr>"
  using assms by (simp add: urp_endpoint_remove_def put_gone_def)

lemma drained_freed:
  assumes "ep_refcount ep = 2"
  shows "freed (urp_endpoint_put (urp_endpoint_put (urp_endpoint_drain ev ep)))"
proof -
  have "ep_refcount (urp_endpoint_drain ev ep) = 2" using base_of_eq[OF base_drain[of ev ep]] assms by simp
  moreover have "ep_state (urp_endpoint_put ep) = ep_state ep" for ep
    by (simp add: urp_endpoint_put_def urp_endpoint_rcu_free_def log_ext_def Let_def)
  ultimately show ?thesis using drain_state[of ev ep] by (simp add: freed_def put_second put_freed)
qed

lemma module_ok_remove:
  assumes "module_ok m" "\<forall>ep\<in>set g. freed ep"
  shows "module_ok (m\<lparr>um_endpoints := ht_remove (um_endpoints m) name, um_gone := g\<rparr>)"
  using assms ht.rem_lookup[of "um_endpoints m" name] by (auto simp: module_ok_def)

lemma del_doit:
  assumes "module_ok m" "urp_del_endpoint_doit ev ge outer m = (r, m')"
  shows "module_ok m'" "r \<noteq> None \<Longrightarrow> m' = m"
    "r = None \<Longrightarrow> urp_parse_endpoint ge outer = Inr tb \<Longrightarrow>
      ht_lookup (um_endpoints m') = (ht_lookup (um_endpoints m))(tb_name tb := None)"
proof -
  have "module_ok m' \<and> (r \<noteq> None \<longrightarrow> m' = m) \<and> (r = None \<longrightarrow> urp_parse_endpoint ge outer = Inr tb \<longrightarrow>
      ht_lookup (um_endpoints m') = (ht_lookup (um_endpoints m))(tb_name tb := None))"
    using assms(1)
  proof (cases rule: lookup_by_name_cases[of m ge outer])
    case (refused e)
    then show ?thesis using assms by (auto simp: urp_del_endpoint_doit_def)
  next
    case (found tb' ep)
    define m1 where "m1 = upd_ep (tb_name tb') (\<lambda>_. ep\<lparr>ep_refcount := 2\<rparr>) m"
    define g where "g = urp_endpoint_put (urp_endpoint_put (urp_endpoint_drain ev (ep\<lparr>ep_refcount := 2\<rparr>))) # um_gone m"
    have "ht_lookup (um_endpoints m1) (tb_name tb') = Some (ep\<lparr>ep_refcount := 2\<rparr>)"
      using found(2) by (simp add: m1_def upd_ep_lookup)
    then have "r = None" "m' = m1\<lparr>um_endpoints := ht_remove (um_endpoints m1) (tb_name tb'), um_gone := g\<rparr>"
      using assms(2) found(3) remove_put[of m1 "tb_name tb'"]
      by (simp_all add: urp_del_endpoint_doit_def m1_def[symmetric]) (simp add: g_def m1_def upd_ep_fields)
    then have m': "r = None" "m' = m\<lparr>um_endpoints := ht_remove (um_endpoints m) (tb_name tb'), um_gone := g\<rparr>"
      by (simp_all add: m1_def upd_ep_def ht_remove_update)
    have "\<forall>ep\<in>set g. freed ep" using assms(1) by (simp add: g_def drained_freed module_ok_def)
    then show ?thesis using m' found(1) module_ok_remove[OF assms(1)] by (auto simp: ht_lookup_remove)
  qed
  then show "module_ok m'" "r \<noteq> None \<Longrightarrow> m' = m"
    "r = None \<Longrightarrow> urp_parse_endpoint ge outer = Inr tb \<Longrightarrow>
      ht_lookup (um_endpoints m') = (ht_lookup (um_endpoints m))(tb_name tb := None)" by simp_all
qed

lemma create_cases:
  obtains (refused) e where "urp_endpoint_create ev cfg m = (Some e, m)"
  | (created) "ht_lookup (um_endpoints m) (ep_name cfg) = None"
      "urp_endpoint_create ev cfg m = (None, m\<lparr>um_endpoints := (ep_name cfg, endpoint_new ev cfg) # um_endpoints m\<rparr>)"
  by (cases "create_check ev cfg"; cases "ev_alloc ev [] O_endpoint";
      cases "ev_alloc ev (ep_trace (endpoint_new ev cfg)) O_endpoint"; cases "ht_lookup (um_endpoints m) (ep_name cfg)")
    (simp_all add: urp_endpoint_create_def ht_insert_def Let_def)

lemma endpoint_new_base: "ep_refcount (endpoint_new ev cfg) = 2" "ep_name (endpoint_new ev cfg) = ep_name cfg"
  by (simp_all add: endpoint_new_def)

lemma new_config_name: "ep_name (new_config tb) = tb_name tb"
  by (simp add: new_config_def)

lemma new_doit_cases:
  assumes "module_ok m"
  obtains (refused) e where "urp_new_endpoint_doit ev ge outer m = (Some e, m)"
  | (failed) tb e g where "urp_new_endpoint_doit ev ge outer m = (Some e, m\<lparr>um_gone := g\<rparr>)"
      "\<forall>ep\<in>set g. freed ep"
  | (active) tb ep where "urp_parse_endpoint ge outer = Inr tb" "ht_lookup (um_endpoints m) (tb_name tb) = None"
      "urp_endpoint_activate ev (endpoint_new ev (new_config tb)) = (None, ep)"
      "urp_new_endpoint_doit ev ge outer m =
        (None, m\<lparr>um_endpoints := (tb_name tb, ep\<lparr>ep_refcount := 1\<rparr>) # um_endpoints m\<rparr>)"
      "ep_refcount ep = 2" "ep_name ep = tb_name tb"
proof (cases "\<exists>e. urp_new_endpoint_doit ev ge outer m = (Some e, m)")
  case True
  then show ?thesis using refused by (elim exE)
next
  case False
  then obtain tb where tb: "urp_parse_endpoint ge outer = Inr tb" "tb URP_ENDPOINT_A_NAME \<noteq> None" "ge_cfg_alloc ge"
    by (cases "urp_parse_endpoint ge outer"; cases "ge_cfg_alloc ge")
      (auto simp: urp_new_endpoint_doit_def urp_genl_lookup_by_name_def split: if_splits)
  define new where "new = endpoint_new ev (new_config tb)"
  define m1 where "m1 = m\<lparr>um_endpoints := (tb_name tb, new) # um_endpoints m\<rparr>"
  have c: "ht_lookup (um_endpoints m) (tb_name tb) = None" "urp_endpoint_create ev (new_config tb) m = (None, m1)"
    using False tb by (cases rule: create_cases[of ev "new_config tb" m];
      force simp: urp_new_endpoint_doit_def urp_genl_lookup_by_name_def new_def m1_def new_config_name)+
  have d: "urp_new_endpoint_doit ev ge outer m = new_activate ev (tb_name tb) m1"
    using tb c(2) by (auto simp: urp_new_endpoint_doit_def urp_genl_lookup_by_name_def)
  have l: "ht_lookup (um_endpoints m1) (tb_name tb) = Some new" by (simp add: m1_def ht_lookup_def)
  obtain r ep where a: "urp_endpoint_activate ev new = (r, ep)" by force
  have b: "ep_refcount ep = 2" "ep_name ep = tb_name tb"
    using base_of_eq[OF base_activate[of ev new]] a endpoint_new_base[of ev "new_config tb"]
    by (simp_all add: new_def new_config_name urp_ep_config.truncate_def)
  have t: "ht_remove (um_endpoints m) (tb_name tb) = um_endpoints m"
    using c(1) unfolding ht_remove_def ht_lookup_def by (metis (mono_tags, lifting) filter_True map_of_eq_None_iff image_eqI)
  have u: "upd_ep (tb_name tb) (\<lambda>_. x) m1 = m\<lparr>um_endpoints := (tb_name tb, x) # um_endpoints m\<rparr>" for x
    using ht_update_absent[OF c(1), of "\<lambda>_. x"] by (simp add: upd_ep_def m1_def ht_update_def)
  show ?thesis
  proof (cases r)
    case None
    then show ?thesis using d l a u b tb c(1) by (intro active[of tb ep]) (simp_all add: new_activate_def put_second new_def)
  next
    case (Some e)
    define g where "g = urp_endpoint_put (urp_endpoint_put (urp_endpoint_drain ev ep)) # um_gone m"
    have "put_gone (urp_endpoint_remove ev (tb_name tb) (upd_ep (tb_name tb) (\<lambda>_. ep) m1)) =
        m\<lparr>um_endpoints := ht_remove (um_endpoints m) (tb_name tb), um_gone := g\<rparr>"
      by (subst remove_put[of _ _ ep]) (simp_all add: u ht_lookup_def ht_remove_def g_def)
    then have "urp_new_endpoint_doit ev ge outer m = (Some e, m\<lparr>um_gone := g\<rparr>)"
      using d l a Some t by (simp add: new_activate_def)
    moreover have "\<forall>ep\<in>set g. freed ep"
      using assms b(1) by (simp add: g_def drained_freed module_ok_def)
    ultimately show ?thesis by (rule failed)
  qed
qed

lemma new_doit:
  assumes "module_ok m" "urp_new_endpoint_doit ev ge outer m = (r, m')"
  shows "module_ok m' \<and> (r \<noteq> None \<longrightarrow> um_endpoints m' = um_endpoints m)"
  using assms(1)
proof (cases rule: new_doit_cases[of m ev ge outer])
  case (active tb ep)
  then have "ht_inv ((tb_name tb, ep\<lparr>ep_refcount := 1\<rparr>) # um_endpoints m)"
    using assms(1) by (auto simp: module_ok_def ht_inv_def ht_lookup_def map_of_eq_None_iff)
  then show ?thesis using active assms by (auto simp: module_ok_def ht_lookup_def)
qed (use assms in \<open>auto simp: module_ok_def\<close>)

section \<open>Properties\<close>

text \<open>A sequence of commands, each with the kernel it meets, the capability of its sender and its message.\<close>

type_synonym genl_call = "env \<times> genl_env \<times> bool \<times> urp_cmd \<times> bytes option"

primrec genl_run :: "genl_call list \<Rightarrow> urp_module \<Rightarrow> urp_module" where
  "genl_run [] m = m"
| "genl_run (c # cs) m = (case c of (ev, ge, net_admin, cmd, outer) \<Rightarrow> genl_run cs (snd (urp_genl_ops ev ge net_admin cmd outer m)))"

lemma genl_op:
  assumes "module_ok m" "urp_genl_ops ev ge net_admin cmd outer m = ((r, reply), m')"
  shows "module_ok m' \<and> (r \<noteq> None \<longrightarrow> um_endpoints m' = um_endpoints m)
    \<and> (\<not> net_admin \<or> cmd = URP_CMD_GET_ENDPOINT \<longrightarrow> m' = m)"
proof (cases "genl_admin_perm cmd \<and> \<not> net_admin")
  case True
  then show ?thesis using assms by (simp add: urp_genl_ops_def)
next
  case False
  show ?thesis
  proof (cases cmd)
    case URP_CMD_NEW_ENDPOINT
    then obtain r1 m1 where 1: "urp_new_endpoint_doit ev ge outer m = (r1, m1)" by force
    then show ?thesis using assms False URP_CMD_NEW_ENDPOINT new_doit[OF assms(1) 1]
      by (simp add: urp_genl_ops_def genl_admin_perm_def)
  next
    case URP_CMD_DEL_ENDPOINT
    then obtain r1 m1 where 1: "urp_del_endpoint_doit ev ge outer m = (r1, m1)" by force
    then show ?thesis using assms False URP_CMD_DEL_ENDPOINT del_doit(1,2)[OF assms(1) 1]
      by (auto simp: urp_genl_ops_def genl_admin_perm_def)
  next
    case URP_CMD_SET_ENDPOINT
    then obtain r1 m1 where 1: "urp_set_endpoint_doit ev ge outer m = (r1, m1)" by force
    then show ?thesis using assms False URP_CMD_SET_ENDPOINT set_doit[OF assms(1) 1]
      by (auto simp: urp_genl_ops_def genl_admin_perm_def)
  next
    case URP_CMD_GET_ENDPOINT
    then show ?thesis using assms False get_leaves_module[OF assms(1), of ev ge outer]
      by (auto simp: urp_genl_ops_def genl_admin_perm_def)
  qed
qed

lemma genl_run_ok: "module_ok m \<Longrightarrow> module_ok (genl_run cs m)"
proof (induction cs arbitrary: m)
  case (Cons c cs)
  obtain ev ge na cmd outer where c: "c = (ev, ge, na, cmd, outer)" by (metis surj_pair)
  obtain r reply m' where 1: "urp_genl_ops ev ge na cmd outer m = ((r, reply), m')" by (metis surj_pair)
  show ?case using Cons.IH[of m'] genl_op[OF Cons.prems 1] c 1 by simp
qed simp

lemma table_init_ok: "urp_endpoint_table_init ev m = (None, m0) \<Longrightarrow> um_gone m = [] \<Longrightarrow> module_ok m0"
  by (auto simp: urp_endpoint_table_init_def module_ok_def ht_inv_def ht_lookup_def split: option.splits)

text \<open>
  C33: Control commands are atomic and guarded.  After the table is set up and any sequence of
  commands by any senders has run, the next command either succeeds or leaves the table of endpoints as
  it was; a sender without the network administration capability, and any showing of an endpoint,
  changes nothing at all; and between commands each endpoint of the table is stored under its own name
  and held by one reference, while endpoints that left it, a failed creation included, are stopped and held by none.
\<close>

theorem genl_commands_atomic:
  assumes "urp_endpoint_table_init ev0 m = (None, m0)" "um_gone m = []"
    and "urp_genl_ops ev ge net_admin cmd outer (genl_run cs m0) = ((r, reply), m')"
  shows "module_ok m' \<and> (r \<noteq> None \<longrightarrow> um_endpoints m' = um_endpoints (genl_run cs m0))
    \<and> (\<not> net_admin \<or> cmd = URP_CMD_GET_ENDPOINT \<longrightarrow> m' = genl_run cs m0)"
  by (rule genl_op[OF genl_run_ok[OF table_init_ok[OF assms(1,2)]] assms(3)])

section \<open>What a request asked for is what is shown\<close>

definition reported :: "urp_endpoint_attr set" where
  "reported = {URP_ENDPOINT_A_NAME, URP_ENDPOINT_A_LISTEN_PATH, URP_ENDPOINT_A_CONNECT_PATH, URP_ENDPOINT_A_RDMA_DEVICE,
     URP_ENDPOINT_A_PEER_ADDR, URP_ENDPOINT_A_BIND_ADDR, URP_ENDPOINT_A_NUM_QPS, URP_ENDPOINT_A_BUFFER_COUNT,
     URP_ENDPOINT_A_BUFFER_SIZE}"

lemma policy_string:
  assumes "policy_accepts (NLA_NUL_STRING (n - 1)) v"
  obtains str where "v = NV_string str" "nla_strscpy (NV_string str) n = str"
  using assms by (cases v) (auto simp: policy_accepts_def nla_strscpy_def)

lemma policy_u32:
  assumes "policy_accepts (NLA_U32_RANGE lo hi) v" "0 < lo"
  obtains w where "v = NV_u32 w" "w \<noteq> 0"
  using assms by (cases v) (auto simp: policy_accepts_def)

lemma policy_addr:
  assumes "policy_accepts NLA_ADDR v"
  obtains sa where "v = NV_addr sa"
  using assms by (cases v) (auto simp: policy_accepts_def)

lemma config_attrs_truncate:
  assumes "urp_ep_config.truncate ep = urp_ep_config.truncate ep'" "ep_state ep = ep_state ep'"
  shows "config_attrs ep = config_attrs ep'"
  using assms by (simp add: config_attrs_def urp_ep_config.truncate_def)

lemma truncate_state: "urp_ep_config.truncate (ep\<lparr>ep_state := st\<rparr>) = urp_ep_config.truncate (ep :: urp_endpoint)"
  by (simp add: urp_ep_config.truncate_def)

lemma requested_is_reported:
  assumes tb: "\<And>a v. tb a = Some v \<Longrightarrow> policy_accepts (urp_endpoint_policy a) v"
    and a: "a \<in> reported" and v: "tb a = Some v" "v \<noteq> NV_string []"
    and ep: "urp_ep_config.truncate ep = urp_ep_config.truncate (endpoint_new ev (new_config tb))"
  shows "Nla (EP_A a) v \<in> set (config_attrs ep)"
proof -
  have p: "policy_accepts (urp_endpoint_policy a) v" using tb v(1) by simp
  have c: "config_attrs ep = config_attrs ((endpoint_new ev (new_config tb))\<lparr>ep_state := ep_state ep\<rparr>)"
    using ep by (intro config_attrs_truncate) (simp_all add: truncate_state)
  have pos: "0 < URP_NUM_QPS_MIN" "0 < URP_BUFFER_COUNT_MIN" "0 < URP_BUFFER_SIZE_MIN"
    by (simp_all add: URP_NUM_QPS_MIN_def URP_BUFFER_COUNT_MIN_def URP_BUFFER_SIZE_MIN_def
        URP_FRAME_HEADER_SIZE_def URP_PONG_PAYLOAD_SIZE_def)
  note d = config_attrs_def opt_attr_def endpoint_new_def new_config_def tb_name_def tb_string_def
  consider (name) "a = URP_ENDPOINT_A_NAME"
    | (path) "a \<in> {URP_ENDPOINT_A_LISTEN_PATH, URP_ENDPOINT_A_CONNECT_PATH}" | (dev) "a = URP_ENDPOINT_A_RDMA_DEVICE"
    | (addr) "a \<in> {URP_ENDPOINT_A_PEER_ADDR, URP_ENDPOINT_A_BIND_ADDR}"
    | (num) "a \<in> {URP_ENDPOINT_A_NUM_QPS, URP_ENDPOINT_A_BUFFER_COUNT, URP_ENDPOINT_A_BUFFER_SIZE}"
    using a by (auto simp: reported_def)
  then show ?thesis
  proof cases
    case name
    then have "policy_accepts (NLA_NUL_STRING (URP_NAME_MAX - 1)) v" using p by (simp add: urp_endpoint_policy_def)
    then obtain str where "v = NV_string str" "nla_strscpy (NV_string str) URP_NAME_MAX = str" by (rule policy_string)
    then show ?thesis unfolding c using name v by (simp add: d)
  next
    case path
    then have "policy_accepts (NLA_NUL_STRING (URP_PATH_MAX_LEN - 1)) v" using p by (auto simp: urp_endpoint_policy_def)
    then obtain str where "v = NV_string str" "nla_strscpy (NV_string str) URP_PATH_MAX_LEN = str" by (rule policy_string)
    then show ?thesis unfolding c using path v by (auto simp: d)
  next
    case dev
    then have "policy_accepts (NLA_NUL_STRING (URP_DEVICE_MAX - 1)) v" using p by (simp add: urp_endpoint_policy_def)
    then obtain str where "v = NV_string str" "nla_strscpy (NV_string str) URP_DEVICE_MAX = str" by (rule policy_string)
    then show ?thesis unfolding c using dev v by (auto simp: d)
  next
    case addr
    then have "policy_accepts NLA_ADDR v" using p by (auto simp: urp_endpoint_policy_def)
    then obtain sa where "v = NV_addr sa" by (rule policy_addr)
    then show ?thesis unfolding c using addr v by (auto simp: d nla_addr_def)
  next
    case num
    then obtain lo hi where "policy_accepts (NLA_U32_RANGE lo hi) v" "0 < lo"
      using p pos by (auto simp: urp_endpoint_policy_def)
    then obtain w where "v = NV_u32 w" "w \<noteq> 0" by (rule policy_u32)
    then show ?thesis unfolding c using num v by (auto simp: d nla_get_u32_def)
  qed
qed

lemma endpoint_message_eq:
  "endpoint_message sy room ep verbose =
    (if GENL_MSG_HDR + NLA_HDRLEN + attrs_size (endpoint_attrs sy ep verbose) \<le> room
     then Some \<lparr> sk_room = room - (GENL_MSG_HDR + NLA_HDRLEN + attrs_size (endpoint_attrs sy ep verbose)),
       sk_attrs = [Nla URP_A_ENDPOINT (NV_nest (endpoint_attrs sy ep verbose))] \<rparr>
     else None)"
  by (auto simp: endpoint_message_def fill_endpoint_eq)

lemma get_found:
  assumes "module_ok m" "urp_parse_endpoint ge outer = Inr tb" "tb URP_ENDPOINT_A_NAME \<noteq> None"
    "ht_lookup (um_endpoints m) (tb_name tb) = Some ep"
  shows "fst (urp_get_endpoint_doit ev ge outer m) = get_reply ev ge (ep\<lparr>ep_refcount := 2\<rparr>)"
  using assms module_ok_ref[OF assms(1,4)]
  by (auto simp: urp_get_endpoint_doit_def urp_genl_lookup_by_name_def urp_endpoint_get_def urp_endpoint_lookup_def
      module_ok_def Let_def upd_ep_lookup numeral_2_eq_2)

lemma get_unknown:
  assumes "module_ok m" "urp_parse_endpoint ge outer = Inr tb" "tb URP_ENDPOINT_A_NAME \<noteq> None"
    "ht_lookup (um_endpoints m) (tb_name tb) = None"
  shows "urp_get_endpoint_doit ev ge outer m = ((Some ENOENT, None), m)"
  using assms by (auto simp: urp_get_endpoint_doit_def urp_genl_lookup_by_name_def urp_endpoint_get_def
      urp_endpoint_lookup_def module_ok_def)

lemma attrs_refcount [simp]: "endpoint_attrs sy (ep\<lparr>ep_refcount := n\<rparr>) v = endpoint_attrs sy ep v"
  by (cases "ep_qps ep") (simp_all add: endpoint_attrs_def config_attrs_def verbose_attrs_def streams_attrs_def
      stats_attrs_def shown_streams_def shows_conn_def active_streams_def)


section \<open>Secrets\<close>

definition public :: "urp_endpoint \<Rightarrow> urp_endpoint" where
  "public ep = ep\<lparr>ep_password := [], ep_password_hash := [], ep_has_password := False, ep_auth_priv := [],
     ep_conn_priv := [], ep_auth_len := 0\<rparr>"

lemma attrs_public: "endpoint_attrs sy (public ep) v = endpoint_attrs sy ep v"
  by (cases "ep_qps ep") (simp_all add: public_def endpoint_attrs_def config_attrs_def verbose_attrs_def streams_attrs_def
      stats_attrs_def shown_streams_def shows_conn_def active_streams_def)

lemma message_public: "public ep = public ep' \<Longrightarrow> endpoint_message sy room ep v = endpoint_message sy room ep' v"
  using attrs_public[of sy ep v] attrs_public[of sy ep' v] by (simp add: endpoint_message_eq)

abbreviation public_walk :: "urp_endpoint walk_item list \<Rightarrow> urp_endpoint walk_item list" where
  "public_walk \<equiv> map (map_walk_item public)"

lemma dump_public:
  assumes "public_walk ws = public_walk ws'" "dump_loop sy ws room = (r, ms, rest)" "dump_loop sy ws' room = (r', ms', rest')"
  shows "r = r' \<and> ms = ms' \<and> public_walk rest = public_walk rest'"
  using assms
proof (induction ws arbitrary: ws' room r ms rest r' ms' rest')
  case (Cons w ws)
  from Cons.prems(1) obtain w' vs where e: "ws' = w' # vs" "map_walk_item public w = map_walk_item public w'"
    "public_walk ws = public_walk vs" by (cases ws') auto
  note IH = Cons.IH[OF e(3)]
  show ?case
  proof (cases w)
    case (W_err x)
    then have w': "w' = W_err x" using e(2) by (cases w') auto
    show ?thesis using Cons.prems(2,3) e(3) IH[of room r ms rest r' ms' rest'] unfolding e(1) W_err w'
      by (cases "x = EAGAIN") auto
  next
    case (W_obj ep)
    then obtain ep' where w': "w' = W_obj ep'" and p: "public ep = public ep'" using e(2) by (cases w') auto
    note m = message_public[OF p, of sy room False]
    show ?thesis
    proof (cases "endpoint_message sy room ep False")
      case None
      then show ?thesis using Cons.prems(2,3) e(3) m unfolding e(1) W_obj w' by auto
    next
      case (Some sk)
      obtain r1 ms1 rest1 r2 ms2 rest2 where
        d: "dump_loop sy ws (sk_room sk) = (r1, ms1, rest1)" "dump_loop sy vs (sk_room sk) = (r2, ms2, rest2)" by (metis prod_cases3)
      show ?thesis using Cons.prems(2,3) Some m d IH[OF d] unfolding e(1) W_obj w' by simp
    qed
  qed
qed simp

lemma dump_run_public: "public_walk ws = public_walk ws' \<Longrightarrow> dump_run sy ws rooms = dump_run sy ws' rooms"
proof (induction rooms arbitrary: ws ws')
  case (Cons room rooms)
  obtain r ms rest r' ms' rest' where
    d: "dump_loop sy ws room = (r, ms, rest)" "dump_loop sy ws' room = (r', ms', rest')" by (metis prod_cases3)
  show ?case using dump_public[OF Cons.prems d] Cons.IH[of rest rest'] d
    by (simp add: urp_get_endpoint_dumpit_def)
qed simp

lemma walk_table_public:
  assumes "map (apsnd public) t = map (apsnd public) t'"
  shows "public_walk (walk_table t visits) = public_walk (walk_table t' visits)"
proof -
  have l: "length t = length t'" using arg_cong[OF assms, of length] by simp
  have "public (snd (t ! i)) = public (snd (t' ! i))" if "i < length t" for i
    using arg_cong[OF assms, of "\<lambda>t. snd (t ! i)"] that l by (simp add: case_prod_beta)
  then show ?thesis using l by (induction visits) (auto simp: walk_table_def split: sum.split)
qed

lemma lookup_public:
  "map (apsnd public) t = map (apsnd public) t' \<Longrightarrow>
    map_option public (ht_lookup t k) = map_option public (ht_lookup t' k)"
proof (induction t arbitrary: t')
  case (Cons e t)
  then obtain e' t1 where "t' = e' # t1" "fst e = fst e'" "public (snd e) = public (snd e')"
      "map (apsnd public) t = map (apsnd public) t1"
    by (cases t'; cases e) (auto simp: apsnd_def map_prod_def split: prod.splits)
  then show ?case using Cons.IH[of t1] by (cases e; cases e') (simp add: ht_lookup_def)
qed (simp add: ht_lookup_def)

lemma public_refcount: "public ep = public ep' \<Longrightarrow> ep_refcount ep = ep_refcount ep'"
  unfolding public_def by (drule arg_cong[of _ _ ep_refcount]) simp

text \<open>
  C35: Nothing secret leaves by netlink.  If two tables of endpoints differ only in passwords, their
  hashes and the authentication data built from them, then showing an endpoint, dumping the table into any
  buffers along any walk (in table order, with endpoints left out, repeated or errors in between) and the events of an endpoint give the same messages for both, and none carries a password.
\<close>

theorem replies_hide_secrets:
  assumes "module_ok m" "module_ok m'"
    and "map (apsnd public) (um_endpoints m) = map (apsnd public) (um_endpoints m')"
  shows "fst (urp_get_endpoint_doit ev ge outer m) = fst (urp_get_endpoint_doit ev ge outer m')
    \<and> (\<forall>visits. dump_run sy (walk_table (um_endpoints m) visits) rooms = dump_run sy (walk_table (um_endpoints m') visits) rooms)
    \<and> (\<forall>ep ep'. public ep = public ep' \<longrightarrow> urp_send_event sy registered room ep = urp_send_event sy registered room ep')
    \<and> (\<forall>ep v. Nla (EP_A URP_ENDPOINT_A_PASSWORD) v \<notin> set (endpoint_attrs sy ep verbose))"
proof -
  have e: "urp_send_event sy registered room ep = urp_send_event sy registered room ep'" if "public ep = public ep'" for ep ep'
    using message_public[OF that] by (simp add: urp_send_event_def split: option.split)
  have p: "Nla (EP_A URP_ENDPOINT_A_PASSWORD) v \<notin> set (endpoint_attrs sy ep verbose)" for ep v
    by (simp add: endpoint_attrs_def config_attrs_def verbose_attrs_def opt_attr_def)
  have d: "dump_run sy (walk_table (um_endpoints m) visits) rooms = dump_run sy (walk_table (um_endpoints m') visits) rooms" for visits
    by (rule dump_run_public[OF walk_table_public[OF assms(3)]])
  have "fst (urp_get_endpoint_doit ev ge outer m) = fst (urp_get_endpoint_doit ev ge outer m')"
  proof (cases "\<exists>tb. urp_parse_endpoint ge outer = Inr tb \<and> tb URP_ENDPOINT_A_NAME \<noteq> None")
    case True
    then obtain tb where tb: "urp_parse_endpoint ge outer = Inr tb" "tb URP_ENDPOINT_A_NAME \<noteq> None" by blast
    note l = lookup_public[OF assms(3), of "tb_name tb"]
    show ?thesis
    proof (cases "ht_lookup (um_endpoints m) (tb_name tb)")
      case None
      then show ?thesis using l get_unknown[OF assms(1) tb None] get_unknown[OF assms(2) tb] by simp
    next
      case (Some ep1)
      then obtain ep2 where 2: "ht_lookup (um_endpoints m') (tb_name tb) = Some ep2" "public ep1 = public ep2"
        using l by (cases "ht_lookup (um_endpoints m') (tb_name tb)") auto
      have "endpoint_attrs sy ep1 v = endpoint_attrs sy ep2 v" for sy v
        using 2(2) attrs_public[of sy ep1 v] attrs_public[of sy ep2 v] by simp
      then show ?thesis using get_found[OF assms(1) tb Some, of ev] get_found[OF assms(2) tb 2(1), of ev]
        by (cases "ge_msg_room ge") (simp_all add: get_reply_def endpoint_message_eq)
    qed
  next
    case False
    then show ?thesis
      by (cases "urp_parse_endpoint ge outer") (auto simp: urp_get_endpoint_doit_def urp_genl_lookup_by_name_def)
  qed
  then show ?thesis using d e p by blast
qed

section \<open>Dumps\<close>

definition shown :: "urp_sysctl \<Rightarrow> urp_endpoint \<Rightarrow> nla list" where
  "shown sy ep = [Nla URP_A_ENDPOINT (NV_nest (endpoint_attrs sy ep False))]"

definition shown_size :: "urp_sysctl \<Rightarrow> urp_endpoint \<Rightarrow> nat" where
  "shown_size sy ep = GENL_MSG_HDR + NLA_HDRLEN + attrs_size (endpoint_attrs sy ep False)"

lemma dump_message: "endpoint_message sy room ep False =
    (if shown_size sy ep \<le> room then Some \<lparr> sk_room = room - shown_size sy ep, sk_attrs = shown sy ep \<rparr> else None)"
  by (simp add: endpoint_message_eq shown_def shown_size_def)

text \<open>The endpoints a walk gives, in its order, and walks disturbed by nothing but resizes of the table.\<close>

primrec walked :: "'e walk_item list \<Rightarrow> 'e list" where
  "walked [] = []"
| "walked (w # ws) = (case w of W_obj ep \<Rightarrow> ep # walked ws | W_err _ \<Rightarrow> walked ws)"

definition resizes_only :: "'e walk_item list \<Rightarrow> bool" where
  "resizes_only ws \<longleftrightarrow> (\<forall>e. W_err e \<in> set ws \<longrightarrow> e = EAGAIN)"

lemma resizes_only_Cons [simp]: "resizes_only (w # ws) \<longleftrightarrow> (\<forall>e. w = W_err e \<longrightarrow> e = EAGAIN) \<and> resizes_only ws"
  by (auto simp: resizes_only_def)

lemma dump_loop_fits:
  "resizes_only ws \<Longrightarrow> sum_list (map (shown_size sy) (walked ws)) \<le> room \<Longrightarrow>
    dump_loop sy ws room = (None, map (shown sy) (walked ws), [])"
  by (induction ws arbitrary: room) (auto simp: dump_message split: walk_item.splits)

lemma dump_loop_overflow:
  "resizes_only ws \<Longrightarrow> \<not> sum_list (map (shown_size sy) (walked ws)) \<le> room \<Longrightarrow>
    \<exists>k rest. k < length (walked ws) \<and> dump_loop sy ws room = (Some EMSGSIZE, map (shown sy) (take k (walked ws)), rest) \<and>
      walked rest = drop (Suc k) (walked ws)"
proof (induction ws arbitrary: room)
  case (Cons w ws)
  show ?case
  proof (cases w)
    case (W_err e)
    then show ?thesis using Cons by simp
  next
    case (W_obj ep)
    show ?thesis
    proof (cases "shown_size sy ep \<le> room")
      case True
      then have "\<not> sum_list (map (shown_size sy) (walked ws)) \<le> room - shown_size sy ep" "resizes_only ws"
        using Cons.prems W_obj by simp_all
      from Cons.IH[OF this(2,1)] obtain k rest where "k < length (walked ws)"
        "dump_loop sy ws (room - shown_size sy ep) = (Some EMSGSIZE, map (shown sy) (take k (walked ws)), rest)"
        "walked rest = drop (Suc k) (walked ws)" by blast
      then show ?thesis using True W_obj by (intro exI[of _ "Suc k"] exI[of _ rest]) (simp add: dump_message)
    next
      case False
      then show ?thesis using W_obj by (intro exI[of _ 0] exI[of _ ws]) (simp add: dump_message)
    qed
  qed
qed simp

lemma dump_loop_subseq:
  "dump_loop sy ws room = (r, ms, rest) \<Longrightarrow> \<exists>eps. ms = map (shown sy) eps \<and> subseq (eps @ walked rest) (walked ws)"
proof (induction ws arbitrary: room r ms rest)
  case (Cons w ws)
  show ?case
  proof (cases w)
    case (W_err e)
    then show ?thesis using Cons by (auto split: if_splits intro!: exI[of _ "[]"])
  next
    case (W_obj ep)
    show ?thesis
    proof (cases "shown_size sy ep \<le> room")
      case True
      obtain r1 ms1 rest1 where 1: "dump_loop sy ws (room - shown_size sy ep) = (r1, ms1, rest1)" by (metis prod_cases3)
      from Cons.IH[OF 1] obtain eps where "ms1 = map (shown sy) eps" "subseq (eps @ walked rest1) (walked ws)" by blast
      then show ?thesis using True W_obj Cons.prems 1 by (intro exI[of _ "ep # eps"]) (auto simp: dump_message)
    next
      case False
      then show ?thesis using W_obj Cons.prems by (intro exI[of _ "[]"]) (auto simp: dump_message)
    qed
  qed
qed simp

lemma dump_run_subseq: "subseq (dump_run sy ws rooms) (map (shown sy) (walked ws))"
proof (induction rooms arbitrary: ws)
  case (Cons room rooms)
  obtain r ms rest where d: "dump_loop sy ws room = (r, ms, rest)" by (metis prod_cases3)
  from dump_loop_subseq[OF d] obtain eps where eps: "ms = map (shown sy) eps" "subseq (eps @ walked rest) (walked ws)" by blast
  have all: "subseq (map (shown sy) eps @ map (shown sy) (walked rest)) (map (shown sy) (walked ws))"
    using subseq_map[OF eps(2), of "shown sy"] by simp
  have "subseq (map (shown sy) eps @ dump_run sy rest rooms) (map (shown sy) eps @ map (shown sy) (walked rest))"
    using Cons.IH[of rest] by (intro list_emb_append_mono) simp_all
  then have "subseq (map (shown sy) eps @ dump_run sy rest rooms) (map (shown sy) (walked ws))"
    using all by (rule subseq_order.order_trans)
  moreover have "subseq (map (shown sy) eps) (map (shown sy) (walked ws))"
    using all by (meson list_emb_append2 subseq_order.order_trans subseq_rev_drop_many subseq_order.order_refl)
  ultimately show ?case using d eps(1) by (auto simp: urp_get_endpoint_dumpit_def)
qed simp

text \<open>
  C36: What a dump shows.  Whatever the walk of the table gives and whatever buffers the netlink core
  provides, a dump shows endpoints in the order the walk gives them, none that it does not give and none
  more often than it gives it.  If nothing but resizes of the table disturbs the walk, the dump shows
  every endpoint of the walk exactly when they all fit the first buffer: the endpoint at which a
  buffer runs full has already been taken from the walk and is left out, although the handler means to
  resume with it in the next buffer.  Any other error of the walk ends the dump and is returned, behind the
  endpoints already in the buffer.
\<close>

theorem dump_complete_iff_first_buffer:
  "subseq (dump_run sy ws (room # rooms)) (map (shown sy) (walked ws))
   \<and> (resizes_only ws \<longrightarrow>
       (dump_run sy ws (room # rooms) = map (shown sy) (walked ws) \<longleftrightarrow> sum_list (map (shown_size sy) (walked ws)) \<le> room))
   \<and> (resizes_only ws \<and> sum_list (map (shown_size sy) (walked ws)) \<le> room \<and> e \<noteq> EAGAIN \<and> e \<noteq> EMSGSIZE \<longrightarrow>
       urp_get_endpoint_dumpit sy (Some (ws @ W_err e # rest)) room = (Some e, map (shown sy) (walked ws), rest))"
proof (intro conjI impI iffI)
  show "subseq (dump_run sy ws (room # rooms)) (map (shown sy) (walked ws))" by (rule dump_run_subseq)
next
  assume ws: "resizes_only ws" and all: "dump_run sy ws (room # rooms) = map (shown sy) (walked ws)"
  show "sum_list (map (shown_size sy) (walked ws)) \<le> room"
  proof (rule ccontr)
    assume "\<not> sum_list (map (shown_size sy) (walked ws)) \<le> room"
    then obtain k rest where k: "k < length (walked ws)"
      "dump_loop sy ws room = (Some EMSGSIZE, map (shown sy) (take k (walked ws)), rest)" "walked rest = drop (Suc k) (walked ws)"
      using dump_loop_overflow[OF ws] by blast
    have "length (dump_run sy rest rooms) \<le> length (walked ws) - Suc k"
      using list_emb_length[OF dump_run_subseq[of sy rest rooms]] k(3) by simp
    then have "length (dump_run sy ws (room # rooms)) < length (walked ws)"
      using k by (auto simp: urp_get_endpoint_dumpit_def)
    with all show False by simp
  qed
next
  assume "resizes_only ws" "sum_list (map (shown_size sy) (walked ws)) \<le> room"
  moreover have "dump_run sy [] rooms = []" by (cases rooms) (simp_all add: urp_get_endpoint_dumpit_def)
  ultimately show "dump_run sy ws (room # rooms) = map (shown sy) (walked ws)"
    using dump_loop_fits by (simp add: urp_get_endpoint_dumpit_def)
next
  assume a: "resizes_only ws \<and> sum_list (map (shown_size sy) (walked ws)) \<le> room \<and> e \<noteq> EAGAIN \<and> e \<noteq> EMSGSIZE"
  then have "dump_loop sy (ws @ W_err e # rest) room = (Some e, map (shown sy) (walked ws), rest)"
    by (induction ws arbitrary: room) (auto simp: dump_message split: walk_item.splits)
  then show "urp_get_endpoint_dumpit sy (Some (ws @ W_err e # rest)) room = (Some e, map (shown sy) (walked ws), rest)"
    using a by (simp add: urp_get_endpoint_dumpit_def)
qed

theorem dump_complete_iff_first_buffer_witness:
  "let n = shown_size (ev_sysctl sample_env) sample_ep; ws = [W_obj sample_ep, W_err EAGAIN, W_obj sample_ep]
   in dump_run (ev_sysctl sample_env) ws [n + n] = [shown (ev_sysctl sample_env) sample_ep, shown (ev_sysctl sample_env) sample_ep] \<and>
      urp_get_endpoint_dumpit (ev_sysctl sample_env) (Some (ws @ [W_err ENOMEM])) (n + n) =
        (Some ENOMEM, [shown (ev_sysctl sample_env) sample_ep, shown (ev_sysctl sample_env) sample_ep], [])"
  using dump_complete_iff_first_buffer[of "ev_sysctl sample_env" "[W_obj sample_ep, W_err EAGAIN, W_obj sample_ep]"
      "shown_size (ev_sysctl sample_env) sample_ep + shown_size (ev_sysctl sample_env) sample_ep" "[]" ENOMEM "[]"]
  by (simp add: Let_def resizes_only_def)

section \<open>Changes that take effect and changes that do not\<close>

lemma set_locked_active:
  assumes "ep_qps ep \<noteq> None" "set_locked tb ep = (r, ep')"
  shows "r = Some EBUSY \<and> ep' = ep \<or> r = None \<and> (ep' = ep \<or> (\<exists>v. tb URP_ENDPOINT_A_PASSWORD = Some v
    \<and> ep' = ep\<lparr>ep_password := password_bytes (nla_strscpy v URP_PASSWORD_MAX), ep_has_password := True\<rparr>))"
  using assms sizing_active[of ep "tb URP_ENDPOINT_A_NUM_QPS" "ep_num_qps ep"]
    sizing_active[of ep "tb URP_ENDPOINT_A_BUFFER_COUNT" "ep_buffer_count ep"]
  by (auto simp: set_locked_def Let_def split: option.splits)

lemma drain_qps: "ep_state ep \<noteq> URP_STATE_STOPPED \<Longrightarrow> ep_qps (urp_endpoint_drain ev ep) = None"
  by (simp add: urp_endpoint_drain_def urp_endpoint_proc_remove_def urp_qps_destroy_def log_ext_def Let_def)

lemma set_endpoint_cases:
  assumes "set_endpoint ev tb ep = (r, ep')"
  obtains (refused) e where "r = Some e" "ep' = ep"
  | (changed) "tb URP_ENDPOINT_A_STATE = None" "r = None" "set_locked tb ep = (None, ep')"
  | (drained) ep1 where "tb URP_ENDPOINT_A_STATE \<noteq> None" "r = None" "set_locked tb ep = (None, ep1)"
      "ep' = urp_endpoint_drain ev ep1"
proof (cases r)
  case (Some e)
  then show ?thesis using refused set_endpoint_error assms by blast
next
  case None
  then show ?thesis using assms changed drained
    by (auto simp: set_endpoint_def split: option.splits if_splits prod.splits)
qed

text \<open>
  C37: Sizes are fixed while an endpoint is active.  In every state the connection manager can reach, a
  set command, whatever its attributes, keeps the number of queue pairs and the buffer count; a change
  of either is refused, with EBUSY when the request asks for no drain, and a refused request changes
  nothing.  A request that is accepted and asks for no drain keeps the connection invariant, so the
  queue pairs allocated stay as many as the count the loops over them use; one that asks for a drain stops
  the endpoint and, unless it was stopped before, leaves no queue pairs.
\<close>

theorem sizes_fixed_while_active:
  assumes "urp_endpoint_activate ev (endpoint_new ev cfg) = (None, ep)"
    and "(conn_step ev)\<^sup>*\<^sup>* (conn_start ep) s"
    and "set_endpoint ev tb (cy_ep s) = (r, ep')"
  shows "ep_num_qps ep' = ep_num_qps (cy_ep s) \<and> ep_buffer_count ep' = ep_buffer_count (cy_ep s)
    \<and> (r \<noteq> None \<longrightarrow> ep' = cy_ep s)
    \<and> (tb URP_ENDPOINT_A_STATE = None \<or> r \<noteq> None \<longrightarrow> length (qps ep') = unat (ep_num_qps ep') \<and> sys_ok (s\<lparr>cy_ep := ep'\<rparr>))
    \<and> (tb URP_ENDPOINT_A_STATE \<noteq> None \<and> r = None \<longrightarrow>
        ep_state ep' = URP_STATE_STOPPED \<and> (ep_state (cy_ep s) \<noteq> URP_STATE_STOPPED \<longrightarrow> ep_qps ep' = None))
    \<and> (\<forall>w. tb URP_ENDPOINT_A_NUM_QPS = Some (NV_u32 w) \<and> w \<noteq> ep_num_qps (cy_ep s) \<or>
          tb URP_ENDPOINT_A_BUFFER_COUNT = Some (NV_u32 w) \<and> w \<noteq> ep_buffer_count (cy_ep s) \<longrightarrow>
        r \<noteq> None \<and> (tb URP_ENDPOINT_A_STATE = None \<longrightarrow> r = Some EBUSY))"
proof -
  have "sys_ok (conn_start ep)"
    by (rule activate_conn_ok[OF assms(1)]) (simp_all add: endpoint_new_def retry_log_def)
  then have ok: "sys_ok s" by (rule conn_run_keeps[OF assms(2)])
  have q: "ep_qps (cy_ep s) \<noteq> None" "length (qps (cy_ep s)) = unat (ep_num_qps (cy_ep s))"
    by (rule sys_ok_counts[OF ok refl]; simp)+
  have c: "conn_of ep1 = conn_of (cy_ep s)" "ep_num_qps ep1 = ep_num_qps (cy_ep s)"
    "ep_buffer_count ep1 = ep_buffer_count (cy_ep s)" "ep_qps ep1 = ep_qps (cy_ep s)" "ep_state ep1 = ep_state (cy_ep s)"
    if "set_locked tb (cy_ep s) = (r1, ep1)" for r1 ep1
    using set_locked_active[OF q(1) that] by (auto simp: conn_of_def retry_log_def)
  have busy: "set_locked tb (cy_ep s) = (Some EBUSY, cy_ep s)"
    if "tb URP_ENDPOINT_A_NUM_QPS = Some (NV_u32 w) \<and> w \<noteq> ep_num_qps (cy_ep s) \<or>
        tb URP_ENDPOINT_A_BUFFER_COUNT = Some (NV_u32 w) \<and> w \<noteq> ep_buffer_count (cy_ep s)" for w
  proof -
    obtain r1 ep1 where 1: "set_locked tb (cy_ep s) = (r1, ep1)" by force
    have "r1 \<noteq> None" using that 1 q(1)
      by (auto simp: set_locked_def urp_set_sizing_u32_def nla_get_u32_def Let_def split: option.splits if_splits)
    then show ?thesis using set_locked_active[OF q(1) 1] 1 by auto
  qed
  have no: "r \<noteq> None \<and> (tb URP_ENDPOINT_A_STATE = None \<longrightarrow> r = Some EBUSY)"
    if "tb URP_ENDPOINT_A_NUM_QPS = Some (NV_u32 w) \<and> w \<noteq> ep_num_qps (cy_ep s) \<or>
        tb URP_ENDPOINT_A_BUFFER_COUNT = Some (NV_u32 w) \<and> w \<noteq> ep_buffer_count (cy_ep s)" for w
    using busy[OF that] assms(3) by (auto simp: set_endpoint_def split: option.splits if_splits)
  from assms(3) show ?thesis
  proof (cases rule: set_endpoint_cases)
    case (refused e)
    then show ?thesis using q ok no by auto
  next
    case changed
    then show ?thesis using c[OF changed(3)] q ok no by (auto simp: sys_ok_def)
  next
    case (drained ep1)
    have "ep_num_qps ep' = ep_num_qps ep1" "ep_buffer_count ep' = ep_buffer_count ep1"
      using base_of_eq[OF base_drain[of ev ep1]] drained(4) by (simp_all add: urp_ep_config.truncate_def)
    then show ?thesis using c[OF drained(3)] drained drain_state[of ev ep1] drain_qps[of ep1 ev] no by auto
  qed
qed

text \<open>
  C38: A password set later locks peers out.  An endpoint created without a password and given one by
  a set command afterwards rejects every peer that was configured with a password, the same one
  included: the authentication data the acceptor compares with was built at creation and stays zero.
  Its own requests still carry no authentication data.
\<close>

theorem set_password_locks_peers_out:
  assumes "\<not> ep_has_password cfg" "urp_endpoint_activate ev (endpoint_new ev cfg) = (None, ep)"
    and "tb URP_ENDPOINT_A_PASSWORD = Some v" "set_locked tb ep = (None, ep')"
    and "ep_has_password peer" "priv = create_auth_priv ev' peer @ trailer"
  shows "urp_cm_accept_one ev child (Some priv) len ep' =
      (None, log_ext X_send_event (log_ext (X_rdma R_reject child)
         (upd_stats (\<lambda>st. st\<lparr>stat_auth_failures := stat_auth_failures st + 1\<rparr>) ep')))
    \<and> ep_auth_len ep' = 0"
proof -
  have "urp_ep_config.truncate ep = urp_ep_config.truncate (endpoint_new ev cfg)"
    using base_of_eq[OF base_activate[of ev "endpoint_new ev cfg"]] assms(2) by simp
  then have a: "ep_auth_priv ep = create_auth_priv ev cfg" "ep_auth_len ep = 0"
    using assms(1) by (simp_all add: urp_ep_config.truncate_def endpoint_new_def)
  have s: "ep_auth_priv ep' = ep_auth_priv ep" "ep_auth_len ep' = ep_auth_len ep" "ep_has_password ep'"
    using assms(3,4) by (auto simp: set_locked_def Let_def split: sum.splits)
  have "\<not> psk_ok ep' (Some priv) len"
    using a(1) s(1) assms(1,5,6) by (simp add: psk_ok_def create_auth_priv_def URP_PSK_AUTH_METHOD_SHA256_def)
  then show ?thesis using s a(2) by (simp add: urp_cm_accept_one_def)
qed

section \<open>Concrete commands\<close>

definition sample_tb :: nl_request where
  "sample_tb a =
    (case a of
       URP_ENDPOINT_A_NAME \<Rightarrow> Some (NV_string ''ep0'')
     | URP_ENDPOINT_A_LISTEN_PATH \<Rightarrow> Some (NV_string ''/run/urp'')
     | URP_ENDPOINT_A_PEER_ADDR \<Rightarrow> Some (NV_addr sample_addr)
     | URP_ENDPOINT_A_NUM_QPS \<Rightarrow> Some (NV_u32 2)
     | _ \<Rightarrow> None)"

definition sample_ge :: genl_env where
  "sample_ge = \<lparr> ge_parse = (\<lambda>pol raw. Inr (\<lambda>a. case sample_tb a of None \<Rightarrow> None
       | Some v \<Rightarrow> if policy_accepts (pol a) v then Some v else None)),
     ge_cfg_alloc = True, ge_msg_room = Some 65536, ge_reply = (\<lambda>_. None) \<rparr>"

definition sample_module :: urp_module where
  "sample_module = \<lparr> um_endpoints = [], um_endpoints_inited = True, um_gone = [] \<rparr>"

definition sample_loaded :: urp_module where
  "sample_loaded = snd (urp_new_endpoint_doit sample_env sample_ge (Some []) sample_module)"

lemma sample_parse: "parse_obeys_policy sample_ge" "urp_parse_endpoint sample_ge (Some []) = Inr sample_tb"
proof -
  show "parse_obeys_policy sample_ge" by (auto simp: parse_obeys_policy_def sample_ge_def split: option.splits if_splits)
  have "policy_accepts (urp_endpoint_policy a) v" if "sample_tb a = Some v" for a v
    using that by (cases a) (auto simp: sample_tb_def urp_endpoint_policy_def policy_accepts_def URP_NAME_MAX_def
        URP_PATH_MAX_LEN_def URP_NUM_QPS_MIN_def URP_NUM_QPS_MAX_def)
  then show "urp_parse_endpoint sample_ge (Some []) = Inr sample_tb"
    by (auto simp: urp_parse_endpoint_def sample_ge_def fun_eq_iff split: option.split)
qed

lemma sample_created:
  "create_check sample_env (new_config sample_tb) = None"
  "fst (urp_endpoint_activate sample_env (endpoint_new sample_env (new_config sample_tb))) = None"
proof -
  have c: "ep_name (new_config sample_tb) = ''ep0''" "ep_listen_path (new_config sample_tb) = ''/run/urp''"
    "ep_connect_path (new_config sample_tb) = []" "ep_has_peer_addr (new_config sample_tb)"
    "ep_peer_addr (new_config sample_tb) = sample_addr" "ep_num_qps (new_config sample_tb) = 2"
    "ep_kind (new_config sample_tb) = URP_EP_KIND_UDS"
    by (simp_all add: new_config_def tb_name_def tb_string_def sample_tb_def nla_strscpy_def URP_NAME_MAX_def
        URP_PATH_MAX_LEN_def nla_addr_def nla_get_u32_def)
  then show "create_check sample_env (new_config sample_tb) = None" by (simp add: create_check_def)
  have addr: "activate_address (ep\<lparr>ep_num_bufs := n, ep_buf_size := b\<rparr>) = Inr (0, ''/run/urp'')"
    if "ep = endpoint_new sample_env (new_config sample_tb)" for ep n b
    using that c by (simp add: activate_address_def endpoint_new_def urp_endpoint_extract_v4_def sample_addr_def
        ipv6_addr_v4mapped_def)
  show "fst (urp_endpoint_activate sample_env (endpoint_new sample_env (new_config sample_tb))) = None"
    unfolding urp_endpoint_activate_def Let_def addr[OF refl]
    by (simp add: c endpoint_new_def activate_objects_def urp_endpoint_proc_create_def kalloc_def
        urp_qps_init_def urp_streams_init_def activate_rdma_def urp_rdma_init_def urp_socket_init_def urp_ep_is_fast_def
        urp_listen_uds_def sock_create_def urp_should_unlink_listen_path_def urp_unlink_stale_socket_def
        listen_start_def activate_finish_def urp_probe_work_start_def URP_PATH_MAX_LEN_def log_ext_def sample_env_def Let_def)
qed

lemma sample_new:
  "urp_new_endpoint_doit sample_env sample_ge (Some []) sample_module = (None, sample_loaded)"
  "module_ok sample_module"
proof -
  have n: "sample_tb URP_ENDPOINT_A_NAME \<noteq> None" by (simp add: sample_tb_def)
  obtain ep where "urp_endpoint_activate sample_env (endpoint_new sample_env (new_config sample_tb)) = (None, ep)"
    using sample_created(2) by (metis prod.collapse)
  moreover have "ev_alloc sample_env = (\<lambda>_ _. None)" "ge_cfg_alloc sample_ge"
    by (simp_all add: sample_env_def sample_ge_def)
  ultimately have "fst (urp_new_endpoint_doit sample_env sample_ge (Some []) sample_module) = None"
    using sample_parse(2) n sample_created(1)
    by (simp add: urp_new_endpoint_doit_def urp_genl_lookup_by_name_def urp_endpoint_create_def ht_insert_def ht_lookup_def
        new_activate_def new_config_name sample_module_def Let_def)
  then show "urp_new_endpoint_doit sample_env sample_ge (Some []) sample_module = (None, sample_loaded)"
    by (simp add: sample_loaded_def prod_eq_iff)
  show "module_ok sample_module" by (simp add: sample_module_def module_ok_def ht_inv_def ht_lookup_def)
qed

theorem genl_commands_atomic_witness:
  "urp_genl_ops sample_env sample_ge True URP_CMD_NEW_ENDPOINT (Some []) (genl_run [] sample_module) = ((None, None), sample_loaded)
   \<and> module_ok sample_loaded"
proof -
  have 0: "urp_endpoint_table_init sample_env sample_module = (None, sample_module)" "um_gone sample_module = []"
    by (simp_all add: urp_endpoint_table_init_def sample_env_def sample_module_def)
  have 1: "urp_genl_ops sample_env sample_ge True URP_CMD_NEW_ENDPOINT (Some []) (genl_run [] sample_module) = ((None, None), sample_loaded)"
    using sample_new(1) by (simp add: urp_genl_ops_def)
  show ?thesis using 1 genl_commands_atomic[OF 0 1] by simp
qed


definition sample_table :: "bytes \<Rightarrow> urp_module" where
  "sample_table pw = \<lparr> um_endpoints = [(''ep0'', sample_active\<lparr>ep_refcount := 1, ep_password := pw, ep_has_password := True\<rparr>)],
     um_endpoints_inited = True, um_gone = [] \<rparr>"

lemma sample_active_config:
  "ep_name sample_active = ''ep0''" "ep_num_qps sample_active = 2" "ep_auth_priv sample_active = replicate 33 0"
  using base_of_eq[OF base_activate[of sample_env "endpoint_new sample_env sample_cfg"]] sample_active(1)
  by (simp_all add: urp_ep_config.truncate_def endpoint_new_def sample_cfg_def create_auth_priv_def URP_PSK_HASH_LEN_def)

theorem replies_hide_secrets_witness:
  "sample_table [1] \<noteq> sample_table [2]
   \<and> fst (urp_get_endpoint_doit sample_env sample_ge (Some []) (sample_table [1])) =
     fst (urp_get_endpoint_doit sample_env sample_ge (Some []) (sample_table [2]))"
proof -
  have ok: "module_ok (sample_table pw)" for pw
    by (simp add: module_ok_def sample_table_def ht_inv_def ht_lookup_def sample_active_config)
  have "map (apsnd public) (um_endpoints (sample_table [1])) = map (apsnd public) (um_endpoints (sample_table [2]))"
    by (simp add: sample_table_def public_def)
  note this [THEN replies_hide_secrets[OF ok ok]]
  moreover have pw: "ep_password (snd (hd (um_endpoints (sample_table pw)))) = pw" for pw by (simp add: sample_table_def)
  have "sample_table [1] \<noteq> sample_table [2]"
  proof
    assume "sample_table [1] = sample_table [2]"
    then have "[1] = ([2] :: bytes)" using pw[of "[1]"] pw[of "[2]"] by simp
    then show False by simp
  qed
  ultimately show ?thesis by blast
qed

theorem sizes_fixed_while_active_witness:
  "set_endpoint sample_env (\<lambda>a. if a = URP_ENDPOINT_A_NUM_QPS then Some (NV_u32 3) else None) sample_active = (Some EBUSY, sample_active)
   \<and> ep_num_qps sample_active = 2"
proof -
  let ?tb = "\<lambda>a. if a = URP_ENDPOINT_A_NUM_QPS then Some (NV_u32 3) else None"
  obtain r ep' where 1: "set_endpoint sample_env ?tb (cy_ep (conn_start sample_active)) = (r, ep')" by force
  have "r = Some EBUSY \<and> ep' = sample_active"
    using sizes_fixed_while_active[OF sample_active(1) rtranclp.rtrancl_refl 1]
    by (simp add: conn_start_def sample_active_config)
  then show ?thesis using 1 by (simp add: conn_start_def sample_active_config)
qed

theorem set_password_locks_peers_out_witness:
  "fst (urp_cm_accept_one sample_env 5 (Some (create_auth_priv sample_env (sample_cfg\<lparr>ep_has_password := True\<rparr>))) 33
      (snd (set_locked (\<lambda>a. if a = URP_ENDPOINT_A_PASSWORD then Some (NV_string ''pw'') else None) sample_active))) = None
   \<and> ep_auth_len (snd (set_locked (\<lambda>a. if a = URP_ENDPOINT_A_PASSWORD then Some (NV_string ''pw'') else None) sample_active)) = 0"
proof -
  let ?tb = "\<lambda>a. if a = URP_ENDPOINT_A_PASSWORD then Some (NV_string ''pw'') else None"
  have 1: "set_locked ?tb sample_active = (None, snd (set_locked ?tb sample_active))"
    by (simp add: set_locked_def urp_set_sizing_u32_def)
  show ?thesis
    using set_password_locks_peers_out[OF _ sample_active(1) _ 1, of "NV_string ''pw''" "sample_cfg\<lparr>ep_has_password := True\<rparr>"
        "create_auth_priv sample_env (sample_cfg\<lparr>ep_has_password := True\<rparr>)" sample_env "[]" 5 33]
    by (simp add: sample_cfg_def)
qed

end
