(* ===== verification/Urp_Module.thy ===== *)
theory Urp_Module
  imports Urp_Netlink
begin

text \<open>
  The module as a whole: its tunables with the ranges their files accept (kernel/urp\_sysctl.c), and
  loading and unloading with the unwinding of a failed load (kernel/urp\_main.c and the registrations of
  kernel/urp\_proc.c, kernel/urp\_sysctl.c, kernel/urp\_cmd.c and kernel/urp\_netlink.c).
\<close>

section \<open>Tunables\<close>

definition urp_sysctl_defaults :: urp_sysctl where
  "urp_sysctl_defaults = \<lparr> sy_connect_max_attempts = 300, sy_connect_backoff_base_ms = 100,
     sy_connect_backoff_ceil_ms = 2000, sy_window_bytes_advertise = 1,
     sy_window_bytes = ucast URP_WINDOW_BYTES_DEFAULT, sy_interarrival_hist = 1,
     sy_latency_sample_period = 64, sy_owd_clock_offset_ns = 0 \<rparr>"

datatype urp_knob = K_connect_max_attempts | K_connect_backoff_base_ms | K_connect_backoff_ceil_ms
  | K_window_bytes_advertise | K_window_bytes | K_interarrival_hist | K_latency_sample_period
  | K_owd_clock_offset_ns

text \<open>The least and the greatest value each file accepts.\<close>

definition urp_sysctls :: "urp_knob \<Rightarrow> u32 \<times> u32" where
  "urp_sysctls k =
    (case k of
       K_connect_max_attempts \<Rightarrow> (0, - 1)
     | K_connect_backoff_base_ms \<Rightarrow> (1, - 1)
     | K_connect_backoff_ceil_ms \<Rightarrow> (1, - 1)
     | K_window_bytes_advertise \<Rightarrow> (0, 1)
     | K_window_bytes \<Rightarrow> (ucast URP_WINDOW_BYTES_MIN, ucast URP_WINDOW_BYTES_MAX)
     | K_interarrival_hist \<Rightarrow> (0, 1)
     | K_latency_sample_period \<Rightarrow> (0, - 1)
     | K_owd_clock_offset_ns \<Rightarrow> (0, - 1))"

text \<open>The variable behind each file, read and written.\<close>

definition knob_get :: "urp_knob \<Rightarrow> urp_sysctl \<Rightarrow> u32" where
  "knob_get k sy =
    (case k of
       K_connect_max_attempts \<Rightarrow> sy_connect_max_attempts sy
     | K_connect_backoff_base_ms \<Rightarrow> sy_connect_backoff_base_ms sy
     | K_connect_backoff_ceil_ms \<Rightarrow> sy_connect_backoff_ceil_ms sy
     | K_window_bytes_advertise \<Rightarrow> sy_window_bytes_advertise sy
     | K_window_bytes \<Rightarrow> sy_window_bytes sy
     | K_interarrival_hist \<Rightarrow> sy_interarrival_hist sy
     | K_latency_sample_period \<Rightarrow> sy_latency_sample_period sy
     | K_owd_clock_offset_ns \<Rightarrow> sy_owd_clock_offset_ns sy)"

definition knob_set :: "urp_knob \<Rightarrow> u32 \<Rightarrow> urp_sysctl \<Rightarrow> urp_sysctl" where
  "knob_set k w sy =
    (case k of
       K_connect_max_attempts \<Rightarrow> sy\<lparr>sy_connect_max_attempts := w\<rparr>
     | K_connect_backoff_base_ms \<Rightarrow> sy\<lparr>sy_connect_backoff_base_ms := w\<rparr>
     | K_connect_backoff_ceil_ms \<Rightarrow> sy\<lparr>sy_connect_backoff_ceil_ms := w\<rparr>
     | K_window_bytes_advertise \<Rightarrow> sy\<lparr>sy_window_bytes_advertise := w\<rparr>
     | K_window_bytes \<Rightarrow> sy\<lparr>sy_window_bytes := w\<rparr>
     | K_interarrival_hist \<Rightarrow> sy\<lparr>sy_interarrival_hist := w\<rparr>
     | K_latency_sample_period \<Rightarrow> sy\<lparr>sy_latency_sample_period := w\<rparr>
     | K_owd_clock_offset_ns \<Rightarrow> sy\<lparr>sy_owd_clock_offset_ns := w\<rparr>)"

text \<open>
  The handler of every file is the kernel's proc\_douintvec\_minmax, a parameter: from the limits of
  the file, the text written and the old value it gives an error or none, and the new value.  What is
  relied on is its documented behaviour: it stores no value outside the limits.
\<close>

type_synonym minmax = "u32 \<times> u32 \<Rightarrow> string \<Rightarrow> u32 \<Rightarrow> errno option \<times> u32"

definition keeps_limits :: "minmax \<Rightarrow> bool" where
  "keeps_limits handler \<longleftrightarrow>
     (\<forall>lo hi buf old. let w = snd (handler (lo, hi) buf old) in w = old \<or> lo \<le> w \<and> w \<le> hi)"

definition sysctl_write :: "minmax \<Rightarrow> urp_knob \<Rightarrow> string \<Rightarrow> urp_sysctl \<Rightarrow> errno option \<times> urp_sysctl" where
  "sysctl_write handler k buf sy =
    (case handler (urp_sysctls k) buf (knob_get k sy) of (r, w) \<Rightarrow> (r, knob_set k w sy))"

definition sysctl_ok :: "urp_sysctl \<Rightarrow> bool" where
  "sysctl_ok sy \<longleftrightarrow> 0 < sy_connect_backoff_base_ms sy \<and> 0 < sy_connect_backoff_ceil_ms sy
    \<and> sy_window_bytes_advertise sy \<le> 1 \<and> sy_interarrival_hist sy \<le> 1
    \<and> ucast URP_WINDOW_BYTES_MIN \<le> sy_window_bytes sy \<and> sy_window_bytes sy \<le> ucast URP_WINDOW_BYTES_MAX"

lemma sysctl_ok_defaults: "sysctl_ok urp_sysctl_defaults"
  by (simp add: sysctl_ok_def urp_sysctl_defaults_def URP_WINDOW_BYTES_DEFAULT_def URP_WINDOW_BYTES_MIN_def
      URP_WINDOW_BYTES_MAX_def)

lemma sysctl_ok_write:
  assumes "keeps_limits handler" "sysctl_ok sy"
  shows "sysctl_ok (snd (sysctl_write handler k buf sy))"
proof -
  obtain lo hi where l: "urp_sysctls k = (lo, hi)" by force
  define w where "w = snd (handler (lo, hi) buf (knob_get k sy))"
  have "w = knob_get k sy \<or> lo \<le> w \<and> w \<le> hi" using assms(1) by (simp add: keeps_limits_def w_def Let_def)
  then have "sysctl_ok (knob_set k w sy)" using l assms(2)
    by (cases k) (auto simp: urp_sysctls_def knob_get_def knob_set_def sysctl_ok_def word_gt_0)
  then show ?thesis using l by (simp add: sysctl_write_def w_def case_prod_beta)
qed

definition sysctl_writes :: "minmax \<Rightarrow> (urp_knob \<times> string) list \<Rightarrow> urp_sysctl \<Rightarrow> urp_sysctl" where
  "sysctl_writes handler ws sy = fold (\<lambda>(k, buf) sy. snd (sysctl_write handler k buf sy)) ws sy"

lemma sysctl_writes_ok: "keeps_limits handler \<Longrightarrow> sysctl_ok sy \<Longrightarrow> sysctl_ok (sysctl_writes handler ws sy)"
  unfolding sysctl_writes_def by (induction ws arbitrary: sy) (auto simp: sysctl_ok_write split: prod.split)

lemma backoff_pos: "0 < base \<Longrightarrow> 0 < cap \<Longrightarrow> 0 < urp_connect_backoff_ms a base cap"
  by (simp add: word_less_nat_alt unat_connect_backoff)

text \<open>
  C40: No write to the tunables breaks the limits the code relies on.  After any sequence of writes of any
  text, accepted or refused, starting from the defaults, with a handler that stores no value outside
  the limits of its file, the delay before a retry is never zero and never above the
  configured ceiling, and the configured window lies in the supported range, so clamping does not change it.
\<close>

theorem tunables_stay_in_range:
  assumes "keeps_limits handler"
  shows "let sy = sysctl_writes handler ws urp_sysctl_defaults;
       delay = urp_connect_backoff_ms a (sy_connect_backoff_base_ms sy) (sy_connect_backoff_ceil_ms sy)
   in 0 < delay \<and> delay \<le> sy_connect_backoff_ceil_ms sy
      \<and> urp_window_clamp (ucast (sy_window_bytes sy)) = ucast (sy_window_bytes sy)"
proof -
  define sy where "sy = sysctl_writes handler ws urp_sysctl_defaults"
  have ok: "sysctl_ok sy" unfolding sy_def by (rule sysctl_writes_ok[OF assms sysctl_ok_defaults])
  have "urp_connect_backoff_ms a b c \<le> c" for b c
    unfolding word_le_nat_alt unat_connect_backoff by simp
  moreover have "urp_window_clamp (ucast (sy_window_bytes sy)) = ucast (sy_window_bytes sy)"
  proof -
    have "2 ^ 16 \<le> unat (sy_window_bytes sy)" "unat (sy_window_bytes sy) \<le> 2 ^ 30"
      using ok by (simp_all add: sysctl_ok_def word_le_nat_alt URP_WINDOW_BYTES_MIN_def URP_WINDOW_BYTES_MAX_def)
    then show ?thesis
      by (simp add: urp_window_clamp_def word_less_nat_alt unat_ucast_up URP_WINDOW_BYTES_MIN_def URP_WINDOW_BYTES_MAX_def)
  qed
  ultimately show ?thesis using ok by (simp add: sy_def[symmetric] sysctl_ok_def backoff_pos Let_def)
qed

definition sample_minmax :: minmax where
  "sample_minmax lim buf old =
    (let w = foldl (\<lambda>n c. 10 * n + (of_char c - 48)) 0 buf
     in if w < fst lim \<or> snd lim < w then (Some ERANGE, old) else (None, w))"

theorem tunables_stay_in_range_witness:
  "keeps_limits sample_minmax \<and>
   (let sy = sysctl_writes sample_minmax [(K_connect_backoff_ceil_ms, ''500''), (K_window_bytes, ''12'')] urp_sysctl_defaults
    in sy_connect_backoff_ceil_ms sy = 500 \<and> urp_connect_backoff_ms 7 (sy_connect_backoff_base_ms sy) 500 \<le> 500
       \<and> urp_window_clamp (ucast (sy_window_bytes sy)) = ucast (sy_window_bytes sy))"
proof -
  have k: "keeps_limits sample_minmax" by (auto simp: keeps_limits_def sample_minmax_def Let_def)
  have "sy_connect_backoff_ceil_ms (sysctl_writes sample_minmax [(K_connect_backoff_ceil_ms, ''500''), (K_window_bytes, ''12'')]
      urp_sysctl_defaults) = 500" by code_simp
  then show ?thesis
    using k tunables_stay_in_range[OF k, of "[(K_connect_backoff_ceil_ms, ''500''), (K_window_bytes, ''12'')]" 7]
    by (simp add: Let_def)
qed

section \<open>Loading and unloading\<close>

text \<open>
  The registrations of the module beside its table, and the outcome of each registration.  Without the
  zero-copy path the device is not registered and its registration succeeds.
\<close>

record urp_sys =
  us_module :: urp_module
  us_proc :: bool
  us_sysctl :: bool
  us_cmd_dev :: bool
  us_genl :: bool

record load_env =
  le_proc_mkdir :: bool
  le_register_sysctl :: bool
  le_misc_register :: "errno option"
  le_genl_register :: "errno option"

definition urp_proc_init :: "load_env \<Rightarrow> urp_sys \<Rightarrow> errno option \<times> urp_sys" where
  "urp_proc_init le s = (if le_proc_mkdir le then (None, s\<lparr>us_proc := True\<rparr>) else (Some ENOMEM, s))"

definition urp_proc_cleanup :: "urp_sys \<Rightarrow> urp_sys" where
  "urp_proc_cleanup s = s\<lparr>us_proc := False\<rparr>"

definition urp_sysctl_register :: "load_env \<Rightarrow> urp_sys \<Rightarrow> errno option \<times> urp_sys" where
  "urp_sysctl_register le s = (if le_register_sysctl le then (None, s\<lparr>us_sysctl := True\<rparr>) else (Some ENOMEM, s))"

definition urp_sysctl_unregister :: "urp_sys \<Rightarrow> urp_sys" where
  "urp_sysctl_unregister s = s\<lparr>us_sysctl := False\<rparr>"

definition urp_cmd_dev_register :: "env \<Rightarrow> load_env \<Rightarrow> urp_sys \<Rightarrow> errno option \<times> urp_sys" where
  "urp_cmd_dev_register ev le s =
    (if \<not> ev_fast_enabled ev then (None, s)
     else case le_misc_register le of Some e \<Rightarrow> (Some e, s) | None \<Rightarrow> (None, s\<lparr>us_cmd_dev := True\<rparr>))"

definition urp_cmd_dev_unregister :: "urp_sys \<Rightarrow> urp_sys" where
  "urp_cmd_dev_unregister s = s\<lparr>us_cmd_dev := False\<rparr>"

definition urp_genl_register :: "load_env \<Rightarrow> urp_sys \<Rightarrow> errno option \<times> urp_sys" where
  "urp_genl_register le s =
    (case le_genl_register le of Some e \<Rightarrow> (Some e, s) | None \<Rightarrow> (None, s\<lparr>us_genl := True\<rparr>))"

definition urp_genl_unregister :: "urp_sys \<Rightarrow> urp_sys" where
  "urp_genl_unregister s = s\<lparr>us_genl := False\<rparr>"

definition init_err_table :: "errno \<Rightarrow> urp_sys \<Rightarrow> errno option \<times> urp_sys" where
  "init_err_table e s = (Some e, s\<lparr>us_module := urp_endpoint_table_destroy (us_module s)\<rparr>)"

definition init_err_proc :: "errno \<Rightarrow> urp_sys \<Rightarrow> errno option \<times> urp_sys" where
  "init_err_proc e s = init_err_table e (urp_proc_cleanup s)"

definition init_err_sysctl :: "errno \<Rightarrow> urp_sys \<Rightarrow> errno option \<times> urp_sys" where
  "init_err_sysctl e s = init_err_proc e (urp_sysctl_unregister s)"

definition init_err_cmd :: "errno \<Rightarrow> urp_sys \<Rightarrow> errno option \<times> urp_sys" where
  "init_err_cmd e s = init_err_sysctl e (urp_cmd_dev_unregister s)"

definition urp_init :: "env \<Rightarrow> load_env \<Rightarrow> urp_sys \<Rightarrow> errno option \<times> urp_sys" where
  "urp_init ev le s =
    (case urp_endpoint_table_init ev (us_module s) of
       (Some e, m) \<Rightarrow> (Some e, s\<lparr>us_module := m\<rparr>)
     | (None, m) \<Rightarrow>
         (case urp_proc_init le (s\<lparr>us_module := m\<rparr>) of
            (Some e, s) \<Rightarrow> init_err_table e s
          | (None, s) \<Rightarrow>
              (case urp_sysctl_register le s of
                 (Some e, s) \<Rightarrow> init_err_proc e s
               | (None, s) \<Rightarrow>
                   (case urp_cmd_dev_register ev le s of
                      (Some e, s) \<Rightarrow> init_err_sysctl e s
                    | (None, s) \<Rightarrow>
                        (case urp_genl_register le s of
                           (Some e, s) \<Rightarrow> init_err_cmd e s
                         | (None, s) \<Rightarrow> (None, s))))))"

definition urp_exit :: "env \<Rightarrow> urp_sys \<Rightarrow> urp_sys" where
  "urp_exit ev s =
    (let s = urp_genl_unregister s;
         s = s\<lparr>us_module := urp_endpoint_drain_all ev (us_module s)\<rparr>;
         s = urp_cmd_dev_unregister s;
         s = urp_sysctl_unregister s;
         s = urp_proc_cleanup s
     in s\<lparr>us_module := urp_endpoint_table_destroy (us_module s)\<rparr>)"

definition urp_unloaded :: urp_sys where
  "urp_unloaded = \<lparr> us_module = \<lparr> um_endpoints = [], um_endpoints_inited = False, um_gone = [] \<rparr>,
     us_proc = False, us_sysctl = False, us_cmd_dev = False, us_genl = False \<rparr>"

lemmas load_defs = urp_init_def urp_endpoint_table_init_def urp_proc_init_def urp_sysctl_register_def
  urp_cmd_dev_register_def urp_genl_register_def init_err_cmd_def init_err_sysctl_def init_err_proc_def init_err_table_def
  urp_proc_cleanup_def urp_sysctl_unregister_def urp_cmd_dev_unregister_def urp_genl_unregister_def
  urp_endpoint_table_destroy_def

lemma load_failed: "urp_init ev le urp_unloaded = (Some e, s) \<Longrightarrow> s = urp_unloaded"
  by (auto simp: load_defs urp_unloaded_def split: option.splits if_splits)

lemma load_ok:
  "urp_init ev le urp_unloaded = (None, s) \<Longrightarrow>
    module_ok (us_module s) \<and> um_endpoints (us_module s) = [] \<and> us_proc s \<and> us_sysctl s \<and> us_genl s"
  by (auto simp: load_defs urp_unloaded_def module_ok_def ht_inv_def ht_lookup_def split: option.splits if_splits)

declare drain_all_loop.simps [simp del]

text \<open>Draining all endpoints empties the table; each endpoint goes through removal once.\<close>

lemma kref_remove:
  assumes "module_ok m" "ht_lookup (um_endpoints m) name = Some ep"
  shows "put_gone (urp_endpoint_remove ev name (upd_ep name kref_get m)) =
    m\<lparr>um_endpoints := ht_remove (um_endpoints m) name,
      um_gone := urp_endpoint_put (urp_endpoint_put (urp_endpoint_drain ev (ep\<lparr>ep_refcount := 2\<rparr>))) # um_gone m\<rparr>"
proof -
  have "kref_get ep = ep\<lparr>ep_refcount := 2\<rparr>"
    using module_ok_ref[OF assms] by (simp add: kref_get_def numeral_2_eq_2)
  then have "ht_lookup (um_endpoints (upd_ep name kref_get m)) name = Some (ep\<lparr>ep_refcount := 2\<rparr>)"
    using assms(2) by (simp add: upd_ep_lookup)
  from remove_put[OF this, of ev] show ?thesis by (simp add: upd_ep_def ht_remove_update)
qed

lemma drain_all_loop_ok:
  "module_ok m \<Longrightarrow> um_endpoints (drain_all_loop ev m) = [] \<and> module_ok (drain_all_loop ev m)
    \<and> length (um_gone (drain_all_loop ev m)) = length (um_gone m) + length (um_endpoints m)"
proof (induction ev m rule: drain_all_loop.induct)
  case (1 ev m)
  show ?case
  proof (cases "um_endpoints m")
    case Nil
    then show ?thesis using 1(2) by (simp add: drain_all_loop.simps)
  next
    case (Cons e t)
    obtain name ep where e: "e = (name, ep)" by force
    have l: "ht_lookup (um_endpoints m) name = Some ep" by (simp add: Cons e ht_lookup_def)
    have r: "ep_refcount ep = 1" using module_ok_ref[OF 1(2) l] by simp
    define m1 where "m1 = put_gone (urp_endpoint_remove ev name (upd_ep name kref_get m))"
    note m1 = kref_remove[OF 1(2) l, of ev, folded m1_def]
    have f: "find (\<lambda>e. ep_refcount (snd e) \<noteq> 0) (um_endpoints m) = Some (name, ep)" by (simp add: Cons e r)
    have t: "ht_remove (um_endpoints m) name = t"
      using 1(2) ht_remove_head[of name ep t] by (simp add: Cons e module_ok_def)
    have "\<forall>ep\<in>set (um_gone m). freed ep" using 1(2) by (simp add: module_ok_def)
    then have ok: "module_ok m1"
      unfolding m1 by (intro module_ok_remove[OF 1(2)]) (simp add: drained_freed)
    have "drain_all_loop ev m = drain_all_loop ev m1"
      by (subst drain_all_loop.simps) (simp only: f option.case prod.case m1_def)
    moreover have "length (um_gone m1) + length (um_endpoints m1) = length (um_gone m) + length (um_endpoints m)"
      by (simp add: m1 t) (simp add: Cons)
    ultimately show ?thesis using 1(1)[OF f refl] ok by (simp add: m1_def)
  qed
qed

text \<open>
  C39: Loading and unloading are complete.  A load that fails, at whichever registration, leaves the
  module as it was before.  After a successful load and any sequence of control commands, unloading
  ends: it empties the table, and every endpoint that was ever created, those removed before included, is
  stopped and held by no reference, while no registration is left.
\<close>

theorem load_and_unload_complete:
  assumes "urp_init ev0 le urp_unloaded = (r, s)"
  shows "(r \<noteq> None \<longrightarrow> s = urp_unloaded) \<and>
    (r = None \<longrightarrow>
      (let m = genl_run cs (us_module s); s' = urp_exit ev (s\<lparr>us_module := m\<rparr>)
       in um_endpoints (us_module s') = [] \<and> \<not> um_endpoints_inited (us_module s')
          \<and> length (um_gone (us_module s')) = length (um_gone m) + length (um_endpoints m)
          \<and> (\<forall>ep\<in>set (um_gone (us_module s')). ep_refcount ep = 0 \<and> ep_state ep = URP_STATE_STOPPED)
          \<and> \<not> us_proc s' \<and> \<not> us_sysctl s' \<and> \<not> us_cmd_dev s' \<and> \<not> us_genl s'))"
proof (cases r)
  case None
  then have "module_ok (us_module s)" using load_ok assms by simp
  then have ok: "module_ok (genl_run cs (us_module s))" by (rule genl_run_ok)
  then show ?thesis using None drain_all_loop_ok[OF ok, of ev]
    by (simp add: urp_exit_def urp_endpoint_drain_all_def load_defs module_ok_def freed_def Let_def)
next
  case (Some e)
  then show ?thesis using load_failed assms by simp
qed

theorem load_and_unload_complete_witness:
  "\<exists>s. urp_init sample_env \<lparr> le_proc_mkdir = True, le_register_sysctl = True, le_misc_register = None,
      le_genl_register = None \<rparr> urp_unloaded = (None, s)
    \<and> um_endpoints (us_module (urp_exit sample_env (s\<lparr>us_module :=
        genl_run [(sample_env, sample_ge, True, URP_CMD_NEW_ENDPOINT, Some [])] (us_module s)\<rparr>))) = []"
proof -
  let ?le = "\<lparr> le_proc_mkdir = True, le_register_sysctl = True, le_misc_register = None, le_genl_register = None \<rparr>"
  obtain s where s: "urp_init sample_env ?le urp_unloaded = (None, s)"
    by (simp add: load_defs sample_env_def urp_unloaded_def)
  then show ?thesis
    using load_and_unload_complete[OF s, of "[(sample_env, sample_ge, True, URP_CMD_NEW_ENDPOINT, Some [])]" sample_env]
    unfolding Let_def by blast
qed

end
