(* ===== verification/Spec2Isabelle.thy ===== *)
theory Spec2Isabelle
  imports Urp_Frame Urp_Credit Urp_Window Urp_Hist Urp_Plan Urp_Stream_SM Urp_Reorder Urp_Geometry
    Urp_Cmd_Plan Urp_Pool Urp_Bench_Wire Urp_Bench_Track Urp_State Urp_Sample Urp_Queues Urp_Stream
    Urp_Pump Urp_Rx Urp_Pool_Frame Urp_Conn Urp_Conn_Inv Urp_Endpoint
    Urp_Config Urp_Netlink_Msg Urp_Netlink Urp_Module
begin

text \<open>
  Verification of urp, a Linux kernel module that carries Unix-domain-socket streams over RDMA, and
  of the core of its benchmark tool.  Paths below are relative to src/.

  \<^bold>\<open>The program.\<close>  An endpoint joins one local socket path to one RDMA peer.  The initiator listens
  on a Unix socket and, for each client, opens a stream; its transmit thread reads the socket, puts a
  20-byte header in front of what it read and posts the frame on one of the endpoint's queue pairs.
  The acceptor's receive completions classify each frame, open the backend socket on the first one
  of a stream, put the frames of a stream back in order and write them out.  Frame credits and a
  byte window bound what is under way, probes watch the queue pairs, and the connection manager's
  events drive dial, accept, loss and retry.  Endpoints are created, changed, listed and removed over
  generic netlink; a character device gives programs zero-copy access.

  \<^bold>\<open>Theories and sources.\<close>
  \<^item> Urp\_Prelude: integer types, errors, byte buffers, generic lemmas.
  \<^item> Urp\_Frame: wire format, receive classifier, private data of a connection
    (kernel/urp\_frame.h, urp\_frame.c).
  \<^item> Urp\_Credit, Urp\_Window: frame credits (urp\_credit.h, urp\_credit.c, urp\_credit\_plan.h) and byte
    window (urp\_window.h), each composed into two ends as the transmit threads and the receive handler
    drive them, best-effort sends included.
  \<^item> Urp\_Hist, Urp\_Plan, Urp\_Stream\_SM: histograms (urp\_hist.h), connection decisions
    (urp\_conn\_plan.h, urp\_retry\_plan.h, urp\_lazy\_plan.h), stream state machine (urp\_stream\_sm.h, .c).
  \<^item> Urp\_Reorder: reorder buffer (urp\_reorder.c) on red-black trees.
  \<^item> Urp\_Geometry: clamping, chunk split and chunk walks (urp.h, urp\_pump.c).
  \<^item> Urp\_Cmd\_Plan: validation and ownership bitmap of the zero-copy device (urp\_cmd\_validate.c,
    urp\_cmd\_own.h).
  \<^item> Urp\_Pool: the contract of an index pool, provided by the module's two pools and the benchmark's
    buffer ring.
  \<^item> Urp\_State, Urp\_Sample: run-time state (urp.h), the environment, and concrete instances.
  \<^item> Urp\_Queues: pools, posting, shared objects and their unwinding, shared receive queue, choice of
    queue pair (urp\_rdma.c, urp\_pump.c, urp\_srq.c, urp\_qp.c).
  \<^item> Urp\_Stream: stream table (urp\_stream.c).
  \<^item> Urp\_Pump: transmit threads, probes, grants (urp\_pump.c).
  \<^item> Urp\_Rx: receive completions (urp\_rdma.c).
  \<^item> Urp\_Pool\_Frame, Urp\_Conn, Urp\_Conn\_Inv: connection management (urp\_rdma.c), its steps and
    its invariant.
  \<^item> Urp\_Endpoint: sockets and lifecycle (urp\_socket.c, urp\_endpoint.c, urp\_proc.c).
  \<^item> Urp\_Config: the configuration never changes (proved over activation and draining).
  \<^item> Urp\_Netlink\_Msg, Urp\_Netlink: attribute trees, the description of an endpoint, and the commands
    of the netlink family (urp\_netlink.c).
  \<^item> Urp\_Module: tunables, load and unload (urp\_sysctl.c, urp\_main.c).
  \<^item> Urp\_Bench\_Wire, Urp\_Bench\_Track: benchmark core (tools/urp-bench-core.h, .c).

  \<^bold>\<open>How the state is modelled.\<close>  A C structure is a record with the fields the modelled code uses, a
  w-bit integer a w-bit word, a negative errno a value of an error type, a pointer to a kernel object
  a number, with None for NULL.  The kernel is a record of functions from the calls made so far to the
  outcome of the next call; each call is logged in the endpoint's trace.  No theorem fixes an
  outcome unless its hypotheses say so, so every failure path is covered.  A handler runs as one step,
  which is what the locks and the per-queue serialisation of completions give; where a thread blocks,
  what others do meanwhile is an arbitrary function, restricted only by named hypotheses.

  \<^bold>\<open>What is shown.\<close>
  \<^item> Codecs: encoders and decoders are inverse, the classifier never reads past the received bytes,
    chunked buffers denote the flat frame.
  \<^item> Flow control: over any run of the two ends credits are accounted for, and the bytes under way
    exceed the window only by those posted best-effort; once everything was delivered and granted the
    sender may send again.
  \<^item> Ordering: the reorder buffer releases each frame once and in order; receive completions write
    the stream's bytes in order whatever the order of arrival; transmit threads number what they
    read; together, when every frame arrives once and the reorder buffer has room and memory, what
    was read at one end is offered to the socket at the other, read by read and in order (last section
    of this theory).  A short or failed write to the socket loses bytes, which the theorems say.
  \<^item> Resources: receive buffers are conserved, the shared objects are set up completely or not at all,
    streams are torn down once.
  \<^item> Connections: a step relation over the handlers keeps the connection counters exact.
  \<^item> Control: commands are atomic and guarded, the addresses and sizes requested are those shown, secrets
    are not shown, sizes are fixed while an endpoint is active, load and unload are complete.
  \<^item> Benchmark: the deframer gives the same messages under every chunking, the tracker matches
    echoes, the ring never hands out a buffer twice.
  Some theorems show the code departing from its comments; their text says so.

  \<^bold>\<open>Bounds.\<close>  Loops are structural or have a termination proof.  Where a counter stands in for a loop
  condition it is the exact number of iterations: the drained entries of a reorder buffer, the
  number of queue pairs of a scan, 32 halvings of a chunk order, the stall budget
  of the window gate.

  \<^bold>\<open>Not modelled.\<close>  The io\_uring commands of the zero-copy device (urp\_cmd.c), which are about pinned user
  pages and memory regions; the text of the statistics files; the benchmark, test and fuzzing programs;
  the Rust crates, which are a second implementation of the protocol and user-space tools around the
  netlink family.  Locks and memory reclamation are not modelled: handlers are steps and deferred frees
  happen at once.  What the kernel's libraries do (attribute parsing, the walk of its
  hash table in a dump, the handler behind the tunables, SHA-256, verbs, sockets) is a parameter.
\<close>

unbundle bit_operations_syntax

section \<open>From the sender's socket to the receiver's\<close>

lemma is_tx_frame_seq: "is_tx_frame sid sq syn d fr \<Longrightarrow> urp_frame_decode_seq fr = sq"
proof -
  have "urp_frame_decode_seq (frame_header sid sq URP_FRAME_TYPE_DATA fl 0 pl @ x) = sq" for fl pl x
  proof -
    have "urp_frame_encode (replicate 20 0 @ x) sid sq URP_FRAME_TYPE_DATA fl 0 pl =
        frame_header sid sq URP_FRAME_TYPE_DATA fl 0 pl @ x"
      by (simp add: urp_frame_encode_layout write_at_def)
    then show ?thesis
      using urp_frame_decode_encode(2)[of "replicate 20 0 @ x" sid sq URP_FRAME_TYPE_DATA fl 0 pl] by simp
  qed
  then show "is_tx_frame sid sq syn d fr \<Longrightarrow> urp_frame_decode_seq fr = sq"
    by (auto simp: is_tx_frame_def data_frame_def Let_def)
qed

lemma tx_frame_is_rx_frame:
  assumes "is_tx_frame sid sq syn d fr"
  shows "is_rx_frame sid sq d fr" "length fr \<le> 28 + length d"
proof -
  define fl :: u8 where "fl = (if syn then URP_DATA_FLAG_SYN else 0)"
  have f: "fl AND URP_DATA_FLAG_FIN = 0" "fl AND URP_DATA_FLAG_RST = 0"
    "(fl OR URP_DATA_FLAG_TSTAMP) AND URP_DATA_FLAG_FIN = 0" "(fl OR URP_DATA_FLAG_TSTAMP) AND URP_DATA_FLAG_RST = 0"
    by (simp_all add: fl_def frame_consts)
  have "fr = data_frame sid sq fl d @ [] \<or> (\<exists>t :: u64. fr = data_frame sid sq (fl OR URP_DATA_FLAG_TSTAMP) d @ le_bytes 8 t)"
    using assms by (simp add: is_tx_frame_def Let_def fl_def)
  then show "is_rx_frame sid sq d fr" "length fr \<le> 28 + length d"
    using f by (auto simp: is_rx_frame_def data_frame_def)
qed

lemma frames_as_arrivals:
  assumes "mset (map (\<lambda>a. fst (snd a)) as) = mset frs" "\<forall>a\<in>set as. fst a < r_len h"
    and "\<forall>j < length frs. is_tx_frame (r_sid h) (of_nat j) (j = 0) (ds ! j) (frs ! j)"
    and "\<forall>j < length frs. length (ds ! j) \<le> unat (r_bs h) - 28" "28 \<le> unat (r_bs h)" "length frs < 2 ^ 64"
    and "\<And>j. j < length frs \<Longrightarrow> D (of_nat j) = ds ! j"
  defines "sqs \<equiv> map (\<lambda>a. urp_frame_decode_seq (fst (snd a))) as"
  shows "list_all2 (carries h D) as sqs" "distinct sqs" "set sqs = of_nat ` {0..<length frs}"
proof -
  have dec: "urp_frame_decode_seq (frs ! j) = of_nat j" if "j < length frs" for j
    using assms(3) that is_tx_frame_seq by blast
  have map_dec: "map urp_frame_decode_seq frs = map of_nat [0..<length frs]"
    using dec by (intro nth_equalityI) simp_all
  have "mset sqs = image_mset urp_frame_decode_seq (mset (map (\<lambda>a. fst (snd a)) as))"
    by (simp add: sqs_def image_mset.compositionality comp_def)
  also have "\<dots> = mset (map urp_frame_decode_seq frs)" unfolding assms(1) by simp
  finally have ms: "mset sqs = mset (map of_nat [0..<length frs])" unfolding map_dec .
  have "inj_on (of_nat :: nat \<Rightarrow> u64) {0..<length frs}"
    using assms(6) by (intro inj_on_inverseI[where g = unat]) (simp add: unat_of_nat)
  then show "distinct sqs" using mset_eq_imp_distinct_iff[OF ms] by (simp add: distinct_map)
  show "set sqs = of_nat ` {0..<length frs}" using mset_eq_setD[OF ms] by simp
  have "carries h D a (urp_frame_decode_seq (fst (snd a)))" if a: "a \<in> set as" for a
  proof -
    have "fst (snd a) \<in> set frs" using mset_eq_setD[OF assms(1)] a by auto
    then obtain j where j: "j < length frs" "fst (snd a) = frs ! j" by (auto simp: in_set_conv_nth)
    note fr = tx_frame_is_rx_frame[OF assms(3)[rule_format, OF j(1)]]
    have "length (ds ! j) \<le> unat (r_bs h) - 28" using assms(4) j(1) by simp
    then have "length (frs ! j) \<le> unat (r_bs h)" using fr(2) assms(5) by linarith
    then show ?thesis using fr(1) a assms(2,7) j dec[OF j(1)] by (cases a) (auto simp: carries_def)
  qed
  then show "list_all2 (carries h D) as sqs" by (simp add: sqs_def list_all2_conv_all_nth)
qed

text \<open>C1: A stream crosses the proxy unchanged when nothing on its way fails.  Take a run of the transmit
  thread of a fresh stream on the sending endpoint, with all queue pairs up throughout, and let each of
  its frames complete exactly once on the receiving endpoint, in any order, spread over the queue pairs
  as it may be, with the same buffer size at both ends, no more frames than the reorder buffer is deep
  and every allocation of the reorder buffer successful.  Then the receiver offers its backend socket
  exactly what the sender read from its client, read by read and in order, up to the last read of a
  thread that has been stopped with a frame in hand.  If every write to the backend socket is
  complete, the bytes are the same; otherwise they are a prefix of each read in turn, for a short or
  failed write is not repeated.\<close>

theorem stream_end_to_end:
  assumes "undisturbed g itf" "geom_ok (t_bs g) (t_cs g) (t_n g)" "t_up g" "tx_at g 0 [] [] ep"
    and "urp_stream_tx_fn ev itf (t_sid g) n True ep = (ended, ep')"
    and "rx_geom h" "r_sid h = t_sid g" "r_bs h = t_bs g" "rx_undisturbed h itf2"
    and "\<forall>tr rb. ev_reorder_kmalloc ev2 tr rb" "urp_reorder_alloc True 0 m = Some rb" "m \<noteq> U32_MAX" "rx_at h rb [] ep2"
    and "mset (map (\<lambda>a. fst (snd a)) as) = mset (frames (t_sid g) (ep_trace ep'))" "\<forall>a\<in>set as. fst a < r_len h"
    and "length as \<le> unat m"
  shows "(\<exists>ns. length ns = length as \<and> sent (r_uds h) (ep_trace (rx_run ev2 itf2 as ep2)) =
      concat (map2 take ns (take (length as) (reads (t_sk g) (ep_trace ep'))))) \<and>
    (sends_all ev2 \<longrightarrow> sent (r_uds h) (ep_trace (rx_run ev2 itf2 as ep2)) =
      concat (take (length as) (reads (t_sk g) (ep_trace ep')))) \<and>
    (length (reads (t_sk g) (ep_trace ep')) = length as \<or> ended \<and> length (reads (t_sk g) (ep_trace ep')) = Suc (length as))"
proof -
  from run_stage[OF assms(1,2,4,5)] obtain ds frs where run: "tx_at g (0 + of_nat (length ds)) ([] @ ds) ([] @ frs) ep'"
    "tx_log (t_sid g) (t_up g) 0 True ended ds frs" by blast
  have tr: "reads (t_sk g) (ep_trace ep') = ds" "frames (t_sid g) (ep_trace ep') = frs"
    and small: "\<forall>d\<in>set ds. length d \<le> unat (t_bs g) - 28" using run(1) by (simp_all add: tx_at_def)
  have lf: "length as = length frs" using assms(14) tr(2) by (metis length_map size_mset)
  from tx_log_indices[OF run(2)] assms(3)
  have fr: "\<forall>j < length frs. is_tx_frame (t_sid g) (of_nat j) (j = 0) (ds ! j) (frs ! j)"
    and le: "length ds = length frs \<or> ended \<and> length ds = Suc (length frs)" by auto
  define D :: "u64 \<Rightarrow> bytes" where "D s = (if unat s < length frs then ds ! unat s else [])" for s
  have k: "length frs < 2 ^ 32" using assms(16) lf unat_bound[of m] by simp
  have D: "D (of_nat j) = ds ! j" if "j < length frs" for j using that k by (simp add: D_def unat_of_nat)
  have dl: "length (ds ! j) \<le> unat (t_bs g) - 28" if "j < length frs" for j using that le small by auto
  have cap: "\<forall>s. length (D s) \<le> unat (r_bs h)"
    using dl assms(8) by (auto simp: D_def intro: le_trans[OF _ diff_le_self])
  have bs: "28 \<le> unat (r_bs h)" using assms(2,8) by (simp add: geom_ok_def)
  define sqs where "sqs = map (\<lambda>a. urp_frame_decode_seq (fst (snd a))) as"
  have arr: "list_all2 (carries h D) as sqs" "distinct sqs" "set sqs = of_nat ` {0..<length frs}"
    using frames_as_arrivals[of as frs h ds D] assms(7,8,14,15) tr(2) fr dl bs k D unfolding sqs_def by simp_all
  obtain fs rb' where r: "rx_frames ro_next_expected (ro_insert (\<lambda>_. True)) (ro_skip (\<lambda>_. True)) (ro_pop (unat (r_bs h))) ro_avail rb
      (map (\<lambda>s. (s, D s)) sqs) = (fs, rb')" by force
  have "fs = map (\<lambda>i. (of_nat i, D (of_nat i))) [0..<length frs]"
  proof -
    have "fst ` set (map (\<lambda>s. (s, D s)) sqs) = of_nat ` {0..<length frs}" using arr(3) by (simp add: image_image)
    then show ?thesis using ro_permutation[OF assms(11,12) cap _ _ _ _ _ r, of "length frs"] arr(2) k assms(16) lf
      by (auto simp: comp_def)
  qed
  moreover have "map (\<lambda>i. D (of_nat i)) [0..<length frs] = take (length frs) ds"
    using D le by (intro nth_equalityI) auto
  ultimately have fs: "map snd fs = take (length frs) ds" by (simp add: comp_def)
  from rx_run_frames[OF assms(6,9) _ arr(1) assms(13) r, of ev2] assms(10) obtain x where
    x: "taken (sends_all ev2) (take (length frs) ds) x" and at: "rx_at h rb' x (rx_run ev2 itf2 as ep2)"
    unfolding fs by auto
  have "length (take (length frs) ds) = length as" using le lf by auto
  then show ?thesis using x at le lf tr(1) by (auto simp: rx_at_def taken_def)
qed

theorem stream_end_to_end_witness:
  "let ep' = snd (urp_stream_tx_fn sample_tx_env sample_acks 1 3 True (sample_tx True));
       as = map (\<lambda>fr. (0, fr, 100)) (rev (frames 1 (ep_trace ep')))
   in sent 7 (ep_trace (rx_run sample_rx_env (log_ext X_kthread_run) as sample_rx)) = concat (take (length as) (reads 7 (ep_trace ep')))"
proof -
  let ?g = "sample_tx_conf True"
  define res where "res = urp_stream_tx_fn sample_tx_env sample_acks (t_sid ?g) 3 True (sample_tx True)"
  have res: "urp_stream_tx_fn sample_tx_env sample_acks (t_sid ?g) 3 True (sample_tx True) = (fst res, snd res)" by (simp add: res_def)
  have up: "t_up ?g" "t_sid ?g = 1" "t_sk ?g = 7" "t_bs ?g = 128" by (simp_all add: sample_tx_conf_def)
  from run_stage[OF sample_tx_ok res] obtain ds frs where run: "tx_at ?g (0 + of_nat (length ds)) ([] @ ds) ([] @ frs) (snd res)"
    "tx_log (t_sid ?g) (t_up ?g) 0 True (fst res) ds frs" "length ds \<le> 3" by blast
  have "frames 1 (ep_trace (snd res)) = frs" using run(1) up by (simp add: tx_at_def)
  moreover have "length frs \<le> length ds" using tx_log_indices[OF run(2)] up(1) by auto
  ultimately have few: "length (frames 1 (ep_trace (snd res))) \<le> 4" using run(3) by simp
  have al: "urp_reorder_alloc True 0 4 = Some example_rb" by code_simp
  let ?as = "map (\<lambda>fr. (0, fr, 100 :: nat)) (rev (frames 1 (ep_trace (snd res))))"
  have "sent (r_uds sample_rx_conf) (ep_trace (rx_run sample_rx_env (log_ext X_kthread_run) ?as sample_rx)) =
      concat (take (length ?as) (reads (t_sk ?g) (ep_trace (snd res))))"
    using stream_end_to_end[OF sample_tx_ok(1,2) up(1) sample_tx_ok(3) res sample_rx_ok(1) _ _ sample_rx_ok(3) _ al _ sample_rx_ok(4), of sample_rx_env ?as]
      sample_rx_ok(2) few by (simp add: up sample_rx_conf_def sample_rx_env_def sample_env_def comp_def)
  then show ?thesis by (simp add: Let_def res_def up sample_rx_conf_def)
qed

end
